(* ===== verification/Rx_Prelude.thy ===== *)
theory Rx_Prelude
  imports Main "HOL-Library.Word"
begin

section \<open>Shared types, collections and lemmas\<close>

text \<open>
  What every component of the development uses: the theorem collections that the
  component proofs extend, the Go types that several packages share, the two functions
  of the package \<open>strings\<close> that the source calls, and generic facts about maps and
  lists.

  A Go \<open>string\<close> is a sequence of bytes, so it is HOL's \<open>string\<close>, a list of
  8-bit characters. A \<open>time.Duration\<close> counts nanoseconds; the source only passes
  durations on and compares them with 0, so an unbounded \<open>int\<close> loses nothing.
  A Go map is a partial function. Where the source iterates over a map, Go chooses the
  order, so the order is an explicit list argument of the definition.
\<close>

named_theorems chan_laws \<open>how the operations of a Go channel change its fields\<close>
named_theorems inv_intros \<open>the operations that keep an invariant\<close>
named_theorems trace_laws \<open>projections of event traces\<close>

type_synonym duration = int

abbreviation Nanosecond :: duration where "Nanosecond \<equiv> 1"
abbreviation Millisecond :: duration where "Millisecond \<equiv> 1000000"
abbreviation Second :: duration where "Second \<equiv> 1000000000"

subsection \<open>The functions of the package strings that the source calls\<close>

fun strings_Join :: "string list \<Rightarrow> string \<Rightarrow> string" where
  "strings_Join [] sep = []"
| "strings_Join [x] sep = x"
| "strings_Join (x # y # xs) sep = x @ sep @ strings_Join (y # xs) sep"

text \<open>
  Splitting at the first occurrence of a separator that neither prefix contains is
  unambiguous. This is what makes names joined with a separator injective.
\<close>

lemma append_sep_inject:
  assumes "c \<notin> set xs" and "c \<notin> set ys"
  shows "xs @ c # us = ys @ c # vs \<longleftrightarrow> xs = ys \<and> us = vs"
  using assms
proof (induction xs arbitrary: ys)
  case Nil
  then show ?case by (cases ys) auto
next
  case (Cons x xs)
  then show ?case by (cases ys) auto
qed

subsection \<open>Maps built by iterating over an order of keys\<close>

text \<open>
  \<open>for k, v := range m { if p(k, v) { c[k] = v } }\<close>, with the order of the
  iteration as a list.
\<close>

fun range_copy :: "('k \<Rightarrow> 'v \<Rightarrow> bool) \<Rightarrow> ('k \<rightharpoonup> 'v) \<Rightarrow> 'k list \<Rightarrow> ('k \<rightharpoonup> 'v) \<Rightarrow> ('k \<rightharpoonup> 'v)" where
  "range_copy p m [] c = c"
| "range_copy p m (k # ks) c =
     range_copy p m ks
       (case m k of None \<Rightarrow> c | Some v \<Rightarrow> if p k v then c(k \<mapsto> v) else c)"

lemma range_copy_apply:
  "range_copy p m ks c k =
     (case m k of None \<Rightarrow> c k | Some v \<Rightarrow> if k \<in> set ks \<and> p k v then Some v else c k)"
  by (induction ks arbitrary: c) (auto split: option.splits)

lemma range_copy_all:
  assumes "set ks = dom m"
  shows "range_copy p m ks Map.empty k =
    (case m k of None \<Rightarrow> None | Some v \<Rightarrow> if p k v then Some v else None)"
  using assms by (auto simp: range_copy_apply dom_def split: option.splits)

lemma zip_take_length [simp]: "zip xs (take (length xs) ys) = zip xs ys"
proof (induction xs arbitrary: ys)
  case (Cons x xs)
  then show ?case by (cases ys) auto
qed simp

lemma dom_le_finite: "dom m \<subseteq> set xs \<Longrightarrow> finite (dom m)"
  by (rule finite_subset) auto

text \<open>A sum over a list of which one place is replaced.\<close>

lemma sum_update:
  fixes f :: "'a \<Rightarrow> 'b::comm_monoid_add"
  shows "i < length xs \<Longrightarrow>
    sum_list (map f (xs[i := y])) + f (xs ! i) = sum_list (map f xs) + f y"
proof (induction xs arbitrary: i)
  case (Cons a xs)
  show ?case
  proof (cases i)
    case 0
    then show ?thesis by (simp add: ac_simps)
  next
    case (Suc j)
    with Cons.IH [of j] Cons.prems show ?thesis by (simp add: ac_simps)
  qed
qed simp

end
