(* ===== verification/Rx_Channel.thy ===== *)
theory Rx_Channel
  imports Rx_Prelude "HOL-Library.Sublist"
begin

section \<open>Go channels\<close>

text \<open>
  A Go channel as its users see it: the buffered values, the capacity, whether it is
  closed, and how many receivers are blocked on it. A value sent while a receiver is
  blocked is handed to it directly. \<open>delivered\<close> is a ghost field, the values that
  receivers got so far, in order; no operation depends on it.
\<close>

record 'v chan =
  buf :: "'v list"
  cap :: nat
  closed :: bool
  waiting :: nat
  delivered :: "'v list"

definition make_chan :: "nat \<Rightarrow> 'v chan" where
  "make_chan n = \<lparr>buf = [], cap = n, closed = False, waiting = 0, delivered = []\<rparr>"

text \<open>A send on an open channel can go ahead when a receiver waits or the buffer has room.\<close>

definition can_send :: "'v chan \<Rightarrow> bool" where
  "can_send c \<longleftrightarrow> 0 < waiting c \<or> length (buf c) < cap c"

definition chan_put :: "'v chan \<Rightarrow> 'v \<Rightarrow> 'v chan" where
  "chan_put c x =
     (if 0 < waiting c then c\<lparr>waiting := waiting c - 1, delivered := delivered c @ [x]\<rparr>
      else c\<lparr>buf := buf c @ [x]\<rparr>)"

text \<open>
  A receiver's \<open><-ch\<close>: the oldest value; a zero value at once if the channel is
  closed and drained (nothing is delivered); otherwise the receiver blocks.
\<close>

definition chan_recv :: "'v chan \<Rightarrow> 'v chan" where
  "chan_recv c =
     (case buf c of
        x # xs \<Rightarrow> c\<lparr>buf := xs, delivered := delivered c @ [x]\<rparr>
      | [] \<Rightarrow> if closed c then c else c\<lparr>waiting := Suc (waiting c)\<rparr>)"

text \<open>Taking the oldest value out to throw it away, when the channel is ready for a receive.\<close>

definition chan_drop :: "'v chan \<Rightarrow> 'v chan option" where
  "chan_drop c =
     (case buf c of x # xs \<Rightarrow> Some (c\<lparr>buf := xs\<rparr>) | [] \<Rightarrow> if closed c then Some c else None)"

text \<open>\<open>close\<close>: the blocked receivers are released with a zero value.\<close>

definition chan_close :: "'v chan \<Rightarrow> 'v chan" where
  "chan_close c = c\<lparr>closed := True, waiting := 0\<rparr>"

definition chan_wf :: "'v chan \<Rightarrow> bool" where
  "chan_wf c \<longleftrightarrow> length (buf c) \<le> cap c \<and> (0 < waiting c \<longrightarrow> buf c = [])"

text \<open>
  How a channel may develop while the messages \<open>ms\<close> are sent into it: what the
  receivers get, followed by what is still buffered, is a subsequence of what was buffered
  followed by \<open>ms\<close>, short of at most \<open>n\<close> messages. So nothing is invented, doubled or
  overtaken.
\<close>

definition lossy :: "nat \<Rightarrow> 'v chan \<Rightarrow> 'v list \<Rightarrow> 'v chan \<Rightarrow> bool" where
  "lossy n c ms c' \<longleftrightarrow>
     (\<exists>d. delivered c' = delivered c @ d \<and> subseq (d @ buf c') (buf c @ ms) \<and>
        length (buf c @ ms) \<le> length (d @ buf c') + n)"

lemma lossyI:
  "delivered c' = delivered c @ d \<Longrightarrow> subseq (d @ buf c') (buf c @ ms) \<Longrightarrow>
     length (buf c @ ms) \<le> length (d @ buf c') + n \<Longrightarrow> lossy n c ms c'"
  unfolding lossy_def by blast

lemma lossy_refl [inv_intros]: "lossy 0 c [] c"
  by (rule lossyI [of _ _ "[]"]) auto

lemma lossy_mono: "lossy n c ms c' \<Longrightarrow> n \<le> k \<Longrightarrow> lossy k c ms c'"
  unfolding lossy_def by auto

lemma lossy_trans:
  assumes "lossy n c ms c'" and "lossy k c' ms' c''"
  shows "lossy (n + k) c (ms @ ms') c''"
proof -
  from assms obtain d d' where
    d: "delivered c' = delivered c @ d" "subseq (d @ buf c') (buf c @ ms)"
      "length (buf c @ ms) \<le> length (d @ buf c') + n"
    and d': "delivered c'' = delivered c' @ d'" "subseq (d' @ buf c'') (buf c' @ ms')"
      "length (buf c' @ ms') \<le> length (d' @ buf c'') + k"
    unfolding lossy_def by blast
  have "subseq (d @ d' @ buf c'') (d @ buf c' @ ms')"
    using d'(2) by (rule list_emb_append_mono [rotated]) simp
  moreover have "subseq ((d @ buf c') @ ms') ((buf c @ ms) @ ms')"
    using d(2) by (rule list_emb_append_mono) simp
  ultimately have "subseq ((d @ d') @ buf c'') (buf c @ ms @ ms')"
    using subseq_order.trans by fastforce
  with d d' show ?thesis by (intro lossyI [of _ _ "d @ d'"]) auto
qed

lemma lossy_lose: "lossy n c ms c' \<Longrightarrow> lossy (Suc n) c (ms @ [x]) c'"
  unfolding lossy_def using subseq_rev_drop_many [of _ _ "[x]"] by fastforce

text \<open>The operations of a channel in these terms.\<close>

lemma make_chan_wf [inv_intros]: "chan_wf (make_chan n)"
  by (simp add: chan_wf_def make_chan_def)

lemma chan_put_wf [inv_intros]: "chan_wf c \<Longrightarrow> can_send c \<Longrightarrow> chan_wf (chan_put c x)"
  by (auto simp: chan_wf_def can_send_def chan_put_def)

lemma chan_put_lossy: "chan_wf c \<Longrightarrow> lossy 0 c [x] (chan_put c x)"
  by (cases "0 < waiting c")
    (auto simp: chan_put_def chan_wf_def intro: lossyI [of _ _ "[x]"] lossyI [of _ _ "[]"])

lemma chan_recv_wf [inv_intros]: "chan_wf c \<Longrightarrow> chan_wf (chan_recv c)"
  by (auto simp: chan_wf_def chan_recv_def split: list.split)

lemma chan_recv_lossy: "lossy 0 c [] (chan_recv c)"
proof (cases "buf c")
  case Nil
  then show ?thesis by (auto simp: chan_recv_def intro: lossyI [of _ _ "[]"])
next
  case (Cons x xs)
  then show ?thesis by (auto simp: chan_recv_def intro: lossyI [of _ _ "[x]"])
qed

lemma chan_drop_wf [inv_intros]: "chan_wf c \<Longrightarrow> chan_drop c = Some c' \<Longrightarrow> chan_wf c'"
  by (auto simp: chan_wf_def chan_drop_def split: list.splits if_splits)

lemma chan_drop_lossy: "chan_drop c = Some c' \<Longrightarrow> lossy 1 c [] c'"
  by (rule lossyI [of _ _ "[]"])
    (auto simp: chan_drop_def split: list.splits if_splits)

lemma chan_drop_makes_room:
  "chan_wf c \<Longrightarrow> \<not> closed c \<Longrightarrow> chan_drop c = Some c' \<Longrightarrow> length (buf c') < cap c'"
  by (auto simp: chan_wf_def chan_drop_def split: list.splits if_splits)

lemma chan_close_wf [inv_intros]: "chan_wf c \<Longrightarrow> chan_wf (chan_close c)"
  by (simp add: chan_wf_def chan_close_def)

lemma chan_frame [simp, chan_laws]:
  "cap (chan_put c x) = cap c" "closed (chan_put c x) = closed c"
  "cap (chan_recv c) = cap c" "closed (chan_recv c) = closed c"
  "cap (chan_close c) = cap c" "closed (chan_close c)"
  "buf (chan_close c) = buf c" "delivered (chan_close c) = delivered c"
  by (auto simp: chan_put_def chan_recv_def chan_close_def split: list.split)

lemma chan_drop_frame [chan_laws]:
  "chan_drop c = Some c' \<Longrightarrow> cap c' = cap c \<and> closed c' = closed c"
  by (auto simp: chan_drop_def split: list.splits if_splits)

text \<open>Several receives of the consumer in a row.\<close>

fun receives :: "nat \<Rightarrow> 'v chan \<Rightarrow> 'v chan" where
  "receives 0 c = c"
| "receives (Suc n) c = receives n (chan_recv c)"

lemma receives_frame [simp, chan_laws]:
  "cap (receives n c) = cap c" "closed (receives n c) = closed c"
  by (induction n c rule: receives.induct) auto

lemma receives_wf [inv_intros]: "chan_wf c \<Longrightarrow> chan_wf (receives n c)"
  by (induction n c rule: receives.induct) (auto intro: chan_recv_wf)

lemma receives_lossy: "lossy 0 c [] (receives n c)"
proof (induction n c rule: receives.induct)
  case (2 n c)
  from lossy_trans [OF chan_recv_lossy 2] show ?case by simp
qed (simp add: lossy_refl)

lemma receives_room: "length (buf c) < cap c \<Longrightarrow> length (buf (receives n c)) < cap c"
  by (induction n c rule: receives.induct) (auto simp: chan_recv_def split: list.splits)

lemma receives_empty: "buf c = [] \<Longrightarrow> buf (receives n c) = []"
  by (induction n c rule: receives.induct) (auto simp: chan_recv_def)

lemma receives_all: "length (buf c) \<le> n \<Longrightarrow> buf (receives n c) = []"
  by (induction n c rule: receives.induct) (auto simp: chan_recv_def split: list.splits)

end
