(* ===== verification/Rx_BufferPolicy.thy ===== *)
theory Rx_BufferPolicy
  imports Rx_Channel
begin

section \<open>Buffer policies (intracom/buffer\_policy.go)\<close>

text \<open>
  A policy's \<open>Handle\<close> runs in the broadcaster's goroutine and pushes a message into one
  subscriber's channel by a sequence of \<open>select\<close> statements, while the subscriber
  receives from the channel at its own pace. What \<open>Handle\<close> does not decide is an
  observation for each \<open>select\<close> it executes (the \<open>i\<close>-th from 0): whether
  \<open>stopC\<close> is closed by then, how many receives the consumer made since the previous
  one, whether the timer has fired, and which of the ready cases Go picks. A
  \<open>select\<close> without a default whose cases are never ready makes \<open>Handle\<close> hang. The
  theorems hold for all observations.
\<close>

record obs =
  o_stopped :: bool
  o_receives :: nat
  o_fired :: bool
  o_pick :: nat

text \<open>
  \<open>Ret e c\<close>: \<open>Handle\<close> returns the error \<open>e\<close> (nil is \<open>None\<close>) and leaves the
  channel as \<open>c\<close>. \<open>Hang c\<close>: it never returns. \<open>PanicAt c\<close>: it panics.
\<close>

datatype 'v hres = Ret "string option" "'v chan" | Hang "'v chan" | PanicAt "'v chan"

fun res_chan :: "'v hres \<Rightarrow> 'v chan" where
  "res_chan (Ret e c) = c"
| "res_chan (Hang c) = c"
| "res_chan (PanicAt c) = c"

text \<open>
  The cases of a \<open>select\<close> that are ready. A case either ends \<open>Handle\<close>
  (\<open>Inl\<close>) or lets it go on with the channel (\<open>Inr\<close>). A send on a closed channel
  is ready and panics.
\<close>

type_synonym 'v scase = "'v hres + 'v chan"

definition case_stop :: "obs \<Rightarrow> 'v chan \<Rightarrow> 'v scase list" where
  "case_stop ob c = (if o_stopped ob then [Inl (Ret (Some ''subscriber stopped'') c)] else [])"

definition case_send :: "'v chan \<Rightarrow> 'v \<Rightarrow> 'v scase list" where
  "case_send c x =
     (if closed c then [Inl (PanicAt c)]
      else if can_send c then [Inl (Ret None (chan_put c x))] else [])"

definition case_drop :: "'v chan \<Rightarrow> 'v scase list" where
  "case_drop c = (case chan_drop c of Some c' \<Rightarrow> [Inr c'] | None \<Rightarrow> [])"

definition case_timer :: "obs \<Rightarrow> 'v scase \<Rightarrow> 'v scase list" where
  "case_timer ob r = (if o_fired ob then [r] else [])"

text \<open>
  A \<open>select\<close>: one of the ready cases, or the default; without a default it hangs.
\<close>

definition select_or :: "obs \<Rightarrow> 'v scase list \<Rightarrow> 'v scase \<Rightarrow> 'v scase" where
  "select_or ob ready dflt =
     (if ready = [] then dflt else ready ! (o_pick ob mod length ready))"

fun and_then :: "'v scase \<Rightarrow> ('v chan \<Rightarrow> 'v hres) \<Rightarrow> 'v hres" where
  "and_then (Inl r) k = r"
| "and_then (Inr c) k = k c"

subsection \<open>The five policies\<close>

definition handle_DropNone :: "(nat \<Rightarrow> obs) \<Rightarrow> 'v chan \<Rightarrow> 'v \<Rightarrow> 'v hres" where
  "handle_DropNone ob c0 x =
     (let c = receives (o_receives (ob 0)) c0 in
      and_then (select_or (ob 0) (case_stop (ob 0) c @ case_send c x) (Inl (Hang c))) Hang)"

definition handle_DropOldest :: "(nat \<Rightarrow> obs) \<Rightarrow> 'v chan \<Rightarrow> 'v \<Rightarrow> 'v hres" where
  "handle_DropOldest ob c0 x =
     (let c = receives (o_receives (ob 0)) c0 in
      and_then (select_or (ob 0) (case_stop (ob 0) c @ case_drop c) (Inr c))
        (\<lambda>c1. let c = receives (o_receives (ob 1)) c1 in
           and_then
             (select_or (ob 1) (case_stop (ob 1) c @ case_send c x)
               (Inl (Ret (Some ''buffer full, failed to push message'') c)))
             Hang))"

text \<open>
  The two policies with a timer take whether \<open>Timer\<close> is set: \<open>Timer.Reset\<close> on a nil
  timer panics. After the first \<open>select\<close> the timer is reset to the policy's own
  time-out.
\<close>

definition handle_DropOldestAfterTimeout ::
  "bool \<Rightarrow> (nat \<Rightarrow> obs) \<Rightarrow> 'v chan \<Rightarrow> 'v \<Rightarrow> 'v hres" where
  "handle_DropOldestAfterTimeout timer ob c0 x =
     (let c = receives (o_receives (ob 0)) c0 in
      and_then (select_or (ob 0) (case_stop (ob 0) c @ case_send c x) (Inr c))
        (\<lambda>c1. if \<not> timer then PanicAt c1 else
           (let c = receives (o_receives (ob 1)) c1 in
            and_then
              (select_or (ob 1) (case_stop (ob 1) c @ case_send c x @ case_timer (ob 1) (Inr c))
                (Inl (Hang c)))
              (\<lambda>c2. let c = receives (o_receives (ob 2)) c2 in
                 and_then (select_or (ob 2) (case_stop (ob 2) c @ case_drop c) (Inl (Hang c)))
                   (\<lambda>c3. let c = receives (o_receives (ob 3)) c3 in
                      and_then
                        (select_or (ob 3) (case_stop (ob 3) c @ case_send c x)
                          (Inl (Ret (Some ''timeout exceeded, failed to push message'') c)))
                        Hang)))))"

definition handle_DropNewest :: "(nat \<Rightarrow> obs) \<Rightarrow> 'v chan \<Rightarrow> 'v \<Rightarrow> 'v hres" where
  "handle_DropNewest ob c0 x =
     (let c = receives (o_receives (ob 0)) c0 in
      and_then
        (select_or (ob 0) (case_stop (ob 0) c @ case_send c x) (Inl (Ret None c))) Hang)"

definition handle_DropNewestAfterTimeout ::
  "bool \<Rightarrow> (nat \<Rightarrow> obs) \<Rightarrow> 'v chan \<Rightarrow> 'v \<Rightarrow> 'v hres" where
  "handle_DropNewestAfterTimeout timer ob c0 x =
     (let c = receives (o_receives (ob 0)) c0 in
      and_then (select_or (ob 0) (case_stop (ob 0) c @ case_send c x) (Inr c))
        (\<lambda>c1. if \<not> timer then PanicAt c1 else
           (let c = receives (o_receives (ob 1)) c1 in
            and_then
              (select_or (ob 1)
                (case_stop (ob 1) c @ case_send c x @ case_timer (ob 1) (Inl (Ret None c)))
                (Inl (Hang c)))
              Hang)))"

text \<open>The policy values a subscriber may be configured with.\<close>

datatype BufferPolicy =
    BufferPolicyDropNone
  | BufferPolicyDropOldest
  | BufferPolicyDropOldestAfterTimeout bool duration
  | BufferPolicyDropNewest
  | BufferPolicyDropNewestAfterTimeout bool duration

fun Handle :: "BufferPolicy \<Rightarrow> (nat \<Rightarrow> obs) \<Rightarrow> 'v chan \<Rightarrow> 'v \<Rightarrow> 'v hres" where
  "Handle BufferPolicyDropNone = handle_DropNone"
| "Handle BufferPolicyDropOldest = handle_DropOldest"
| "Handle (BufferPolicyDropOldestAfterTimeout timer d) = handle_DropOldestAfterTimeout timer"
| "Handle BufferPolicyDropNewest = handle_DropNewest"
| "Handle (BufferPolicyDropNewestAfterTimeout timer d) = handle_DropNewestAfterTimeout timer"

text \<open>A policy is ready for use when its timer, if it has one, is set.\<close>

fun policy_ready :: "BufferPolicy \<Rightarrow> bool" where
  "policy_ready (BufferPolicyDropOldestAfterTimeout timer d) = timer"
| "policy_ready (BufferPolicyDropNewestAfterTimeout timer d) = timer"
| "policy_ready _ = True"

subsection \<open>The contract of a policy\<close>

text \<open>
  What the broadcaster may expect of a policy, whatever the observations: on an open,
  well-formed channel it leaves a well-formed, open channel of the same capacity; the
  channel develops without inventing, doubling or reordering messages; at most the new
  message and one old one are lost, and at most one message while the subscriber is not
  stopped; and it does not panic.
\<close>

definition chan_ok :: "'v chan \<Rightarrow> bool" where
  "chan_ok c \<longleftrightarrow> chan_wf c \<and> \<not> closed c"

definition steps_to :: "nat \<Rightarrow> 'v chan \<Rightarrow> 'v list \<Rightarrow> 'v chan \<Rightarrow> bool" where
  "steps_to n c ms c' \<longleftrightarrow> chan_ok c' \<and> cap c' = cap c \<and> lossy n c ms c'"

lemma steps_toD: "steps_to n c ms c' \<Longrightarrow> chan_ok c' \<and> cap c' = cap c \<and> lossy n c ms c'"
  by (simp add: steps_to_def)

lemma steps_refl [inv_intros]: "chan_ok c \<Longrightarrow> steps_to 0 c [] c"
  by (simp add: steps_to_def lossy_refl)

lemma steps_trans: "steps_to n c ms c' \<Longrightarrow> steps_to k c' ms' c'' \<Longrightarrow> steps_to (n + k) c (ms @ ms') c''"
  unfolding steps_to_def using lossy_trans by fastforce

lemma steps_receives: "chan_ok c \<Longrightarrow> steps_to 0 c [] (receives n c)"
  by (simp add: steps_to_def chan_ok_def receives_wf receives_lossy)

lemma steps_put: "chan_ok c \<Longrightarrow> can_send c \<Longrightarrow> steps_to 0 c [x] (chan_put c x)"
  by (simp add: steps_to_def chan_ok_def chan_put_wf chan_put_lossy)

lemma steps_drop: "chan_ok c \<Longrightarrow> chan_drop c = Some c' \<Longrightarrow> steps_to 1 c [] c'"
  using chan_drop_lossy chan_drop_frame chan_drop_wf
  unfolding steps_to_def chan_ok_def by blast

lemma steps_lose: "steps_to n c [] c' \<Longrightarrow> steps_to (Suc n) c [x] c'"
  unfolding steps_to_def using lossy_lose [of n c "[]"] by fastforce

lemma steps_mono: "steps_to n c ms c' \<Longrightarrow> n \<le> k \<Longrightarrow> steps_to k c ms c'"
  unfolding steps_to_def using lossy_mono by blast

locale buffer_policy =
  fixes handle :: "'p \<Rightarrow> (nat \<Rightarrow> obs) \<Rightarrow> 'v chan \<Rightarrow> 'v \<Rightarrow> 'v hres"
    and ready :: "'p \<Rightarrow> bool"
  assumes handle_steps: "chan_ok c \<Longrightarrow> ready p \<Longrightarrow> steps_to 2 c [x] (res_chan (handle p ob c x))"
    and handle_running: "chan_ok c \<Longrightarrow> ready p \<Longrightarrow> (\<And>i. \<not> o_stopped (ob i)) \<Longrightarrow>
      steps_to 1 c [x] (res_chan (handle p ob c x))"
    and handle_no_panic: "chan_ok c \<Longrightarrow> ready p \<Longrightarrow> handle p ob c x \<noteq> PanicAt c'"

subsection \<open>What a select can do\<close>

lemma select_or_cases:
  assumes "select_or ob ready dflt = s"
  obtains "s \<in> set ready" | "ready = []" and "s = dflt"
  using assms by (auto simp: select_or_def split: if_splits)

text \<open>A \<open>select\<close> on stopping and sending, and one on stopping and dropping.\<close>

lemma select_send:
  assumes "\<not> closed c" and "select_or ob (case_stop ob c @ case_send c x) dflt = s"
  obtains "o_stopped ob" and "s = Inl (Ret (Some ''subscriber stopped'') c)"
  | "can_send c" and "s = Inl (Ret None (chan_put c x))"
  | "\<not> can_send c" and "\<not> o_stopped ob" and "s = dflt"
  using assms(2)
  by (rule select_or_cases) (use assms(1) that in \<open>auto simp: case_stop_def case_send_def split: if_splits\<close>)

lemma select_send_timer:
  assumes "\<not> closed c"
    and "select_or ob (case_stop ob c @ case_send c x @ case_timer ob r) dflt = s"
  obtains "o_stopped ob" and "s = Inl (Ret (Some ''subscriber stopped'') c)"
  | "can_send c" and "s = Inl (Ret None (chan_put c x))"
  | "o_fired ob" and "s = r"
  | "\<not> can_send c" and "\<not> o_stopped ob" and "\<not> o_fired ob" and "s = dflt"
  using assms(2)
  by (rule select_or_cases)
    (use assms(1) that in \<open>auto simp: case_stop_def case_send_def case_timer_def split: if_splits\<close>)

lemma select_drop:
  assumes "select_or ob (case_stop ob c @ case_drop c) dflt = s"
  obtains "o_stopped ob" and "s = Inl (Ret (Some ''subscriber stopped'') c)"
  | c' where "chan_drop c = Some c'" and "s = Inr c'"
  | "chan_drop c = None" and "\<not> o_stopped ob" and "s = dflt"
  using assms
proof (rule select_or_cases)
  assume "s \<in> set (case_stop ob c @ case_drop c)"
  then show thesis using that
    by (cases "chan_drop c") (auto simp: case_stop_def case_drop_def split: if_splits)
next
  assume "case_stop ob c @ case_drop c = []" and "s = dflt"
  then show thesis using that
    by (cases "chan_drop c") (auto simp: case_stop_def case_drop_def split: if_splits)
qed

text \<open>
  The contract for one call: \<open>n\<close> messages lost at most, and no panic. The bound is 2 if
  the subscriber may be stopped meanwhile and 1 otherwise.
\<close>

definition keeps :: "nat \<Rightarrow> 'v chan \<Rightarrow> 'v \<Rightarrow> 'v hres \<Rightarrow> bool" where
  "keeps n c x h \<longleftrightarrow> steps_to n c [x] (res_chan h) \<and> (\<forall>c'. h \<noteq> PanicAt c')"

definition loss_bound :: "(nat \<Rightarrow> obs) \<Rightarrow> nat" where
  "loss_bound ob = (if \<exists>i. o_stopped (ob i) then 2 else 1)"

lemma loss_bound_stopped: "o_stopped (ob i) \<Longrightarrow> loss_bound ob = 2"
  by (auto simp: loss_bound_def)

lemma loss_bound_pos: "1 \<le> loss_bound ob"
  by (simp add: loss_bound_def)

text \<open>The last step of a call, from a channel that \<open>k\<close> losses led to.\<close>

lemma keeps_stop:
  "steps_to k c0 [] c \<Longrightarrow> k \<le> 1 \<Longrightarrow> o_stopped (ob i) \<Longrightarrow> keeps (loss_bound ob) c0 x (Ret e c)"
  by (auto simp: keeps_def loss_bound_stopped intro: steps_mono [OF steps_lose])

lemma keeps_send:
  "steps_to k c0 [] c \<Longrightarrow> k \<le> 1 \<Longrightarrow> can_send c \<Longrightarrow> keeps (loss_bound ob) c0 x (Ret e (chan_put c x))"
  using steps_trans [of k c0 "[]" c 0 "[x]"] steps_put [of c x] loss_bound_pos [of ob]
  by (auto simp: keeps_def dest: steps_toD intro: steps_mono)

lemma keeps_give_up:
  "steps_to 0 c0 [] c \<Longrightarrow> keeps (loss_bound ob) c0 x (Ret e c)"
  "steps_to 0 c0 [] c \<Longrightarrow> keeps (loss_bound ob) c0 x (Hang c)"
  using loss_bound_pos [of ob] by (auto simp: keeps_def intro: steps_mono [OF steps_lose])

lemma steps_more_receives: "steps_to k c0 [] c \<Longrightarrow> steps_to k c0 [] (receives n c)"
  using steps_trans [of k c0 "[]" c 0 "[]"] steps_receives steps_toD by fastforce

lemma steps_open: "steps_to k c0 ms c \<Longrightarrow> \<not> closed c"
  by (simp add: steps_to_def chan_ok_def)

lemma room_can_send: "length (buf c) < cap c \<Longrightarrow> can_send (receives n c)"
  using receives_room [of c n] by (auto simp: can_send_def)

text \<open>After a drop there is room, so the push that follows cannot fail.\<close>

lemma keeps_push_after_drop:
  assumes "steps_to 0 c0 [] c" and "chan_drop c = Some c1"
  shows "keeps (loss_bound ob) c0 x
    (and_then (select_or (ob i) (case_stop (ob i) (receives n c1) @ case_send (receives n c1) x) (Inl h)) k)"
    (is "keeps _ _ _ (and_then ?s _)")
proof -
  have c1: "steps_to 1 c0 [] c1"
    using steps_trans [OF assms(1) steps_drop [OF _ assms(2)]] steps_toD [OF assms(1)] by simp
  note c2 = steps_more_receives [OF c1, of n]
  have "can_send (receives n c1)"
    using chan_drop_makes_room [OF _ _ assms(2)] steps_toD [OF assms(1)]
    by (auto simp: chan_ok_def intro: room_can_send)
  then show ?thesis
    by (rule_tac select_send [OF steps_open [OF c2], of "ob i" x "Inl h" ?s])
      (auto intro: keeps_stop [OF c2] keeps_send [OF c2])
qed

subsection \<open>The five policies keep the contract\<close>

lemma DropNone_keeps:
  assumes "chan_ok c0"
  shows "keeps (loss_bound ob) c0 x (handle_DropNone ob c0 x)"
proof -
  note c = steps_receives [OF assms, of "o_receives (ob 0)"]
  show ?thesis
    unfolding handle_DropNone_def Let_def
    by (rule select_send [OF steps_open [OF c] refl, of "ob 0" x "Inl (Hang (receives (o_receives (ob 0)) c0))"])
      (simp_all add: keeps_stop [OF c] keeps_send [OF c] keeps_give_up [OF c])
qed

lemma DropNewest_keeps:
  assumes "chan_ok c0"
  shows "keeps (loss_bound ob) c0 x (handle_DropNewest ob c0 x)"
proof -
  note c = steps_receives [OF assms, of "o_receives (ob 0)"]
  show ?thesis
    unfolding handle_DropNewest_def Let_def
    by (rule select_send [OF steps_open [OF c] refl, of "ob 0" x "Inl (Ret None (receives (o_receives (ob 0)) c0))"])
      (simp_all add: keeps_stop [OF c] keeps_send [OF c] keeps_give_up [OF c])
qed

lemma DropOldest_keeps:
  assumes "chan_ok c0"
  shows "keeps (loss_bound ob) c0 x (handle_DropOldest ob c0 x)"
proof -
  let ?c = "receives (o_receives (ob 0)) c0"
  note c = steps_receives [OF assms, of "o_receives (ob 0)"]
  show ?thesis
  proof (rule select_drop [OF refl, of "ob 0" ?c "Inr ?c"], goal_cases)
    case 1
    then show ?case by (simp add: handle_DropOldest_def Let_def keeps_stop [OF c])
  next
    case (2 c')
    show ?case
      unfolding handle_DropOldest_def Let_def 2(2)
      using keeps_push_after_drop [OF c 2(1), of ob x 1] by simp
  next
    case 3
    let ?c' = "receives (o_receives (ob 1)) ?c"
    note c' = steps_more_receives [OF c, of "o_receives (ob 1)"]
    show ?case
      unfolding handle_DropOldest_def Let_def 3(3)
      by (rule select_send [OF steps_open [OF c'] refl, of "ob 1" x
            "Inl (Ret (Some ''buffer full, failed to push message'') ?c')"])
        (simp_all add: keeps_stop [OF c'] keeps_send [OF c'] keeps_give_up [OF c'] del: One_nat_def)
  qed
qed

lemma DropNewestAfterTimeout_keeps:
  assumes "chan_ok c0"
  shows "keeps (loss_bound ob) c0 x (handle_DropNewestAfterTimeout True ob c0 x)"
proof -
  let ?c = "receives (o_receives (ob 0)) c0"
  let ?c' = "receives (o_receives (ob 1)) ?c"
  note c = steps_receives [OF assms, of "o_receives (ob 0)"]
  note c' = steps_more_receives [OF c, of "o_receives (ob 1)"]
  have second: "keeps (loss_bound ob) c0 x (and_then
      (select_or (ob 1) (case_stop (ob 1) ?c' @ case_send ?c' x @ case_timer (ob 1) (Inl (Ret None ?c')))
        (Inl (Hang ?c'))) Hang)"
    by (rule select_send_timer [OF steps_open [OF c'] refl, of "ob 1" x "Inl (Ret None ?c')" "Inl (Hang ?c')"])
      (simp_all add: keeps_stop [OF c'] keeps_send [OF c'] keeps_give_up [OF c'] del: One_nat_def)
  show ?thesis
    unfolding handle_DropNewestAfterTimeout_def Let_def
    by (rule select_send [OF steps_open [OF c] refl, of "ob 0" x "Inr ?c"])
      (use second in \<open>simp_all add: keeps_stop [OF c] keeps_send [OF c] Let_def del: One_nat_def\<close>)
qed

lemma DropOldestAfterTimeout_keeps:
  assumes "chan_ok c0"
  shows "keeps (loss_bound ob) c0 x (handle_DropOldestAfterTimeout True ob c0 x)"
proof -
  let ?c = "receives (o_receives (ob 0)) c0"
  let ?c' = "receives (o_receives (ob 1)) ?c"
  let ?d = "receives (o_receives (ob 2)) ?c'"
  note c = steps_receives [OF assms, of "o_receives (ob 0)"]
  note c' = steps_more_receives [OF c, of "o_receives (ob 1)"]
  note d = steps_more_receives [OF c', of "o_receives (ob 2)"]
  let ?last = "\<lambda>c3. let c = receives (o_receives (ob 3)) c3 in
      and_then (select_or (ob 3) (case_stop (ob 3) c @ case_send c x)
        (Inl (Ret (Some ''timeout exceeded, failed to push message'') c))) Hang"
  have third: "keeps (loss_bound ob) c0 x
      (and_then (select_or (ob 2) (case_stop (ob 2) ?d @ case_drop ?d) (Inl (Hang ?d))) ?last)"
    by (rule select_drop [OF refl, of "ob 2" ?d "Inl (Hang ?d)"])
      (use keeps_push_after_drop [OF d, of _ ob x 3] in
        \<open>simp_all add: keeps_stop [OF d] keeps_give_up [OF d] Let_def del: One_nat_def\<close>)
  have second: "keeps (loss_bound ob) c0 x (and_then
      (select_or (ob 1) (case_stop (ob 1) ?c' @ case_send ?c' x @ case_timer (ob 1) (Inr ?c'))
        (Inl (Hang ?c')))
      (\<lambda>c2. let c = receives (o_receives (ob 2)) c2 in
         and_then (select_or (ob 2) (case_stop (ob 2) c @ case_drop c) (Inl (Hang c))) ?last))"
    by (rule select_send_timer [OF steps_open [OF c'] refl, of "ob 1" x "Inr ?c'" "Inl (Hang ?c')"])
      (use third in \<open>simp_all add: keeps_stop [OF c'] keeps_send [OF c'] keeps_give_up [OF c'] Let_def del: One_nat_def\<close>)
  show ?thesis
    unfolding handle_DropOldestAfterTimeout_def Let_def
    by (rule select_send [OF steps_open [OF c] refl, of "ob 0" x "Inr ?c"])
      (use second in \<open>simp_all add: keeps_stop [OF c] keeps_send [OF c] Let_def del: One_nat_def\<close>)
qed

lemma Handle_keeps:
  "chan_ok c \<Longrightarrow> policy_ready p \<Longrightarrow> keeps (loss_bound ob) c x (Handle p ob c x)"
  by (cases p)
    (simp_all add: DropNone_keeps DropOldest_keeps DropNewest_keeps DropOldestAfterTimeout_keeps
      DropNewestAfterTimeout_keeps)

interpretation policies: buffer_policy Handle policy_ready
proof
  fix c :: "'v chan" and p ob x c'
  assume "chan_ok c" "policy_ready p"
  then have k: "keeps (loss_bound ob) c x (Handle p ob c x)" by (rule Handle_keeps)
  have "loss_bound ob \<le> 2" by (simp add: loss_bound_def)
  with k show "steps_to 2 c [x] (res_chan (Handle p ob c x))"
    by (auto simp: keeps_def intro: steps_mono)
  from k show "Handle p ob c x \<noteq> PanicAt c'" by (auto simp: keeps_def)
  assume "\<And>i. \<not> o_stopped (ob i)"
  then have "loss_bound ob = 1" by (simp add: loss_bound_def)
  with k show "steps_to 1 c [x] (res_chan (Handle p ob c x))" by (simp add: keeps_def)
qed

subsection \<open>Properties of the policies\<close>

text \<open>
  C23: every policy keeps a subscriber's stream in order. Whatever the receiver, the timer
  and the scheduler do, \<open>Handle\<close> on an open channel returns or hangs (it does not
  panic) with the channel open and within its capacity; what the receiver got and what is
  buffered is the old content followed by the new message, in that order and without
  repetition, short of at most two messages, and at most one if the subscriber is not
  being stopped.
\<close>

theorem policies_keep_order:
  assumes "chan_ok c" and "policy_ready p" and "Handle p ob c x = h"
  shows "(\<forall>c'. h \<noteq> PanicAt c') \<and> chan_ok (res_chan h) \<and> cap (res_chan h) = cap c \<and>
    lossy (if \<exists>i. o_stopped (ob i) then 2 else 1) c [x] (res_chan h)"
proof -
  have "h \<noteq> PanicAt c'" for c'
    using policies.handle_no_panic [OF assms(1,2)] assms(3) by metis
  moreover have "steps_to (if \<exists>i. o_stopped (ob i) then 2 else 1) c [x] (res_chan h)"
    using policies.handle_steps [OF assms(1,2), of x ob]
      policies.handle_running [OF assms(1,2), of ob x] assms(3) by auto
  ultimately show ?thesis using steps_toD by blast
qed

definition calm :: obs where
  "calm = \<lparr>o_stopped = False, o_receives = 0, o_fired = False, o_pick = 0\<rparr>"

theorem policies_keep_order_witness:
  "Handle BufferPolicyDropOldest (\<lambda>_. calm) (chan_put (make_chan 1) ''a'') ''b'' =
     Ret None (chan_put (make_chan 1) ''b'') \<and>
   lossy 1 (chan_put (make_chan 1) ''a'') [''b''] (chan_put (make_chan 1) ''b'')"
proof -
  let ?c = "chan_put (make_chan 1) ''a''"
  have h: "Handle BufferPolicyDropOldest (\<lambda>_. calm) ?c ''b'' = Ret None (chan_put (make_chan 1) ''b'')"
    by (simp add: handle_DropOldest_def calm_def case_stop_def case_drop_def case_send_def
        select_or_def chan_drop_def can_send_def chan_put_def make_chan_def)
  have "chan_ok ?c" by (simp add: chan_ok_def chan_wf_def chan_put_def make_chan_def)
  from policies_keep_order [OF this _ h] h show ?thesis by (simp add: calm_def)
qed

lemma hist_put: "delivered (chan_put c x) @ buf (chan_put c x) =
    (if 0 < waiting c then delivered c @ x # buf c else delivered c @ buf c @ [x])"
  by (simp add: chan_put_def)

lemma hist_put_last:
  "chan_wf c \<Longrightarrow> delivered (chan_put c x) @ buf (chan_put c x) \<noteq> [] \<and>
     last (delivered (chan_put c x) @ buf (chan_put c x)) = x"
  by (auto simp: hist_put chan_wf_def simp del: last_append append_is_Nil_conv)

lemma drop_oldest_pushes:
  assumes "chan_ok c" and "\<And>i. \<not> o_stopped (ob i)"
  shows "\<exists>e c'. handle_DropOldest ob c x = Ret e c' \<and>
    (if 0 < cap c then e = None \<and> delivered c' @ buf c' \<noteq> [] \<and> last (delivered c' @ buf c') = x
     else e = None \<or> buf c' = [])"
proof -
  let ?c = "receives (o_receives (ob 0)) c"
  note c = steps_receives [OF assms(1), of "o_receives (ob 0)"]
  have wf: "chan_wf c1 \<and> \<not> closed c1" if "steps_to n c [] c1" for n c1
    using steps_toD [OF that] by (simp add: chan_ok_def)
  show ?thesis
  proof (rule select_drop [OF refl, of "ob 0" ?c "Inr ?c"], goal_cases)
    case 1
    with assms(2) show ?case by simp
  next
    case (2 c1)
    let ?c1 = "receives (o_receives (ob 1)) c1"
    have c1: "steps_to 1 c [] c1"
      using steps_trans [OF c steps_drop [OF _ 2(1)]] steps_toD [OF c] by simp
    note c1' = steps_more_receives [OF c1, of "o_receives (ob 1)"]
    have room: "can_send ?c1"
      using chan_drop_makes_room [OF _ _ 2(1)] wf [OF c] by (auto intro: room_can_send)
    have "handle_DropOldest ob c x = Ret None (chan_put ?c1 x)"
      unfolding handle_DropOldest_def Let_def 2(2)
      by (rule select_send [OF steps_open [OF c1'] refl, of "ob 1" x
            "Inl (Ret (Some ''buffer full, failed to push message'') ?c1)"])
        (use room assms(2) in \<open>simp_all del: One_nat_def\<close>)
    moreover have "0 < cap c"
      using 2(1) wf [OF c] by (auto simp: chan_drop_def chan_wf_def split: list.splits)
    ultimately show ?case using hist_put_last [of ?c1 x] wf [OF c1']
      by (simp del: One_nat_def last_append append_is_Nil_conv)
  next
    case 3
    let ?c1 = "receives (o_receives (ob 1)) ?c"
    note c1' = steps_more_receives [OF c, of "o_receives (ob 1)"]
    have empty: "buf ?c = []" using 3(1) by (simp add: chan_drop_def split: list.splits)
    then have "cap c = 0 \<or> can_send ?c1"
      using room_can_send [of ?c "o_receives (ob 1)"] by auto
    moreover have "buf ?c1 = []" using empty by (rule receives_empty)
    ultimately show ?case
      unfolding handle_DropOldest_def Let_def 3(3)
      by (rule_tac select_send [OF steps_open [OF c1'] refl, of "ob 1" x
            "Inl (Ret (Some ''buffer full, failed to push message'') ?c1)"])
        (use hist_put_last [of ?c1 x] wf [OF c1'] assms(2) in \<open>auto simp del: One_nat_def last_append append_is_Nil_conv\<close>)
  qed
qed

text \<open>
  \<open>BufferPolicyDropOldest\<close>, the policy of every state watcher, does not block the
  broadcaster: on a subscriber that is not being stopped it always returns. With a buffer
  of at least one place the push succeeds and the new message is the newest one in the
  stream, however the receiver interferes between the drop and the push.
\<close>

theorem drop_oldest_never_blocks:
  assumes "chan_ok c" and "\<And>i. \<not> o_stopped (ob i)"
  shows "\<exists>e c'. handle_DropOldest ob c x = Ret e c' \<and>
    (if 0 < cap c then e = None \<and> last (delivered c' @ buf c') = x else e = None \<or> buf c' = [])"
  using drop_oldest_pushes [where c = c and ob = ob and x = x] assms by (cases "0 < cap c") auto

theorem drop_oldest_never_blocks_witness:
  "chan_ok (make_chan 1 :: string chan) \<and>
   (\<exists>e c'. handle_DropOldest (\<lambda>_. calm) (make_chan 1) ''up'' = Ret e c' \<and> e = None)"
proof -
  have ok: "chan_ok (make_chan 1 :: string chan)"
    by (simp add: chan_ok_def make_chan_wf) (simp add: make_chan_def)
  have "\<not> o_stopped ((\<lambda>_. calm) (i :: nat))" for i by (simp add: calm_def)
  from drop_oldest_never_blocks [OF ok, of "\<lambda>_. calm" "''up''"] this ok
  show ?thesis by (auto simp: make_chan_def)
qed

text \<open>
  \<open>BufferPolicyDropNone\<close> loses nothing and \<open>BufferPolicyDropNewest\<close> never waits.
  On a subscriber that is not being stopped, the first returns only when the message has
  been taken (else it hangs), without an error and with no message lost; the second always
  returns without an error and loses nothing but, when the buffer is full, the new message.
\<close>

theorem drop_none_and_drop_newest:
  assumes "chan_ok c" and "\<And>i. \<not> o_stopped (ob i)"
  shows "(\<exists>c'. (handle_DropNone ob c x = Ret None c' \<and> lossy 0 c [x] c') \<or>
      (handle_DropNone ob c x = Hang c' \<and> \<not> can_send c')) \<and>
    (\<exists>c'. handle_DropNewest ob c x = Ret None c' \<and> (lossy 0 c [x] c' \<or> lossy 0 c [] c' \<and> \<not> can_send c'))"
proof -
  let ?c = "receives (o_receives (ob 0)) c"
  note c = steps_receives [OF assms(1), of "o_receives (ob 0)"]
  have put: "can_send ?c \<Longrightarrow> lossy 0 c [x] (chan_put ?c x)"
    using steps_trans [OF c steps_put [of ?c x]] steps_toD [OF c] by (auto dest: steps_toD)
  have "\<exists>c'. (handle_DropNone ob c x = Ret None c' \<and> lossy 0 c [x] c') \<or>
      (handle_DropNone ob c x = Hang c' \<and> \<not> can_send c')"
    unfolding handle_DropNone_def Let_def
    by (rule select_send [OF steps_open [OF c] refl, of "ob 0" x "Inl (Hang ?c)"])
      (use put assms(2) in auto)
  moreover have "\<exists>c'. handle_DropNewest ob c x = Ret None c' \<and>
      (lossy 0 c [x] c' \<or> lossy 0 c [] c' \<and> \<not> can_send c')"
    unfolding handle_DropNewest_def Let_def
    by (rule select_send [OF steps_open [OF c] refl, of "ob 0" x "Inl (Ret None ?c)"])
      (use put assms(2) steps_toD [OF c] in auto)
  ultimately show ?thesis ..
qed

theorem drop_none_and_drop_newest_witness:
  "chan_ok (chan_put (make_chan 1) ''a'') \<and>
   (\<exists>c'. handle_DropNewest (\<lambda>_. calm) (chan_put (make_chan 1) ''a'') ''b'' = Ret None c' \<and> buf c' = [''a''])"
proof -
  let ?c = "chan_put (make_chan 1) ''a''"
  have ok: "chan_ok ?c" by (simp add: chan_ok_def chan_wf_def chan_put_def make_chan_def)
  have calm: "\<not> o_stopped ((\<lambda>_. calm) (i :: nat))" for i by (simp add: calm_def)
  from drop_none_and_drop_newest [OF ok, of "\<lambda>_. calm" "''b''"] calm obtain c' where
    "handle_DropNewest (\<lambda>_. calm) ?c ''b'' = Ret None c'" by auto
  moreover have "handle_DropNewest (\<lambda>_. calm) ?c ''b'' = Ret None ?c"
    by (simp add: handle_DropNewest_def calm_def case_stop_def case_send_def select_or_def
        can_send_def chan_put_def make_chan_def)
  ultimately show ?thesis using ok by (auto simp: chan_put_def make_chan_def)
qed

text \<open>
  \<open>BufferPolicyDropOldestAfterTimeout\<close> can block for good on an empty buffer. The
  last \<open>select\<close> waits for a message to drop and has neither a send nor a default, so
  if the consumer empties a full buffer after the timer has fired, \<open>Handle\<close> hangs with
  the message unsent although the whole buffer is free.
\<close>

theorem drop_oldest_after_timeout_can_hang:
  assumes "chan_ok c" and "0 < cap c" and "length (buf c) = cap c"
  shows "\<exists>ob c'. (\<forall>i. \<not> o_stopped (ob i)) \<and>
    handle_DropOldestAfterTimeout True ob c x = Hang c' \<and> buf c' = [] \<and> cap c' = cap c"
proof -
  let ?ob = "\<lambda>i :: nat. if i = 1 then calm\<lparr>o_fired := True\<rparr>
      else if i = 2 then calm\<lparr>o_receives := cap c\<rparr> else calm"
  have full: "\<not> can_send c" "\<not> closed c"
    using assms by (auto simp: can_send_def chan_ok_def chan_wf_def)
  have empty: "buf (receives (cap c) c) = []"
    using receives_all [of c "cap c"] assms(3) by simp
  then have "chan_drop (receives (cap c) c) = None" using full by (simp add: chan_drop_def)
  then have "handle_DropOldestAfterTimeout True ?ob c x = Hang (receives (cap c) c)"
    using full by (simp add: handle_DropOldestAfterTimeout_def calm_def case_stop_def case_send_def
        case_timer_def case_drop_def select_or_def)
  moreover have "\<not> o_stopped (?ob i)" for i by (simp add: calm_def)
  ultimately show ?thesis using empty by (intro exI [of _ ?ob]) auto
qed

theorem drop_oldest_after_timeout_can_hang_witness:
  "chan_ok (chan_put (make_chan 1) ''a'') \<and>
   (\<exists>ob c'. handle_DropOldestAfterTimeout True ob (chan_put (make_chan 1) ''a'') ''b'' = Hang c' \<and>
      buf c' = [])"
proof -
  let ?c = "chan_put (make_chan 1) ''a''"
  have ok: "chan_ok ?c" by (simp add: chan_ok_def chan_wf_def chan_put_def make_chan_def)
  from drop_oldest_after_timeout_can_hang [OF ok, of "''b''"] ok
  show ?thesis by (auto simp: chan_put_def make_chan_def)
qed

end
