(* ===== verification/Rx_Subscriber.thy ===== *)
theory Rx_Subscriber
  imports Rx_BufferPolicy
begin

section \<open>Subscribers (intracom/subscriber.go, subscriber\_config.go)\<close>

text \<open>
  A subscriber couples a channel with the policy that pushes messages into it. Its
  \<open>stopC\<close> is only ever closed, so it is a flag, as is \<open>closed\<close>. A nil policy is
  \<open>None\<close>: in a configuration it asks for the default, in a subscriber a call through
  it panics.
\<close>

record SubscriberConfig =
  ConsumerGroup :: string
  ErrIfExists :: bool
  BufferSize :: int
  conf_BufferPolicy :: "BufferPolicy option"
  conf_DropTimeout :: duration

record 'v subscriber =
  consumerGroup :: string
  bufferSize :: int
  bufferPolicy :: "BufferPolicy option"
  dropTimeout :: duration
  ch :: "'v chan"
  stopC_closed :: bool
  sub_closed :: bool

text \<open>
  The type switch of \<open>newSubscriber\<close>. Each of the two policies with a timer has its
  timer set if it is nil and then stopped. Only in the second of the two cases is the
  policy stored: in the first, \<open>bufferPolicy\<close> keeps its nil value.
\<close>

fun choose_policy :: "BufferPolicy option \<Rightarrow> BufferPolicy option" where
  "choose_policy (Some (BufferPolicyDropOldestAfterTimeout timer d)) = None"
| "choose_policy (Some (BufferPolicyDropNewestAfterTimeout timer d)) =
     Some (BufferPolicyDropNewestAfterTimeout True d)"
| "choose_policy None = Some BufferPolicyDropNone"
| "choose_policy (Some bp) = Some bp"

text \<open>\<open>make(chan T, n)\<close> panics on a negative size.\<close>

definition newSubscriber :: "SubscriberConfig \<Rightarrow> string + 'v subscriber" where
  "newSubscriber conf =
     (if BufferSize conf < 0 then Inl ''makechan: size out of range''
      else Inr
        \<lparr>consumerGroup = ConsumerGroup conf, bufferSize = BufferSize conf,
         bufferPolicy = choose_policy (conf_BufferPolicy conf),
         dropTimeout = conf_DropTimeout conf,
         ch = make_chan (nat (BufferSize conf)), stopC_closed = False, sub_closed = False\<rparr>)"

text \<open>
  What \<open>Handle\<close> observes of \<open>stopC\<close>: the goroutine that calls \<open>Send\<close> is the only
  one that calls \<open>Close\<close>, so it does not change meanwhile.
\<close>

definition with_stop :: "bool \<Rightarrow> (nat \<Rightarrow> obs) \<Rightarrow> nat \<Rightarrow> obs" where
  "with_stop b ob i = (ob i)\<lparr>o_stopped := b\<rparr>"

definition sub_Send :: "(nat \<Rightarrow> obs) \<Rightarrow> 'v subscriber \<Rightarrow> 'v \<Rightarrow> 'v hres" where
  "sub_Send ob s message =
     (if sub_closed s then Ret (Some ''subscriber already closed'') (ch s)
      else case bufferPolicy s of
        None \<Rightarrow> PanicAt (ch s)
      | Some p \<Rightarrow> Handle p (with_stop (stopC_closed s) ob) (ch s) message)"

definition sub_Close :: "'v subscriber \<Rightarrow> string option \<times> 'v subscriber" where
  "sub_Close s =
     (if sub_closed s then (Some ''subscriber already closed'', s)
      else (None, s\<lparr>sub_closed := True, stopC_closed := True, ch := chan_close (ch s)\<rparr>))"

text \<open>
  The invariant of a subscriber: its channel is well-formed, and the channel, \<open>stopC\<close>
  and the flag are closed together. \<open>usable\<close>: its policy can be called.
\<close>

definition sub_inv :: "'v subscriber \<Rightarrow> bool" where
  "sub_inv s \<longleftrightarrow> chan_wf (ch s) \<and> closed (ch s) = sub_closed s \<and> stopC_closed s = sub_closed s \<and>
     (\<forall>p. bufferPolicy s = Some p \<longrightarrow> policy_ready p)"

definition usable :: "'v subscriber \<Rightarrow> bool" where
  "usable s \<longleftrightarrow> bufferPolicy s \<noteq> None"

lemma choose_policy_ready: "choose_policy bp = Some p \<Longrightarrow> policy_ready p"
  by (induction bp rule: choose_policy.induct) auto

lemma newSubscriber_inv [inv_intros]:
  "newSubscriber conf = Inr s \<Longrightarrow> sub_inv s \<and> \<not> sub_closed s"
  by (auto simp: newSubscriber_def sub_inv_def make_chan_wf choose_policy_ready split: if_splits)
    (simp add: make_chan_def)

lemma newSubscriber_fields:
  "newSubscriber conf = Inr s \<Longrightarrow> consumerGroup s = ConsumerGroup conf \<and>
     ch s = make_chan (nat (BufferSize conf)) \<and> bufferPolicy s = choose_policy (conf_BufferPolicy conf)"
  by (auto simp: newSubscriber_def split: if_splits)

lemma newSubscriber_usable:
  "newSubscriber conf = Inr s \<Longrightarrow>
     usable s \<longleftrightarrow> (\<forall>timer d. conf_BufferPolicy conf \<noteq> Some (BufferPolicyDropOldestAfterTimeout timer d))"
  by (cases "conf_BufferPolicy conf" rule: choose_policy.cases)
    (auto simp: usable_def dest!: newSubscriber_fields)

lemma sub_Send_inv [inv_intros]:
  assumes "sub_inv s"
  shows "sub_inv (s\<lparr>ch := res_chan (sub_Send ob s x)\<rparr>)"
proof (cases "sub_closed s")
  case True
  with assms show ?thesis by (simp add: sub_Send_def)
next
  case False
  show ?thesis
  proof (cases "bufferPolicy s")
    case None
    with False assms show ?thesis by (simp add: sub_Send_def)
  next
    case (Some p)
    with False assms have "chan_ok (ch s)" "policy_ready p" by (auto simp: sub_inv_def chan_ok_def)
    from steps_toD [OF policies.handle_steps [OF this, of x "with_stop (stopC_closed s) ob"]]
    show ?thesis using Some False assms by (simp add: sub_Send_def sub_inv_def chan_ok_def)
  qed
qed

lemma sub_Send_lossy:
  assumes "sub_inv s"
  shows "lossy 2 (ch s) [x] (res_chan (sub_Send ob s x))"
proof -
  have drop: "lossy 2 (ch s) [x] (ch s)"
    using lossy_mono [OF lossy_lose [OF lossy_refl], of 2 "ch s" x] by simp
  show ?thesis
  proof (cases "sub_closed s \<or> bufferPolicy s = None")
    case True
    with drop show ?thesis by (auto simp: sub_Send_def)
  next
    case False
    then obtain p where p: "bufferPolicy s = Some p" "\<not> sub_closed s" by auto
    with assms have "chan_ok (ch s)" "policy_ready p" by (auto simp: sub_inv_def chan_ok_def)
    from steps_toD [OF policies.handle_steps [OF this, of x "with_stop (stopC_closed s) ob"]]
    show ?thesis using p by (simp add: sub_Send_def)
  qed
qed

lemma sub_Close_inv [inv_intros]: "sub_inv s \<Longrightarrow> sub_inv (snd (sub_Close s))"
  by (auto simp: sub_inv_def sub_Close_def chan_close_wf)

lemma sub_Close_open:
  "\<not> sub_closed s \<Longrightarrow> fst (sub_Close s) = None \<and> sub_closed (snd (sub_Close s)) \<and>
     closed (ch (snd (sub_Close s)))"
  by (simp add: sub_Close_def)

lemma sub_Close_lossy: "lossy 0 (ch s) [] (ch (snd (sub_Close s)))"
  by (simp add: sub_Close_def lossy_refl) (auto intro: lossyI [of _ _ "[]"])

text \<open>
  A subscriber configured with \<open>BufferPolicyDropOldestAfterTimeout\<close> cannot be sent
  to: \<open>newSubscriber\<close> leaves its policy nil, so the first \<open>Send\<close> panics. With any
  other configuration that \<open>newSubscriber\<close> accepts, \<open>Send\<close> does not panic.
\<close>

theorem send_panics_iff_policy_lost:
  assumes "newSubscriber conf = Inr (s :: 'v subscriber)"
  shows "(\<exists>c'. sub_Send ob s x = PanicAt c') \<longleftrightarrow>
    (\<exists>timer d. conf_BufferPolicy conf = Some (BufferPolicyDropOldestAfterTimeout timer d))"
proof -
  have s: "sub_inv s" "\<not> sub_closed s" using newSubscriber_inv [OF assms] by auto
  show ?thesis
  proof (cases "bufferPolicy s")
    case None
    with s newSubscriber_usable [OF assms] show ?thesis by (auto simp: sub_Send_def usable_def)
  next
    case (Some p)
    with s have "chan_ok (ch s)" "policy_ready p" by (auto simp: sub_inv_def chan_ok_def)
    from policies.handle_no_panic [OF this] Some s newSubscriber_usable [OF assms]
    show ?thesis by (auto simp: sub_Send_def usable_def)
  qed
qed

theorem send_panics_iff_policy_lost_witness:
  "\<exists>s :: string subscriber. newSubscriber
       \<lparr>ConsumerGroup = ''g'', ErrIfExists = True, BufferSize = 1,
        conf_BufferPolicy = Some (BufferPolicyDropOldestAfterTimeout False Second),
        conf_DropTimeout = Second\<rparr> = Inr s \<and>
     (\<exists>c'. sub_Send (\<lambda>_. calm) s ''m'' = PanicAt c')"
proof -
  let ?conf = "\<lparr>ConsumerGroup = ''g'', ErrIfExists = True, BufferSize = 1,
        conf_BufferPolicy = Some (BufferPolicyDropOldestAfterTimeout False Second),
        conf_DropTimeout = Second\<rparr>"
  obtain s :: "string subscriber" where s: "newSubscriber ?conf = Inr s"
    by (simp add: newSubscriber_def)
  from send_panics_iff_policy_lost [OF s, of "\<lambda>_. calm" "''m''"] s show ?thesis by auto
qed

end
