(* ===== verification/Rx_Broadcast.thy ===== *)
theory Rx_Broadcast
  imports Rx_Subscriber
begin

section \<open>The broadcaster of a topic (intracom/broadcast\_sync.go, request.go)\<close>

text \<open>
  \<open>SyncBroadcaster.Broadcast\<close> is one goroutine that owns the subscribers of a topic. Its
  local variables are the fields of the record. The map \<open>subscribers\<close> holds references:
  \<open>store\<close> gives the subscriber each stands for, which lives on (its channel is in the
  consumer's hands) after it has left the map. A subscriber's channel is identified by its
  reference. \<open>recv_on\<close> is whether \<open>recv\<close> is the publish channel and not nil.
  \<open>lastMessage\<close> is \<open>None\<close> until \<open>haveReceived\<close> is set.
\<close>

datatype bstatus = Running | Done | Hung nat | Crashed

record 'v bcast =
  SubscriberAware :: bool
  subscribers :: "string \<rightharpoonup> nat"
  store :: "nat \<rightharpoonup> 'v subscriber"
  next_ref :: nat
  recv_on :: bool
  broadcasting :: bool
  lastMessage :: "'v option"
  status :: bstatus

definition bc_init :: "bool \<Rightarrow> 'v bcast" where
  "bc_init aware =
     \<lparr>SubscriberAware = aware, subscribers = Map.empty, store = Map.empty, next_ref = 0,
      recv_on = \<not> aware, broadcasting = \<not> aware, lastMessage = None, status = Running\<rparr>"

datatype request =
    SubscribeRequest SubscriberConfig
  | UnsubscribeRequest string nat
  | CloseRequest
  | UnknownRequest

datatype response =
    SubscribeResponse nat "string option"
  | UnsubscribeResponse "string option"
  | CloseResponse
  | NoResponse

subsection \<open>Publishing\<close>

text \<open>
  \<open>for _, sub := range subscribers { sub.Send(msg) }\<close> over an order of the consumers.
  An error of a \<open>Send\<close> is passed over. A \<open>Send\<close> that hangs or panics takes the
  goroutine with it; \<open>Hung i\<close> is a wait in vain for the consumer of channel \<open>i\<close>.
\<close>

definition send_to :: "(string \<Rightarrow> nat \<Rightarrow> obs) \<Rightarrow> 'v \<Rightarrow> string \<Rightarrow> 'v bcast \<Rightarrow> 'v bcast" where
  "send_to ob msg n b =
     (case subscribers b n of
        None \<Rightarrow> b
      | Some i \<Rightarrow>
         (case store b i of
            None \<Rightarrow> b
          | Some s \<Rightarrow>
             (let h = sub_Send (ob n) s msg in
              b\<lparr>store := (store b)(i \<mapsto> s\<lparr>ch := res_chan h\<rparr>),
                status := (case h of Ret e c \<Rightarrow> status b | Hang c \<Rightarrow> Hung i | PanicAt c \<Rightarrow> Crashed)\<rparr>)))"

fun send_each ::
  "(string \<Rightarrow> nat \<Rightarrow> obs) \<Rightarrow> 'v \<Rightarrow> string list \<Rightarrow> 'v bcast \<Rightarrow> 'v bcast" where
  "send_each ob msg [] b = b"
| "send_each ob msg (n # ns) b =
     (let b' = send_to ob msg n b
      in if status b' = Running then send_each ob msg ns b' else b')"

definition bc_publish ::
  "(string \<Rightarrow> nat \<Rightarrow> obs) \<Rightarrow> 'v \<Rightarrow> string list \<Rightarrow> 'v bcast \<Rightarrow> 'v bcast" where
  "bc_publish ob msg order b =
     (let b' = send_each ob msg order b
      in if status b' = Running then b'\<lparr>lastMessage := Some msg\<rparr> else b')"

subsection \<open>Requests\<close>

text \<open>
  The last message is offered to a new subscriber with a default: it is not sent if the
  channel is unbuffered.
\<close>

definition offer_last :: "'v option \<Rightarrow> 'v chan \<Rightarrow> 'v chan" where
  "offer_last prev c =
     (case prev of None \<Rightarrow> c | Some m \<Rightarrow> if can_send c then chan_put c m else c)"

definition enable_broadcast :: "'v bcast \<Rightarrow> 'v bcast" where
  "enable_broadcast b =
     (if SubscriberAware b \<and> \<not> broadcasting b \<and> subscribers b \<noteq> Map.empty
      then b\<lparr>recv_on := True, broadcasting := True\<rparr> else b)"

definition disable_broadcast :: "'v bcast \<Rightarrow> 'v bcast" where
  "disable_broadcast b =
     (if SubscriberAware b \<and> broadcasting b \<and> subscribers b = Map.empty
      then b\<lparr>recv_on := False, broadcasting := False\<rparr> else b)"

definition bc_subscribe :: "SubscriberConfig \<Rightarrow> 'v bcast \<Rightarrow> response \<times> 'v bcast" where
  "bc_subscribe conf b =
     (case subscribers b (ConsumerGroup conf) of
        Some i \<Rightarrow>
          if ErrIfExists conf
          then (SubscribeResponse i
                  (Some (''consumer group '' @ [CHR 0x27] @ ConsumerGroup conf @ [CHR 0x27] @
                         '' already exists'')), b)
          else (SubscribeResponse i None, enable_broadcast b)
      | None \<Rightarrow>
          (case newSubscriber conf of
             Inl p \<Rightarrow> (NoResponse, b\<lparr>status := Crashed\<rparr>)
           | Inr s \<Rightarrow>
               (let i = next_ref b
                in (SubscribeResponse i None,
                    enable_broadcast
                      (b\<lparr>subscribers := (subscribers b)(ConsumerGroup conf \<mapsto> i),
                         store := (store b)(i \<mapsto> s\<lparr>ch := offer_last (lastMessage b) (ch s)\<rparr>),
                         next_ref := Suc i\<rparr>)))))"

definition bc_unsubscribe :: "string \<Rightarrow> nat \<Rightarrow> 'v bcast \<Rightarrow> response \<times> 'v bcast" where
  "bc_unsubscribe consumer c b =
     (case subscribers b consumer of
        None \<Rightarrow> (UnsubscribeResponse None, disable_broadcast b)
      | Some i \<Rightarrow>
          if i \<noteq> c
          then (UnsubscribeResponse
                  (Some (''consumer group channel'' @ [CHR 0x27] @ consumer @ [CHR 0x27] @
                         '' does not match'')), b)
          else
            (let b' = b\<lparr>subscribers := (subscribers b)(consumer := None)\<rparr>
             in case store b i of
                  None \<Rightarrow> (UnsubscribeResponse None, disable_broadcast b')
                | Some s \<Rightarrow>
                    (case sub_Close s of
                       (Some e, s') \<Rightarrow> (UnsubscribeResponse (Some e), b'\<lparr>store := (store b)(i \<mapsto> s')\<rparr>)
                     | (None, s') \<Rightarrow>
                         (UnsubscribeResponse None,
                          disable_broadcast (b'\<lparr>store := (store b)(i \<mapsto> s')\<rparr>)))))"

text \<open>\<open>for name, sub := range subscribers { delete(subscribers, name); sub.Close() }\<close>\<close>

definition close_one :: "string \<Rightarrow> 'v bcast \<Rightarrow> 'v bcast" where
  "close_one n b =
     (case subscribers b n of
        None \<Rightarrow> b
      | Some i \<Rightarrow>
         (case store b i of
            None \<Rightarrow> b\<lparr>subscribers := (subscribers b)(n := None)\<rparr>
          | Some s \<Rightarrow>
             b\<lparr>subscribers := (subscribers b)(n := None),
               store := (store b)(i \<mapsto> snd (sub_Close s))\<rparr>))"

fun close_each :: "string list \<Rightarrow> 'v bcast \<Rightarrow> 'v bcast" where
  "close_each [] b = b"
| "close_each (n # ns) b = close_each ns (close_one n b)"

definition bc_close :: "string list \<Rightarrow> 'v bcast \<Rightarrow> response \<times> 'v bcast" where
  "bc_close order b =
     (CloseResponse, close_each order (b\<lparr>recv_on := False, broadcasting := False\<rparr>))"

definition bc_request :: "string list \<Rightarrow> request \<Rightarrow> 'v bcast \<Rightarrow> response \<times> 'v bcast" where
  "bc_request order r b =
     (case r of
        SubscribeRequest conf \<Rightarrow> bc_subscribe conf b
      | UnsubscribeRequest consumer c \<Rightarrow> bc_unsubscribe consumer c b
      | CloseRequest \<Rightarrow> bc_close order b
      | UnknownRequest \<Rightarrow> (NoResponse, b))"

subsection \<open>One turn of the loop\<close>

text \<open>
  What can happen next: a published message is taken (only while \<open>recv\<close> is not nil), the
  publish channel is found closed, a request is taken, the request channel is found
  closed, or a consumer receives from its channel. An order lists the consumers of the map
  in the sequence that \<open>range\<close> visits them.
\<close>

datatype 'v event =
    Publish 'v "string list" "string \<Rightarrow> nat \<Rightarrow> obs"
  | PublishClosed
  | Request request "string list"
  | RequestsClosed
  | Consume nat

definition bc_consume :: "nat \<Rightarrow> 'v bcast \<Rightarrow> 'v bcast" where
  "bc_consume i b =
     (case store b i of
        None \<Rightarrow> b
      | Some s \<Rightarrow> b\<lparr>store := (store b)(i \<mapsto> s\<lparr>ch := chan_recv (ch s)\<rparr>)\<rparr>)"

fun bc_step :: "'v event \<Rightarrow> 'v bcast \<Rightarrow> 'v bcast" where
  "bc_step (Publish msg order ob) b =
     (if status b = Running \<and> recv_on b then bc_publish ob msg order b else b)"
| "bc_step PublishClosed b =
     (if status b = Running \<and> recv_on b then b\<lparr>status := Done\<rparr> else b)"
| "bc_step (Request r order) b =
     (if status b = Running then snd (bc_request order r b) else b)"
| "bc_step RequestsClosed b = (if status b = Running then b\<lparr>status := Done\<rparr> else b)"
| "bc_step (Consume i) b = bc_consume i b"

fun bc_run :: "'v event list \<Rightarrow> 'v bcast \<Rightarrow> 'v bcast" where
  "bc_run [] b = b"
| "bc_run (e # es) b = bc_run es (bc_step e b)"

text \<open>
  An event is possible if its order visits each consumer of the map once, and if a consumer
  that the broadcaster waits for in vain does not receive any more.
\<close>

fun fair_order :: "'v event \<Rightarrow> 'v bcast \<Rightarrow> bool" where
  "fair_order (Publish msg order ob) b \<longleftrightarrow> distinct order \<and> set order = dom (subscribers b)"
| "fair_order (Request r order) b \<longleftrightarrow> distinct order \<and> set order = dom (subscribers b)"
| "fair_order (Consume i) b \<longleftrightarrow> status b \<noteq> Hung i"
| "fair_order _ b \<longleftrightarrow> True"

fun fair_run :: "'v event list \<Rightarrow> 'v bcast \<Rightarrow> bool" where
  "fair_run [] b = True"
| "fair_run (e # es) b = (fair_order e b \<and> fair_run es (bc_step e b))"

end
