(* ===== verification/Rx_BroadcastProps.thy ===== *)
theory Rx_BroadcastProps
  imports Rx_Broadcast
begin

section \<open>What the broadcaster guarantees\<close>

text \<open>
  The invariant of the broadcaster, kept by every turn of its loop, and the properties of
  publishing, subscribing, unsubscribing and closing that rest on it.
\<close>

subsection \<open>The invariant\<close>

text \<open>
  A consumer in the map stands for an open subscriber of its own group; a subscriber that
  has left the map is closed; references are below the next one; and the publish channel
  is listened to exactly while broadcasting, which for a subscriber-aware topic is exactly
  while it has subscribers.
\<close>

definition registered :: "'v bcast \<Rightarrow> bool" where
  "registered b \<longleftrightarrow> (\<forall>n i. subscribers b n = Some i \<longrightarrow>
     (\<exists>s. store b i = Some s \<and> \<not> sub_closed s \<and> consumerGroup s = n))"

definition stored :: "'v bcast \<Rightarrow> bool" where
  "stored b \<longleftrightarrow> (\<forall>i s. store b i = Some s \<longrightarrow>
     i < next_ref b \<and> sub_inv s \<and>
     (sub_closed s \<or> subscribers b (consumerGroup s) = Some i))"

definition switched :: "'v bcast \<Rightarrow> bool" where
  "switched b \<longleftrightarrow> broadcasting b = recv_on b \<and>
     (SubscriberAware b \<longrightarrow> (recv_on b \<longleftrightarrow> subscribers b \<noteq> Map.empty))"

definition bc_inv :: "'v bcast \<Rightarrow> bool" where
  "bc_inv b \<longleftrightarrow> registered b \<and> stored b \<and> switched b"

lemma registeredD:
  "registered b \<Longrightarrow> subscribers b n = Some i \<Longrightarrow>
     \<exists>s. store b i = Some s \<and> \<not> sub_closed s \<and> consumerGroup s = n"
  by (auto simp: registered_def)

lemma storedD:
  "stored b \<Longrightarrow> store b i = Some s \<Longrightarrow> i < next_ref b \<and> sub_inv s \<and>
     (sub_closed s \<or> subscribers b (consumerGroup s) = Some i)"
  by (auto simp: stored_def)

lemma registered_inject:
  assumes "registered b" and "subscribers b n = Some i" and "subscribers b m = Some i"
  shows "n = m"
  using registeredD [OF assms(1,2)] registeredD [OF assms(1,3)] by auto

lemma bc_inv_init [inv_intros]: "bc_inv (bc_init aware)"
  by (auto simp: bc_inv_def bc_init_def registered_def stored_def switched_def)

text \<open>Replacing a subscriber's channel, which keeps the rest of the subscriber.\<close>

lemma bc_inv_store:
  assumes "bc_inv b" and "store b i = Some s" and "sub_inv s'"
    and "sub_closed s' = sub_closed s" and "consumerGroup s' = consumerGroup s"
  shows "bc_inv (b\<lparr>store := (store b)(i \<mapsto> s')\<rparr>)"
proof -
  have "registered b" "stored b" "switched b" using assms(1) by (auto simp: bc_inv_def)
  have "registered (b\<lparr>store := (store b)(i \<mapsto> s')\<rparr>)"
    unfolding registered_def using registeredD [OF \<open>registered b\<close>] assms(2,4,5) by fastforce
  moreover have "stored (b\<lparr>store := (store b)(i \<mapsto> s')\<rparr>)"
    unfolding stored_def using storedD [OF \<open>stored b\<close>] assms(2-5) by auto
  ultimately show ?thesis using \<open>switched b\<close> by (simp add: bc_inv_def switched_def)
qed

lemma bc_inv_status [simp]: "bc_inv (b\<lparr>status := x\<rparr>) = bc_inv b"
    "bc_inv (b\<lparr>lastMessage := m\<rparr>) = bc_inv b"
  by (simp_all add: bc_inv_def registered_def stored_def switched_def)

lemma send_to_frame [simp]:
  "subscribers (send_to ob msg n b) = subscribers b" "recv_on (send_to ob msg n b) = recv_on b"
  "next_ref (send_to ob msg n b) = next_ref b" "lastMessage (send_to ob msg n b) = lastMessage b"
  "broadcasting (send_to ob msg n b) = broadcasting b"
  "SubscriberAware (send_to ob msg n b) = SubscriberAware b"
  by (simp_all add: send_to_def Let_def split: option.split)

lemma send_each_frame [simp]:
  "subscribers (send_each ob msg order b) = subscribers b"
  "recv_on (send_each ob msg order b) = recv_on b"
  "next_ref (send_each ob msg order b) = next_ref b"
  "lastMessage (send_each ob msg order b) = lastMessage b"
  by (induction order arbitrary: b) (simp_all add: Let_def)

lemma send_to_Some:
  "subscribers b n = Some i \<Longrightarrow> store b i = Some s \<Longrightarrow>
     store (send_to ob msg n b) = (store b)(i \<mapsto> s\<lparr>ch := res_chan (sub_Send (ob n) s msg)\<rparr>)"
  by (simp add: send_to_def Let_def)

lemma send_to_inv [inv_intros]:
  assumes inv: "bc_inv b"
  shows "bc_inv (send_to ob msg n b)"
proof (cases "subscribers b n")
  case None
  with inv show ?thesis by (simp add: send_to_def)
next
  case (Some i)
  obtain s where s: "store b i = Some s"
    using inv registeredD [OF _ Some] by (auto simp: bc_inv_def)
  have "sub_inv s" using inv storedD [OF _ s] by (auto simp: bc_inv_def)
  then have "bc_inv (b\<lparr>store := (store b)(i \<mapsto> s\<lparr>ch := res_chan (sub_Send (ob n) s msg)\<rparr>)\<rparr>)"
    by (intro bc_inv_store [OF inv s] sub_Send_inv) auto
  then have "bc_inv (b\<lparr>store := (store b)(i \<mapsto> s\<lparr>ch := res_chan (sub_Send (ob n) s msg)\<rparr>)\<rparr>\<lparr>status := z\<rparr>)"
    for z
    by (simp only: bc_inv_status)
  with Some s show ?thesis by (simp add: send_to_def Let_def)
qed

lemma send_each_inv [inv_intros]: "bc_inv b \<Longrightarrow> bc_inv (send_each ob msg order b)"
  by (induction order arbitrary: b) (simp_all add: Let_def send_to_inv)

lemma bc_publish_inv [inv_intros]: "bc_inv b \<Longrightarrow> bc_inv (bc_publish ob msg order b)"
  by (simp add: bc_publish_def Let_def send_each_inv)

lemma offer_last_ok:
  "chan_ok c \<Longrightarrow> chan_ok (offer_last prev c)"
  by (auto simp: offer_last_def chan_ok_def chan_put_wf split: option.split)

lemma enable_broadcast_frame [simp]:
  "subscribers (enable_broadcast b) = subscribers b" "store (enable_broadcast b) = store b"
  "next_ref (enable_broadcast b) = next_ref b" "status (enable_broadcast b) = status b"
  "lastMessage (enable_broadcast b) = lastMessage b"
  by (simp_all add: enable_broadcast_def)

lemma disable_broadcast_frame [simp]:
  "subscribers (disable_broadcast b) = subscribers b" "store (disable_broadcast b) = store b"
  "next_ref (disable_broadcast b) = next_ref b" "status (disable_broadcast b) = status b"
  "lastMessage (disable_broadcast b) = lastMessage b"
  by (simp_all add: disable_broadcast_def)

lemma bc_inv_split:
  "registered b \<Longrightarrow> stored b \<Longrightarrow> switched b \<Longrightarrow> bc_inv b"
  by (simp add: bc_inv_def)

lemma switch_registered [simp]:
  "registered (enable_broadcast b) = registered b" "stored (enable_broadcast b) = stored b"
  "registered (disable_broadcast b) = registered b" "stored (disable_broadcast b) = stored b"
  by (simp_all add: registered_def stored_def)

lemma bc_subscribe_inv [inv_intros]:
  assumes inv: "bc_inv b"
  shows "bc_inv (snd (bc_subscribe conf b))"
proof (cases "subscribers b (ConsumerGroup conf)")
  case (Some i)
  then have "subscribers b \<noteq> Map.empty" by auto
  then have "enable_broadcast b = b"
    using inv by (auto simp: enable_broadcast_def bc_inv_def switched_def)
  with Some inv show ?thesis by (simp add: bc_subscribe_def)
next
  case None
  show ?thesis
  proof (cases "newSubscriber conf :: string + 'a subscriber")
    case (Inl p)
    with None inv show ?thesis by (simp add: bc_subscribe_def)
  next
    case (Inr s)
    let ?s = "s\<lparr>ch := offer_last (lastMessage b) (ch s)\<rparr>"
    let ?b = "b\<lparr>subscribers := (subscribers b)(ConsumerGroup conf \<mapsto> next_ref b),
        store := (store b)(next_ref b \<mapsto> ?s), next_ref := Suc (next_ref b)\<rparr>"
    have s: "sub_inv ?s" "\<not> sub_closed s" "consumerGroup s = ConsumerGroup conf"
      using newSubscriber_inv [OF Inr] newSubscriber_fields [OF Inr] offer_last_ok [of "ch s"]
      by (auto simp: sub_inv_def chan_ok_def)
    have fresh: "store b i = Some t \<Longrightarrow> i < next_ref b" for i t
      using inv storedD by (auto simp: bc_inv_def)
    have reg: "registered b" and sto: "stored b" using inv by (auto simp: bc_inv_def)
    have "registered ?b"
      unfolding registered_def
    proof (intro allI impI)
      fix n i
      assume n: "subscribers ?b n = Some i"
      show "\<exists>t. store ?b i = Some t \<and> \<not> sub_closed t \<and> consumerGroup t = n"
      proof (cases "n = ConsumerGroup conf")
        case True
        with n s show ?thesis by simp
      next
        case False
        with n have "subscribers b n = Some i" by simp
        from registeredD [OF reg this] fresh show ?thesis by fastforce
      qed
    qed
    moreover have "stored ?b"
      unfolding stored_def
    proof (intro allI impI)
      fix i t
      assume "store ?b i = Some t"
      then have "i = next_ref b \<and> t = ?s \<or> i \<noteq> next_ref b \<and> store b i = Some t"
        by (auto split: if_splits)
      then show "i < next_ref ?b \<and> sub_inv t \<and>
          (sub_closed t \<or> subscribers ?b (consumerGroup t) = Some i)"
      proof
        assume "i = next_ref b \<and> t = ?s"
        with s show ?thesis by simp
      next
        assume "i \<noteq> next_ref b \<and> store b i = Some t"
        with storedD [OF sto, of i t] None show ?thesis by auto
      qed
    qed
    moreover have "switched (enable_broadcast ?b)"
      using inv by (auto simp: bc_inv_def switched_def enable_broadcast_def)
    moreover have "snd (bc_subscribe conf b) = enable_broadcast ?b"
      using None Inr by (simp add: bc_subscribe_def Let_def)
    ultimately show ?thesis by (simp add: bc_inv_def)
  qed
qed

lemma bc_inv_remove:
  assumes reg: "registered b" and sto: "stored b"
    and i: "subscribers b n = Some i" and s: "store b i = Some s"
  shows "registered (b\<lparr>subscribers := (subscribers b)(n := None),
           store := (store b)(i \<mapsto> snd (sub_Close s))\<rparr>)"
    and "stored (b\<lparr>subscribers := (subscribers b)(n := None),
           store := (store b)(i \<mapsto> snd (sub_Close s))\<rparr>)"
proof -
  have s': "\<not> sub_closed s" "consumerGroup s = n" using registeredD [OF reg i] s by auto
  have c: "sub_closed (snd (sub_Close s))" using sub_Close_open [OF s'(1)] by simp
  have other: "m \<noteq> n \<Longrightarrow> subscribers b m = Some j \<Longrightarrow> j \<noteq> i" for m j
    using registered_inject [OF reg i] by blast
  show "registered (b\<lparr>subscribers := (subscribers b)(n := None),
           store := (store b)(i \<mapsto> snd (sub_Close s))\<rparr>)"
    unfolding registered_def using registeredD [OF reg] other by simp
  show "stored (b\<lparr>subscribers := (subscribers b)(n := None),
           store := (store b)(i \<mapsto> snd (sub_Close s))\<rparr>)"
    unfolding stored_def
  proof (intro allI impI)
    fix j t
    assume "store (b\<lparr>subscribers := (subscribers b)(n := None),
           store := (store b)(i \<mapsto> snd (sub_Close s))\<rparr>) j = Some t"
    then have t: "if j = i then t = snd (sub_Close s) else store b j = Some t"
      by (auto split: if_splits)
    have "j < next_ref b \<and> sub_inv t \<and>
        (sub_closed t \<or> consumerGroup t \<noteq> n \<and> subscribers b (consumerGroup t) = Some j)"
    proof (cases "j = i")
      case True
      with t c storedD [OF sto s] show ?thesis by (simp add: sub_Close_inv)
    next
      case False
      with t have "store b j = Some t" by simp
      from storedD [OF sto this] i False show ?thesis by auto
    qed
    then show "j < next_ref (b\<lparr>subscribers := (subscribers b)(n := None),
           store := (store b)(i \<mapsto> snd (sub_Close s))\<rparr>) \<and> sub_inv t \<and>
       (sub_closed t \<or> subscribers (b\<lparr>subscribers := (subscribers b)(n := None),
           store := (store b)(i \<mapsto> snd (sub_Close s))\<rparr>) (consumerGroup t) = Some j)"
      by auto
  qed
qed

lemma bc_inv_stored:
  assumes "bc_inv b" and "subscribers b n = Some i"
  obtains s where "store b i = Some s" and "\<not> sub_closed s" and "consumerGroup s = n"
    and "sub_inv s"
proof -
  have reg: "registered b" and sto: "stored b" using assms(1) by (auto simp: bc_inv_def)
  from registeredD [OF reg assms(2)] obtain s where
    "store b i = Some s" "\<not> sub_closed s" "consumerGroup s = n" by blast
  with storedD [OF sto] that show thesis by blast
qed

text \<open>Unsubscribing with the channel of the subscriber takes the third branch.\<close>

lemma bc_unsubscribe_found:
  assumes "bc_inv b" and i: "subscribers b n = Some i" and s: "store b i = Some s"
  shows "bc_unsubscribe n i b = (UnsubscribeResponse None,
    disable_broadcast (b\<lparr>subscribers := (subscribers b)(n := None),
       store := (store b)(i \<mapsto> snd (sub_Close s))\<rparr>))"
proof -
  have reg: "registered b" using assms(1) by (simp add: bc_inv_def)
  have "\<not> sub_closed s" using registeredD [OF reg i] s by auto
  with i s show ?thesis by (simp add: bc_unsubscribe_def sub_Close_def Let_def)
qed

lemma bc_unsubscribe_inv [inv_intros]:
  assumes inv: "bc_inv b"
  shows "bc_inv (snd (bc_unsubscribe n c b))"
proof (cases "subscribers b n = Some c")
  case False
  have "disable_broadcast b = b"
    using inv by (auto simp: disable_broadcast_def bc_inv_def switched_def)
  with False inv show ?thesis by (auto simp: bc_unsubscribe_def split: option.split)
next
  case True
  from bc_inv_stored [OF inv True] obtain s where s: "store b c = Some s" by blast
  let ?b = "b\<lparr>subscribers := (subscribers b)(n := None), store := (store b)(c \<mapsto> snd (sub_Close s))\<rparr>"
  have "registered b" "stored b" "switched b" using inv by (auto simp: bc_inv_def)
  with bc_inv_remove [OF _ _ True s] have "registered ?b" "stored ?b" by blast+
  moreover have "switched (disable_broadcast ?b)"
    using \<open>switched b\<close> True by (auto simp: switched_def disable_broadcast_def)
  ultimately show ?thesis by (simp add: bc_unsubscribe_found [OF inv True s] bc_inv_def)
qed

lemma close_one_inv:
  assumes reg: "registered b" and sto: "stored b"
  shows "registered (close_one n b) \<and> stored (close_one n b)"
proof (cases "subscribers b n")
  case None
  with assms show ?thesis by (simp add: close_one_def)
next
  case (Some i)
  from registeredD [OF reg Some] obtain s where s: "store b i = Some s" by blast
  with bc_inv_remove [OF reg sto Some s] Some show ?thesis by (simp add: close_one_def)
qed

lemma close_one_frame [simp]:
  "subscribers (close_one n b) = (subscribers b)(n := None)"
  "recv_on (close_one n b) = recv_on b" "broadcasting (close_one n b) = broadcasting b"
  "SubscriberAware (close_one n b) = SubscriberAware b" "status (close_one n b) = status b"
  "lastMessage (close_one n b) = lastMessage b" "next_ref (close_one n b) = next_ref b"
  by (auto simp: close_one_def split: option.split)

lemma close_each_frame [simp]:
  "subscribers (close_each order b) = (\<lambda>n. if n \<in> set order then None else subscribers b n)"
  "recv_on (close_each order b) = recv_on b" "broadcasting (close_each order b) = broadcasting b"
  "SubscriberAware (close_each order b) = SubscriberAware b"
  "status (close_each order b) = status b" "lastMessage (close_each order b) = lastMessage b"
  "next_ref (close_each order b) = next_ref b"
  by (induction order arbitrary: b) auto

lemma close_each_inv:
  "registered b \<Longrightarrow> stored b \<Longrightarrow> registered (close_each order b) \<and> stored (close_each order b)"
  by (induction order arbitrary: b) (simp_all add: close_one_inv)

lemma close_each_all:
  "set order = dom (subscribers b) \<Longrightarrow> subscribers (close_each order b) = Map.empty"
  by (auto simp: fun_eq_iff dom_def)

lemma bc_close_inv [inv_intros]:
  assumes "bc_inv b" and "set order = dom (subscribers b)"
  shows "bc_inv (snd (bc_close order b))"
proof -
  let ?b = "b\<lparr>recv_on := False, broadcasting := False\<rparr>"
  have "registered ?b" "stored ?b"
    using assms(1) by (simp_all add: bc_inv_def registered_def stored_def)
  from close_each_inv [OF this, of order] close_each_all [of order ?b] assms(2)
  show ?thesis by (simp add: bc_close_def bc_inv_def switched_def)
qed

lemma bc_request_inv [inv_intros]:
  "bc_inv b \<Longrightarrow> set order = dom (subscribers b) \<Longrightarrow> bc_inv (snd (bc_request order r b))"
  by (cases r) (simp_all add: bc_request_def bc_subscribe_inv bc_unsubscribe_inv bc_close_inv)

lemma bc_consume_inv [inv_intros]:
  assumes inv: "bc_inv b"
  shows "bc_inv (bc_consume i b)"
proof (cases "store b i")
  case None
  with inv show ?thesis by (simp add: bc_consume_def)
next
  case (Some s)
  have "sub_inv s" using inv storedD [OF _ Some] by (auto simp: bc_inv_def)
  then have "sub_inv (s\<lparr>ch := chan_recv (ch s)\<rparr>)" by (simp add: sub_inv_def chan_recv_wf)
  from bc_inv_store [OF inv Some this] Some show ?thesis by (simp add: bc_consume_def)
qed

lemma bc_step_inv [inv_intros]: "bc_inv b \<Longrightarrow> fair_order e b \<Longrightarrow> bc_inv (bc_step e b)"
  by (cases e) (simp_all add: bc_publish_inv bc_request_inv bc_consume_inv)

lemma bc_run_inv [inv_intros]: "bc_inv b \<Longrightarrow> fair_run es b \<Longrightarrow> bc_inv (bc_run es b)"
  by (induction es arbitrary: b) (simp_all add: bc_step_inv)

text \<open>
  C24: the invariant of a topic's broadcaster, in every run. A consumer group of the map has
  one channel, which is open and its own; a channel is closed exactly when its group has
  another channel or none; no buffer exceeds its capacity, and a receiver waits only on an
  empty one; and the topic listens to its publishers exactly while it broadcasts, which for
  a subscriber-aware topic is exactly while it has subscribers.
\<close>

theorem broadcaster_invariant:
  fixes es :: "'v event list"
  assumes "fair_run es (bc_init aware)"
  defines "b \<equiv> bc_run es (bc_init aware)"
  shows "(\<forall>n i. subscribers b n = Some i \<longrightarrow>
      (\<exists>s. store b i = Some s \<and> consumerGroup s = n \<and> \<not> closed (ch s))) \<and>
    (\<forall>i s. store b i = Some s \<longrightarrow>
      length (buf (ch s)) \<le> cap (ch s) \<and> (0 < waiting (ch s) \<longrightarrow> buf (ch s) = []) \<and>
      (closed (ch s) \<longleftrightarrow> subscribers b (consumerGroup s) \<noteq> Some i)) \<and>
    (broadcasting b \<longleftrightarrow> recv_on b) \<and>
    (SubscriberAware b \<longrightarrow> (recv_on b \<longleftrightarrow> subscribers b \<noteq> Map.empty))"
proof -
  have inv: "registered b" "stored b" "switched b"
    using bc_run_inv [OF bc_inv_init assms(1)] by (simp_all add: b_def bc_inv_def)
  have "\<exists>s. store b i = Some s \<and> consumerGroup s = n \<and> \<not> closed (ch s)"
    if "subscribers b n = Some i" for n i
  proof -
    from registeredD [OF inv(1) that] obtain s where
      "store b i = Some s" "\<not> sub_closed s" "consumerGroup s = n" by blast
    moreover from this(1) have "sub_inv s" using storedD [OF inv(2)] by blast
    ultimately show ?thesis by (auto simp: sub_inv_def)
  qed
  moreover have "length (buf (ch s)) \<le> cap (ch s) \<and> (0 < waiting (ch s) \<longrightarrow> buf (ch s) = []) \<and>
      (closed (ch s) \<longleftrightarrow> subscribers b (consumerGroup s) \<noteq> Some i)"
    if "store b i = Some s" for i s
    using storedD [OF inv(2) that] registeredD [OF inv(1), of "consumerGroup s" i] that
    by (auto simp: sub_inv_def chan_wf_def)
  ultimately show ?thesis using inv(3) by (simp add: switched_def)
qed

theorem broadcaster_invariant_witness:
  "let b = bc_run [Request (SubscribeRequest
        \<lparr>ConsumerGroup = ''g'', ErrIfExists = True, BufferSize = 1, conf_BufferPolicy = None,
         conf_DropTimeout = 0\<rparr>) []] (bc_init True :: string bcast)
   in \<exists>s. store b 0 = Some s \<and> \<not> closed (ch s) \<and> recv_on b"
proof -
  let ?r = "Request (SubscribeRequest
        \<lparr>ConsumerGroup = ''g'', ErrIfExists = True, BufferSize = 1, conf_BufferPolicy = None,
         conf_DropTimeout = 0\<rparr>) []"
  have f: "fair_run [?r] (bc_init True :: string bcast)" by (simp add: bc_init_def)
  have g: "subscribers (bc_run [?r] (bc_init True :: string bcast)) ''g'' = Some 0"
    and a: "SubscriberAware (bc_run [?r] (bc_init True :: string bcast))"
    by (simp_all add: bc_init_def bc_request_def bc_subscribe_def newSubscriber_def enable_broadcast_def)
  note inv = broadcaster_invariant [OF f]
  have "\<exists>s. store (bc_run [?r] (bc_init True :: string bcast)) 0 = Some s \<and> \<not> closed (ch s)"
    using inv g by blast
  moreover have "subscribers (bc_run [?r] (bc_init True :: string bcast)) \<noteq> Map.empty" using g by auto
  then have "recv_on (bc_run [?r] (bc_init True :: string bcast))" using inv a by blast
  ultimately show ?thesis unfolding Let_def by blast
qed

end
