(* ===== verification/Rx_Delivery.thy ===== *)
theory Rx_Delivery
  imports Rx_BroadcastProps
begin

section \<open>What the consumers of a topic receive\<close>

text \<open>
  The history of a run is the list of the messages that the broadcaster took from the
  publish channel. The properties below compare it with what a consumer received and still
  has in its buffer, its \<open>contents\<close>.
\<close>

definition contents :: "'v chan \<Rightarrow> 'v list" where
  "contents c = delivered c @ buf c"

fun taken :: "'v event \<Rightarrow> 'v bcast \<Rightarrow> 'v list" where
  "taken (Publish msg order ob) b = (if status b = Running \<and> recv_on b then [msg] else [])"
| "taken _ b = []"

fun history :: "'v event list \<Rightarrow> 'v bcast \<Rightarrow> 'v list" where
  "history [] b = []"
| "history (e # es) b = taken e b @ history es (bc_step e b)"

lemma bc_run_append: "bc_run (es @ fs) b = bc_run fs (bc_run es b)"
  by (induction es arbitrary: b) auto

lemma fair_run_append: "fair_run (es @ fs) b \<longleftrightarrow> fair_run es b \<and> fair_run fs (bc_run es b)"
  by (induction es arbitrary: b) auto

lemma lossy_contents: "lossy n c ms c' \<Longrightarrow> subseq (contents c') (contents c @ ms)"
  unfolding lossy_def contents_def by (auto intro: list_emb_append_mono)

subsection \<open>One message\<close>

text \<open>The subscribers keep everything but their channels.\<close>

definition same_sub :: "'v subscriber \<Rightarrow> 'v subscriber \<Rightarrow> bool" where
  "same_sub s s' \<longleftrightarrow> consumerGroup s' = consumerGroup s \<and> bufferPolicy s' = bufferPolicy s \<and>
     (sub_closed s \<longrightarrow> sub_closed s')"

lemma same_sub_refl [simp]: "same_sub s s" "same_sub s (s\<lparr>ch := c\<rparr>)"
  by (simp_all add: same_sub_def)

lemma same_sub_trans: "same_sub s t \<Longrightarrow> same_sub t u \<Longrightarrow> same_sub s u"
  by (auto simp: same_sub_def)

lemma send_to_other:
  "subscribers b n \<noteq> Some i \<Longrightarrow> store (send_to ob msg n b) i = store b i"
  by (auto simp: send_to_def Let_def split: option.split)

lemma send_each_other:
  "\<forall>n\<in>set order. subscribers b n \<noteq> Some i \<Longrightarrow> store (send_each ob msg order b) i = store b i"
  by (induction order arbitrary: b) (auto simp: Let_def send_to_other)

text \<open>
  The subscriber of channel \<open>i\<close> is sent to at most once, when its consumer's turn comes.
\<close>

lemma send_each_reach:
  assumes inv: "bc_inv b" and "distinct order" and "store b i = Some s"
  shows "store (send_each ob msg order b) i = Some s \<or>
    store (send_each ob msg order b) i =
      Some (s\<lparr>ch := res_chan (sub_Send (ob (consumerGroup s)) s msg)\<rparr>)"
  using assms
proof (induction order arbitrary: b)
  case (Cons n ns)
  let ?s = "s\<lparr>ch := res_chan (sub_Send (ob (consumerGroup s)) s msg)\<rparr>"
  show ?case
  proof (cases "subscribers b n = Some i")
    case True
    have n: "consumerGroup s = n"
      using Cons.prems registeredD [of b n i] True by (auto simp: bc_inv_def)
    have "store (send_to ob msg n b) i = Some ?s"
      using send_to_Some [OF True Cons.prems(3)] n by simp
    moreover have "m \<in> set ns \<Longrightarrow> subscribers b m \<noteq> Some i" for m
      using Cons.prems registered_inject [of b n i m] True by (auto simp: bc_inv_def)
    ultimately show ?thesis by (simp add: Let_def send_each_other)
  next
    case False
    then have "store (send_to ob msg n b) i = Some s" using Cons.prems by (simp add: send_to_other)
    with Cons.IH [of "send_to ob msg n b"] Cons.prems show ?thesis
      by (auto simp: Let_def send_to_inv)
  qed
qed simp

lemma bc_publish_store [simp]:
  "store (bc_publish ob msg order b) = store (send_each ob msg order b)"
  by (simp add: bc_publish_def Let_def)

lemma lossy_untouched: "lossy 2 c [x] c"
  using lossy_mono [OF lossy_lose [OF lossy_refl], of 2 c x] by simp

lemma bc_publish_lossy:
  assumes inv: "bc_inv b" and "distinct order" and s: "store b i = Some s"
  obtains s' where "store (bc_publish ob msg order b) i = Some s'" and "same_sub s s'"
    and "lossy 2 (ch s) [msg] (ch s')"
proof -
  have "sub_inv s" using inv storedD [OF _ s] by (auto simp: bc_inv_def)
  from sub_Send_lossy [OF this, of msg "ob (consumerGroup s)"] lossy_untouched [of "ch s" msg]
    send_each_reach [OF assms, of ob msg] that
  show thesis by fastforce
qed

subsection \<open>Requests\<close>

lemma bc_subscribe_old:
  assumes inv: "bc_inv b" and s: "store b i = Some s"
  shows "store (snd (bc_subscribe conf b)) i = Some s"
proof -
  have "i \<noteq> next_ref b" using inv storedD [OF _ s] by (auto simp: bc_inv_def)
  with s show ?thesis by (auto simp: bc_subscribe_def Let_def split: option.split sum.split)
qed

lemma bc_subscribe_store:
  assumes "store (snd (bc_subscribe conf b)) i = Some s"
  shows "store b i = Some s \<or> (\<exists>s0. newSubscriber conf = Inr s0 \<and>
     s = s0\<lparr>ch := offer_last (lastMessage b) (ch s0)\<rparr>)"
  using assms
  by (auto simp: bc_subscribe_def Let_def split: option.splits sum.splits if_splits)

lemma sub_Close_same: "same_sub s (snd (sub_Close s))"
  by (simp add: same_sub_def sub_Close_def)

lemma sub_Close_contents: "contents (ch (snd (sub_Close s))) = contents (ch s)"
  by (simp add: contents_def sub_Close_def)

lemma bc_unsubscribe_store:
  assumes "store b i = Some s"
  shows "store (snd (bc_unsubscribe n c b)) i = Some s \<or>
    store (snd (bc_unsubscribe n c b)) i = Some (snd (sub_Close s))"
  using assms by (auto simp: bc_unsubscribe_def Let_def split: option.split prod.split)

lemma sub_Close_idem: "snd (sub_Close (snd (sub_Close s))) = snd (sub_Close s)"
  by (simp add: sub_Close_def)

lemma close_one_store:
  assumes "store b i \<in> {Some s, Some (snd (sub_Close s))}"
  shows "store (close_one n b) i \<in> {Some s, Some (snd (sub_Close s))}"
proof (cases "subscribers b n = Some i")
  case True
  with assms show ?thesis by (auto simp: close_one_def sub_Close_idem)
next
  case False
  then have "store (close_one n b) i = store b i"
    by (auto simp: close_one_def split: option.split)
  with assms show ?thesis by simp
qed

lemma close_each_store:
  "store b i \<in> {Some s, Some (snd (sub_Close s))} \<Longrightarrow>
     store (close_each order b) i \<in> {Some s, Some (snd (sub_Close s))}"
  by (induction order arbitrary: b) (simp_all only: close_each.simps close_one_store)

lemma bc_request_store:
  assumes "bc_inv b" and "store b i = Some s"
  shows "store (snd (bc_request order r b)) i \<in> {Some s, Some (snd (sub_Close s))}"
proof (cases r)
  case CloseRequest
  with close_each_store [of "b\<lparr>recv_on := False, broadcasting := False\<rparr>" i s order] assms(2)
  show ?thesis by (simp add: bc_request_def bc_close_def)
qed (use assms bc_subscribe_old [OF assms] bc_unsubscribe_store [OF assms(2)] in \<open>simp_all add: bc_request_def\<close>)

lemma sub_Close_chan_lossy:
  "s' \<in> {s, snd (sub_Close s)} \<Longrightarrow> same_sub s s' \<and> lossy 0 (ch s) [] (ch s')"
  by (auto simp: sub_Close_same sub_Close_lossy lossy_refl)

subsection \<open>One event, and a run\<close>

lemma bc_step_lossy:
  assumes inv: "bc_inv b" and fair: "fair_order e b" and s: "store b i = Some s"
  obtains s' where "store (bc_step e b) i = Some s'" and "same_sub s s'"
    and "lossy (2 * length (taken e b)) (ch s) (taken e b) (ch s')"
proof (cases e)
  case (Publish msg order ob)
  show thesis
  proof (cases "status b = Running \<and> recv_on b")
    case True
    from bc_publish_lossy [OF inv _ s, of order ob msg] fair Publish True that
    show thesis by fastforce
  next
    case False
    with s Publish that [of s] show thesis by (auto simp: lossy_refl)
  qed
next
  case (Request r order)
  show thesis
  proof (cases "status b = Running")
    case True
    from bc_request_store [OF inv s, of order r] obtain s' where
      "store (snd (bc_request order r b)) i = Some s'" "s' \<in> {s, snd (sub_Close s)}" by blast
    with sub_Close_chan_lossy [of s' s] Request True that [of s'] show thesis by simp
  next
    case False
    with s Request that [of s] show thesis by (auto simp: lossy_refl)
  qed
next
  case (Consume j)
  show thesis
  proof (cases "j = i")
    case True
    with s Consume that [of "s\<lparr>ch := chan_recv (ch s)\<rparr>"] chan_recv_lossy [of "ch s"]
    show thesis by (simp add: bc_consume_def)
  next
    case False
    with s Consume that [of s] show thesis
      by (simp add: bc_consume_def lossy_refl split: option.splits)
  qed
next
  case PublishClosed
  then have "store (bc_step e b) i = Some s" using s by simp
  with that [of s] PublishClosed show thesis by (simp add: lossy_refl)
next
  case RequestsClosed
  then have "store (bc_step e b) i = Some s" using s by simp
  with that [of s] RequestsClosed show thesis by (simp add: lossy_refl)
qed

lemma bc_step_last:
  "lastMessage (bc_step e b) = Some m \<Longrightarrow> m \<in> set (taken e b) \<or> lastMessage b = Some m"
  by (cases e)
    (auto simp: bc_publish_def Let_def bc_request_def bc_subscribe_def bc_unsubscribe_def
      bc_close_def bc_consume_def split: if_splits request.splits option.splits sum.splits prod.splits)

text \<open>A subscriber comes into being by a request, with the last message or nothing.\<close>

lemma send_each_None: "store b i = None \<Longrightarrow> store (send_each ob msg order b) i = None"
proof (induction order arbitrary: b)
  case (Cons n ns)
  then have "store (send_to ob msg n b) i = None"
    by (auto simp: send_to_def Let_def split: option.split)
  with Cons.IH show ?case by (simp add: Let_def)
qed simp

lemma close_each_None: "store b i = None \<Longrightarrow> store (close_each order b) i = None"
proof (induction order arbitrary: b)
  case (Cons n ns)
  then have "store (close_one n b) i = None" by (auto simp: close_one_def split: option.split)
  with Cons.IH show ?case by simp
qed simp

lemma bc_step_new:
  assumes "store b i = None" and "store (bc_step e b) i = Some s"
  shows "\<exists>conf s0. newSubscriber conf = Inr s0 \<and> s = s0\<lparr>ch := offer_last (lastMessage b) (ch s0)\<rparr>"
proof (cases e)
  case (Request r order)
  with assms have *: "store (snd (bc_request order r b)) i = Some s" by (auto split: if_splits)
  show ?thesis
  proof (cases r)
    case (SubscribeRequest conf)
    with * assms(1) bc_subscribe_store [of conf b i s] show ?thesis by (auto simp: bc_request_def)
  next
    case (UnsubscribeRequest n c)
    with * assms(1) show ?thesis
      by (auto simp: bc_request_def bc_unsubscribe_def Let_def split: option.splits prod.splits if_splits)
  next
    case CloseRequest
    with * assms(1) close_each_None [of "b\<lparr>recv_on := False, broadcasting := False\<rparr>" i order]
    show ?thesis by (simp add: bc_request_def bc_close_def)
  qed (use * assms(1) in \<open>simp add: bc_request_def\<close>)
next
  case (Publish msg order ob)
  with assms send_each_None [OF assms(1), of ob msg order] show ?thesis by (simp split: if_splits)
next
  case (Consume j)
  with assms show ?thesis by (auto simp: bc_consume_def split: option.splits if_splits)
qed (use assms in \<open>simp_all split: if_splits\<close>)

lemma offer_last_contents:
  "contents (offer_last prev (make_chan k)) =
     (case prev of Some m \<Rightarrow> if 0 < k then [m] else [] | None \<Rightarrow> [])"
  by (simp add: offer_last_def contents_def make_chan_def can_send_def chan_put_def split: option.split)

text \<open>What holds of every run so far with the history \<open>h\<close>.\<close>

definition within :: "'v list \<Rightarrow> 'v bcast \<Rightarrow> bool" where
  "within h b \<longleftrightarrow> bc_inv b \<and> (\<forall>m. lastMessage b = Some m \<longrightarrow> m \<in> set h) \<and>
     (\<forall>i s. store b i = Some s \<longrightarrow> subseq (contents (ch s)) h)"

lemma within_step:
  assumes w: "within h b" and fair: "fair_order e b"
  shows "within (h @ taken e b) (bc_step e b)"
proof -
  have inv: "bc_inv b" using w by (simp add: within_def)
  have sub: "subseq (contents (ch s)) (h @ taken e b)" if s: "store (bc_step e b) i = Some s" for i s
  proof (cases "store b i")
    case None
    from bc_step_new [OF None s] newSubscriber_fields obtain k where
      "ch s = offer_last (lastMessage b) (make_chan k)" by fastforce
    then have "set (contents (ch s)) \<subseteq> set h \<and> length (contents (ch s)) \<le> 1"
      using w by (auto simp: offer_last_contents within_def split: option.splits)
    then have "subseq (contents (ch s)) h"
      by (cases "contents (ch s)") (auto simp: subseq_singleton_left)
    then show ?thesis by (rule subseq_rev_drop_many)
  next
    case (Some t)
    from bc_step_lossy [OF inv fair Some] obtain s' where
      s': "store (bc_step e b) i = Some s'" and
      l: "lossy (2 * length (taken e b)) (ch t) (taken e b) (ch s')" by blast
    have "subseq (contents (ch t) @ taken e b) (h @ taken e b)"
      using w Some by (auto simp: within_def intro: list_emb_append_mono)
    with lossy_contents [OF l] s s' show ?thesis using subseq_order.trans by fastforce
  qed
  have last: "m \<in> set (h @ taken e b)" if "lastMessage (bc_step e b) = Some m" for m
    using bc_step_last [OF that] w by (auto simp: within_def)
  show ?thesis
    unfolding within_def using bc_step_inv [OF inv fair] last sub by blast
qed

lemma within_run: "within h b \<Longrightarrow> fair_run es b \<Longrightarrow> within (h @ history es b) (bc_run es b)"
proof (induction es arbitrary: b h)
  case (Cons e es)
  then have "within (h @ taken e b) (bc_step e b)" by (simp add: within_step)
  from Cons.IH [OF this] Cons.prems show ?case by simp
qed simp

lemma within_init: "within [] (bc_init aware)"
  by (simp add: within_def bc_inv_init) (simp add: bc_init_def)

subsection \<open>Order and invention\<close>

text \<open>
  C2: whatever consumers subscribe, unsubscribe, receive or stall, and whatever policies
  they chose, the messages that one of them has received and has still in its buffer are a
  subsequence of the messages the topic took for broadcast: none is invented, doubled or
  overtaken.
\<close>

theorem broadcast_keeps_order:
  assumes "fair_run es (bc_init aware)"
    and "store (bc_run es (bc_init aware)) i = Some s"
  shows "subseq (delivered (ch s) @ buf (ch s)) (history es (bc_init aware))"
  using within_run [OF within_init assms(1)] assms(2)
  by (auto simp: within_def contents_def)

definition demo_conf :: "string \<Rightarrow> int \<Rightarrow> BufferPolicy option \<Rightarrow> SubscriberConfig" where
  "demo_conf g n p =
     \<lparr>ConsumerGroup = g, ErrIfExists = False, BufferSize = n, conf_BufferPolicy = p,
      conf_DropTimeout = 0\<rparr>"

lemmas demo_simps = demo_conf_def bc_init_def bc_request_def bc_subscribe_def newSubscriber_def
  make_chan_def Let_def enable_broadcast_def offer_last_def bc_publish_def send_to_def
  sub_Send_def handle_DropNone_def handle_DropOldest_def case_stop_def case_send_def case_drop_def
  can_send_def with_stop_def select_or_def chan_put_def chan_drop_def calm_def bc_consume_def
  chan_recv_def

theorem broadcast_keeps_order_witness:
  "let es = [Request (SubscribeRequest (demo_conf ''g'' 1 (Some BufferPolicyDropOldest))) [],
             Publish ''x'' [''g''] (\<lambda>_ _. calm), Publish ''y'' [''g''] (\<lambda>_ _. calm), Consume 0];
       b = bc_run es (bc_init True)
   in history es (bc_init True) = [''x'', ''y''] \<and>
      (\<exists>s. store b 0 = Some s \<and> delivered (ch s) = [''y''] \<and>
         subseq (delivered (ch s) @ buf (ch s)) (history es (bc_init True)))"
proof -
  let ?es = "[Request (SubscribeRequest (demo_conf ''g'' 1 (Some BufferPolicyDropOldest))) [],
             Publish ''x'' [''g''] (\<lambda>_ _. calm), Publish ''y'' [''g''] (\<lambda>_ _. calm), Consume 0]"
  have fair: "fair_run ?es (bc_init True)" by (simp add: demo_simps)
  have "\<exists>s. store (bc_run ?es (bc_init True)) 0 = Some s \<and> delivered (ch s) = [''y'']"
    by (simp add: demo_simps)
  moreover have "history ?es (bc_init True) = [''x'', ''y'']" by (simp add: demo_simps)
  ultimately show ?thesis
    using broadcast_keeps_order [OF fair, of 0] by (fastforce simp: Let_def)
qed

subsection \<open>Completeness for the default policy\<close>

lemma chan_recv_contents [simp]: "contents (chan_recv c) = contents c"
  by (simp add: contents_def chan_recv_def split: list.split)

lemma receives_contents [simp]: "contents (receives n c) = contents c"
  by (induction n c rule: receives.induct) auto

lemma chan_put_contents: "chan_wf c \<Longrightarrow> contents (chan_put c x) = contents c @ [x]"
  by (simp add: contents_def chan_put_def chan_wf_def)

lemma sub_Send_DropNone:
  assumes "sub_inv s" and "\<not> sub_closed s" and "bufferPolicy s = Some BufferPolicyDropNone"
  shows "(\<exists>c. sub_Send ob s x = Ret None c \<and> contents c = contents (ch s) @ [x]) \<or>
    (\<exists>c. sub_Send ob s x = Hang c \<and> contents c = contents (ch s))"
proof -
  have "chan_wf (receives (o_receives (ob 0)) (ch s))" "\<not> closed (ch s)" "\<not> stopC_closed s"
    using assms by (auto simp: sub_inv_def receives_wf)
  with chan_put_contents [OF this(1), of x] assms show ?thesis
    by (auto simp: sub_Send_def handle_DropNone_def Let_def case_stop_def case_send_def
        select_or_def with_stop_def)
qed

text \<open>A publish that leaves the loop running reached every subscriber with its \<open>Send\<close>.\<close>

lemma send_each_all:
  assumes "bc_inv b" and "distinct order" and "store b i = Some s" and "consumerGroup s \<in> set order"
    and "subscribers b (consumerGroup s) = Some i" and "status b = Running"
    and "status (send_each ob msg order b) = Running"
  shows "\<exists>e c. sub_Send (ob (consumerGroup s)) s msg = Ret e c \<and>
    store (send_each ob msg order b) i = Some (s\<lparr>ch := c\<rparr>)"
  using assms
proof (induction order arbitrary: b)
  case (Cons n ns)
  let ?b = "send_to ob msg n b"
  have r: "status ?b = Running" using Cons.prems by (simp add: Let_def split: if_splits)
  have rest: "send_each ob msg (n # ns) b = send_each ob msg ns ?b" using r by (simp add: Let_def)
  show ?case
  proof (cases "n = consumerGroup s")
    case True
    have i: "subscribers b n = Some i" using Cons.prems True by simp
    from r obtain e c where h: "sub_Send (ob n) s msg = Ret e c"
      using i Cons.prems(3) by (cases "sub_Send (ob n) s msg") (auto simp: send_to_def Let_def)
    have "m \<in> set ns \<Longrightarrow> subscribers ?b m \<noteq> Some i" for m
      using Cons.prems registered_inject [of b n i m] i by (auto simp: bc_inv_def)
    then have "store (send_each ob msg ns ?b) i = store ?b i" by (simp add: send_each_other)
    with send_to_Some [OF i Cons.prems(3)] h True rest show ?thesis by auto
  next
    case False
    have "subscribers b n \<noteq> Some i"
      using False Cons.prems registered_inject [of b n i "consumerGroup s"] by (auto simp: bc_inv_def)
    then have "store ?b i = Some s" using Cons.prems(3) by (simp add: send_to_other)
    with Cons.IH [of ?b] Cons.prems r rest False show ?thesis by (auto simp: send_to_inv)
  qed
qed simp

text \<open>Once the loop has ended, one way or another, it does not run again.\<close>

lemma bc_step_status:
  "status b \<noteq> Running \<Longrightarrow> status (bc_step e b) = status b"
  by (cases e) (auto simp: bc_consume_def split: option.split)

lemma bc_run_status: "status b \<noteq> Running \<Longrightarrow> status (bc_run es b) = status b"
  by (induction es arbitrary: b) (simp_all add: bc_step_status)

lemma bc_step_DropNone:
  assumes inv: "bc_inv b" and fair: "fair_order e b" and s: "store b i = Some s"
    and p: "bufferPolicy s = Some BufferPolicyDropNone"
    and run: "status (bc_step e b) = Running"
    and s': "store (bc_step e b) i = Some s'" and "\<not> sub_closed s'"
  shows "contents (ch s') = contents (ch s) @ taken e b \<and> bufferPolicy s' = bufferPolicy s"
proof -
  have r: "status b = Running" using run bc_step_status [of b e] by fastforce
  have inv_s: "sub_inv s" using inv storedD [OF _ s] by (auto simp: bc_inv_def)
  from bc_step_lossy [OF inv fair s] s' have same: "same_sub s s'" by auto
  then have open_s: "\<not> sub_closed s" using \<open>\<not> sub_closed s'\<close> by (auto simp: same_sub_def)
  have sub: "subscribers b (consumerGroup s) = Some i"
    using inv storedD [OF _ s] open_s by (auto simp: bc_inv_def)
  have "contents (ch s') = contents (ch s) @ taken e b"
  proof (cases e)
    case (Publish msg order ob)
    show ?thesis
    proof (cases "recv_on b")
      case True
      have order: "distinct order" "consumerGroup s \<in> set order" using fair Publish sub by auto
      have "status (send_each ob msg order b) = Running"
        using run r True Publish by (simp add: bc_publish_def Let_def split: if_splits)
      from send_each_all [OF inv order(1) s order(2) sub r this] obtain z c where
        h: "sub_Send (ob (consumerGroup s)) s msg = Ret z c" and
        c: "store (send_each ob msg order b) i = Some (s\<lparr>ch := c\<rparr>)" by blast
      with sub_Send_DropNone [OF inv_s open_s p, of "ob (consumerGroup s)" msg] s' r True Publish
      show ?thesis by auto
    qed (use s s' r Publish in simp)
  next
    case (Request q order)
    with s' r have "store (snd (bc_request order q b)) i = Some s'" by simp
    with bc_request_store [OF inv s, of order q] Request show ?thesis
      by (auto simp: sub_Close_contents)
  next
    case (Consume j)
    with s s' show ?thesis by (cases "j = i") (auto simp: bc_consume_def split: option.splits)
  qed (use s s' r run in \<open>simp_all split: if_splits\<close>)
  with same show ?thesis by (simp add: same_sub_def)
qed

lemma bc_run_open:
  "bc_inv b \<Longrightarrow> fair_run es b \<Longrightarrow> store b i = Some s \<Longrightarrow>
     \<exists>s'. store (bc_run es b) i = Some s' \<and> same_sub s s'"
proof (induction es arbitrary: b s)
  case (Cons e es)
  have fair: "fair_order e b" using Cons.prems by simp
  from bc_step_lossy [OF Cons.prems(1) fair Cons.prems(3)] obtain t where
    t: "store (bc_step e b) i = Some t" "same_sub s t" by blast
  from Cons.IH [OF _ _ t(1)] Cons.prems obtain s' where
    "store (bc_run es (bc_step e b)) i = Some s'" "same_sub t s'" by (auto simp: bc_step_inv)
  with t(2) same_sub_trans show ?case by auto
qed simp

lemma bc_run_DropNone:
  "bc_inv b \<Longrightarrow> fair_run es b \<Longrightarrow> store b i = Some s \<Longrightarrow>
     bufferPolicy s = Some BufferPolicyDropNone \<Longrightarrow> status (bc_run es b) = Running \<Longrightarrow>
     store (bc_run es b) i = Some s' \<Longrightarrow> \<not> sub_closed s' \<Longrightarrow>
     contents (ch s') = contents (ch s) @ history es b"
proof (induction es arbitrary: b s)
  case (Cons e es)
  have fair: "fair_order e b" "fair_run es (bc_step e b)" using Cons.prems by auto
  from bc_step_lossy [OF Cons.prems(1) fair(1) Cons.prems(3)] obtain t where
    t: "store (bc_step e b) i = Some t" by blast
  note inv = bc_step_inv [OF Cons.prems(1) fair(1)]
  have run: "status (bc_step e b) = Running"
    using Cons.prems(5) bc_run_status [of "bc_step e b" es] by fastforce
  have "\<not> sub_closed t"
    using bc_run_open [OF inv fair(2) t] Cons.prems(6,7) by (auto simp: same_sub_def)
  with bc_step_DropNone [OF Cons.prems(1) fair(1) Cons.prems(3,4) run t] have
    "contents (ch t) = contents (ch s) @ taken e b" "bufferPolicy t = Some BufferPolicyDropNone"
    using Cons.prems(4) by auto
  with Cons.IH [OF inv fair(2) t] Cons.prems show ?case by simp
qed simp

text \<open>
  C16: a consumer with the policy \<open>BufferPolicyDropNone\<close>, which is the default, misses
  nothing while it is subscribed and the topic runs: what it has received or can still receive is what it had
  before, followed by every message taken for broadcast since, in order.
\<close>

theorem drop_none_loses_nothing:
  assumes "fair_run (es @ fs) (bc_init aware)"
    and "store (bc_run es (bc_init aware)) i = Some s"
    and "bufferPolicy s = Some BufferPolicyDropNone"
    and "status (bc_run (es @ fs) (bc_init aware)) = Running"
    and "store (bc_run (es @ fs) (bc_init aware)) i = Some s'" and "\<not> sub_closed s'"
  shows "delivered (ch s') @ buf (ch s') =
    delivered (ch s) @ buf (ch s) @ history fs (bc_run es (bc_init aware))"
  using bc_run_DropNone [OF bc_run_inv [OF bc_inv_init, of es aware], of fs i s s'] assms
  by (simp add: fair_run_append bc_run_append contents_def)

theorem drop_none_loses_nothing_witness:
  "let es = [Request (SubscribeRequest (demo_conf ''g'' 2 None)) []];
       fs = [Publish ''x'' [''g''] (\<lambda>_ _. calm), Consume 0, Publish ''y'' [''g''] (\<lambda>_ _. calm)];
       b = bc_run es (bc_init True); b' = bc_run (es @ fs) (bc_init True)
   in \<exists>s s'. store b 0 = Some s \<and> store b' 0 = Some s' \<and> delivered (ch s') = [''x''] \<and>
        delivered (ch s') @ buf (ch s') = delivered (ch s) @ buf (ch s) @ history fs b"
proof -
  let ?es = "[Request (SubscribeRequest (demo_conf ''g'' 2 None)) []]"
  let ?fs = "[Publish ''x'' [''g''] (\<lambda>_ _. calm), Consume 0, Publish ''y'' [''g''] (\<lambda>_ _. calm)]"
  have fair: "fair_run (?es @ ?fs) (bc_init True)" by (simp add: demo_simps)
  have run: "status (bc_run (?es @ ?fs) (bc_init True)) = Running" by (simp add: demo_simps)
  obtain s :: "string subscriber" where s: "store (bc_run ?es (bc_init True)) 0 = Some s"
    "bufferPolicy s = Some BufferPolicyDropNone"
    by (simp add: demo_simps)
  obtain s' where s': "store (bc_run (?es @ ?fs) (bc_init True)) 0 = Some s'"
    "\<not> sub_closed s'" "delivered (ch s') = [''x'']"
    by (simp add: demo_simps)
  from drop_none_loses_nothing [OF fair s run s'(1,2)] s s' show ?thesis by (auto simp: Let_def)
qed

end
