(* ===== verification/Rx_BroadcastOps.thy ===== *)
theory Rx_BroadcastOps
  imports Rx_Delivery
begin

section \<open>What the operations of a topic do\<close>

text \<open>
  The functional behaviour of publishing, subscribing, unsubscribing and closing, on the
  states that satisfy the invariant of the broadcaster; then the two ways in which one
  subscriber takes the topic down for all.
\<close>

subsection \<open>Publishing does not depend on the order of the map\<close>

fun returns :: "'v hres \<Rightarrow> bool" where
  "returns (Ret e c) = True"
| "returns _ = False"

text \<open>The store after every consumer of the set \<open>N\<close> was sent to.\<close>

definition deliver ::
  "(string \<Rightarrow> nat \<Rightarrow> obs) \<Rightarrow> 'v \<Rightarrow> string set \<Rightarrow> 'v bcast \<Rightarrow> nat \<rightharpoonup> 'v subscriber" where
  "deliver ob msg N b i =
     (case store b i of
        None \<Rightarrow> None
      | Some s \<Rightarrow>
         if consumerGroup s \<in> N \<and> subscribers b (consumerGroup s) = Some i
         then Some (s\<lparr>ch := res_chan (sub_Send (ob (consumerGroup s)) s msg)\<rparr>) else Some s)"

definition accepts :: "(string \<Rightarrow> nat \<Rightarrow> obs) \<Rightarrow> 'v \<Rightarrow> 'v bcast \<Rightarrow> string \<Rightarrow> bool" where
  "accepts ob msg b n \<longleftrightarrow>
     (case subscribers b n of None \<Rightarrow> True
      | Some i \<Rightarrow> (case store b i of None \<Rightarrow> True | Some s \<Rightarrow> returns (sub_Send (ob n) s msg)))"

lemma send_to_status:
  "status b = Running \<Longrightarrow> status (send_to ob msg n b) = Running \<longleftrightarrow> accepts ob msg b n"
  by (auto simp: send_to_def accepts_def Let_def split: option.split hres.split)

lemma send_to_accepts:
  assumes "bc_inv b" and "m \<noteq> n"
  shows "accepts ob msg (send_to ob' msg' n b) m = accepts ob msg b m"
proof (cases "subscribers b m")
  case (Some j)
  then have "subscribers b n \<noteq> Some j"
    using assms registered_inject [of b m j n] by (auto simp: bc_inv_def)
  with Some show ?thesis by (simp add: accepts_def send_to_other)
qed (simp add: accepts_def)

lemma send_to_deliver:
  assumes inv: "bc_inv b"
  shows "store (send_to ob msg n b) = deliver ob msg {n} b"
proof
  fix i
  show "store (send_to ob msg n b) i = deliver ob msg {n} b i"
  proof (cases "subscribers b n = Some i")
    case True
    from bc_inv_stored [OF inv True] obtain s where "store b i = Some s" "consumerGroup s = n" .
    with True send_to_Some [OF True, of s ob msg] show ?thesis by (simp add: deliver_def)
  next
    case False
    then show ?thesis by (auto simp: send_to_other deliver_def split: option.split)
  qed
qed

lemma deliver_deliver:
  assumes "store c = deliver ob msg {n} b" and "subscribers c = subscribers b" and "n \<notin> N"
  shows "deliver ob msg N c = deliver ob msg (insert n N) b"
  using assms by (auto simp: deliver_def fun_eq_iff split: option.split)

lemma send_each_closed:
  assumes "bc_inv b" and "distinct order" and "status b = Running"
  shows "(status (send_each ob msg order b) = Running \<longleftrightarrow> (\<forall>n\<in>set order. accepts ob msg b n)) \<and>
    (status (send_each ob msg order b) = Running \<longrightarrow>
       store (send_each ob msg order b) = deliver ob msg (set order) b)"
  using assms
proof (induction order arbitrary: b)
  case Nil
  then show ?case by (auto simp: deliver_def fun_eq_iff split: option.split)
next
  case (Cons n ns)
  let ?b = "send_to ob msg n b"
  show ?case
  proof (cases "accepts ob msg b n")
    case True
    then have r: "status ?b = Running" using Cons.prems by (simp add: send_to_status)
    have eq: "send_each ob msg (n # ns) b = send_each ob msg ns ?b" using r by (simp add: Let_def)
    have "deliver ob msg (set ns) ?b = deliver ob msg (set (n # ns)) b"
      using deliver_deliver [OF send_to_deliver [OF Cons.prems(1)], of ob msg n "set ns"] Cons.prems
      by simp
    moreover have "accepts ob msg ?b m = accepts ob msg b m" if "m \<in> set ns" for m
      using Cons.prems that by (intro send_to_accepts) auto
    ultimately show ?thesis
      using Cons.IH [of ?b] Cons.prems r True unfolding eq by (simp add: send_to_inv)
  next
    case False
    then have "status ?b \<noteq> Running" using Cons.prems by (simp add: send_to_status)
    with False show ?thesis by (simp add: Let_def)
  qed
qed

lemma send_each_unchanged:
  "SubscriberAware (send_each ob msg order b) = SubscriberAware b"
  "broadcasting (send_each ob msg order b) = broadcasting b"
  by (induction order arbitrary: b) (simp_all add: Let_def)

text \<open>
  C25: Go ranges over the map of subscribers in an order of its own. It does not matter:
  when a publish goes through in one order, it goes through in every other order and
  leaves the topic and every subscriber's channel in the same state.
\<close>

theorem publish_order_irrelevant:
  assumes "fair_run es (bc_init aware)" and "b = bc_run es (bc_init aware)"
    and "status b = Running"
    and "distinct o1" and "set o1 = dom (subscribers b)"
    and "distinct o2" and "set o2 = dom (subscribers b)"
    and "status (bc_publish ob msg o1 b) = Running"
  shows "bc_publish ob msg o2 b = bc_publish ob msg o1 b"
proof -
  have inv: "bc_inv b" using bc_run_inv [OF bc_inv_init assms(1)] assms(2) by simp
  have r1: "status (send_each ob msg o1 b) = Running"
    using assms(8) by (simp add: bc_publish_def Let_def split: if_splits)
  with send_each_closed [OF inv assms(4,3), of ob msg] send_each_closed [OF inv assms(6,3), of ob msg]
    assms(5,7)
  have "status (send_each ob msg o2 b) = Running"
    "store (send_each ob msg o2 b) = store (send_each ob msg o1 b)" by auto
  with r1 have "send_each ob msg o2 b = send_each ob msg o1 b"
    by (intro bcast.equality) (simp_all add: send_each_unchanged)
  then show ?thesis by (simp add: bc_publish_def Let_def)
qed

theorem publish_order_irrelevant_witness:
  "let b = bc_run [Request (SubscribeRequest (demo_conf ''a'' 1 None)) [],
                   Request (SubscribeRequest (demo_conf ''b'' 1 None)) [''a'']] (bc_init True)
   in bc_publish (\<lambda>_ _. calm) ''x'' [''b'', ''a''] b = bc_publish (\<lambda>_ _. calm) ''x'' [''a'', ''b''] b"
proof -
  let ?es = "[Request (SubscribeRequest (demo_conf ''a'' 1 None)) [],
              Request (SubscribeRequest (demo_conf ''b'' 1 None)) [''a'']]"
  let ?b = "bc_run ?es (bc_init True) :: string bcast"
  have fair: "fair_run ?es (bc_init True :: string bcast)" by (simp add: demo_simps)
  have run: "status ?b = Running" by (simp add: demo_simps)
  have d1: "set [''a'', ''b''] = dom (subscribers ?b)"
    and d2: "set [''b'', ''a''] = dom (subscribers ?b)" by (auto simp: demo_simps)
  have p: "status (bc_publish (\<lambda>_ _. calm) ''x'' [''a'', ''b''] ?b) = Running"
    by (simp add: demo_simps)
  from publish_order_irrelevant [OF fair refl run _ d1 _ d2 p] show ?thesis
    by (simp only: Let_def distinct.simps list.set simp_thms) simp
qed

subsection \<open>Subscribing and unsubscribing\<close>

lemma switch_aware [simp]:
  "SubscriberAware (enable_broadcast b) = SubscriberAware b"
  "SubscriberAware (disable_broadcast b) = SubscriberAware b"
  by (simp_all add: enable_broadcast_def disable_broadcast_def)

lemma bc_subscribe_aware: "SubscriberAware (snd (bc_subscribe conf b)) = SubscriberAware b"
  by (simp add: bc_subscribe_def Let_def split: option.split sum.split)

lemma bc_unsubscribe_aware: "SubscriberAware (snd (bc_unsubscribe n c b)) = SubscriberAware b"
  by (simp add: bc_unsubscribe_def Let_def sub_Close_def split: option.split)

lemma bc_request_aware: "SubscriberAware (snd (bc_request order r b)) = SubscriberAware b"
  by (cases r) (simp_all add: bc_request_def bc_subscribe_aware bc_unsubscribe_aware bc_close_def)

lemma bc_step_aware [simp]: "SubscriberAware (bc_step e b) = SubscriberAware b"
  by (cases e) (simp_all add: bc_request_aware bc_publish_def Let_def send_each_unchanged
      bc_consume_def split: option.split)

lemma bc_run_aware: "SubscriberAware (bc_run es b) = SubscriberAware b"
  by (induction es arbitrary: b) simp_all

lemma subscribe_new_group_base:
  fixes b :: "'v bcast"
  assumes "fair_run es (bc_init aware)" and "b = bc_run es (bc_init aware)"
    and "subscribers b (ConsumerGroup conf) = None" and "0 \<le> BufferSize conf"
  shows "\<exists>i s b'. bc_subscribe conf b = (SubscribeResponse i None, b') \<and> store b i = None \<and>
    subscribers b' = (subscribers b)(ConsumerGroup conf \<mapsto> i) \<and> store b' = (store b)(i \<mapsto> s) \<and>
    delivered (ch s) = [] \<and> cap (ch s) = nat (BufferSize conf) \<and>
    buf (ch s) = (if BufferSize conf = 0 then []
                  else case lastMessage b of None \<Rightarrow> [] | Some m \<Rightarrow> [m]) \<and>
    recv_on b' = (aware \<or> recv_on b)"
proof -
  have inv: "bc_inv b" using bc_run_inv [OF bc_inv_init assms(1)] assms(2) by simp
  have sw: "switched b" using inv by (simp add: bc_inv_def)
  have aware: "SubscriberAware b = aware" using bc_run_aware [of es "bc_init aware"] assms(2)
    by (simp add: bc_init_def)
  have fresh: "store b (next_ref b) = None"
  proof (rule ccontr)
    assume "store b (next_ref b) \<noteq> None"
    then obtain s where "store b (next_ref b) = Some s" by auto
    from storedD [OF _ this] inv show False by (auto simp: bc_inv_def)
  qed
  obtain s :: "'v subscriber" where s: "newSubscriber conf = Inr s" using assms(4) by (simp add: newSubscriber_def)
  let ?s = "s\<lparr>ch := offer_last (lastMessage b) (ch s)\<rparr>"
  let ?b = "b\<lparr>subscribers := (subscribers b)(ConsumerGroup conf \<mapsto> next_ref b),
      store := (store b)(next_ref b \<mapsto> ?s), next_ref := Suc (next_ref b)\<rparr>"
  have r: "bc_subscribe conf b = (SubscribeResponse (next_ref b) None, enable_broadcast ?b)"
    using assms(3) s by (simp add: bc_subscribe_def Let_def)
  have c: "ch s = make_chan (nat (BufferSize conf))" using newSubscriber_fields [OF s] by simp
  have "recv_on (enable_broadcast ?b) = (aware \<or> recv_on b)"
    using aware sw by (auto simp: enable_broadcast_def switched_def)
  then show ?thesis using r fresh assms(4)
    by (intro exI [of _ "next_ref b"] exI [of _ ?s] exI [of _ "enable_broadcast ?b"])
      (auto simp: c offer_last_def make_chan_def can_send_def chan_put_def split: option.split)
qed

text \<open>
  A consumer group that is not subscribed gets a channel that no other subscriber has,
  with the last broadcast message in it if there is one and the channel has a buffer, and
  the other subscribers keep theirs. On a subscriber-aware topic publishing is on
  afterwards.
\<close>

theorem subscribe_new_group:
  fixes b :: "'v bcast"
  assumes "fair_run es (bc_init aware)" and "b = bc_run es (bc_init aware)"
    and "subscribers b (ConsumerGroup conf) = None" and "0 \<le> BufferSize conf"
  shows "\<exists>i s b'. bc_subscribe conf b = (SubscribeResponse i None, b') \<and> store b i = None \<and>
    subscribers b' = (subscribers b)(ConsumerGroup conf \<mapsto> i) \<and> store b' = (store b)(i \<mapsto> s) \<and>
    delivered (ch s) = [] \<and> cap (ch s) = nat (BufferSize conf) \<and>
    buf (ch s) = (if BufferSize conf = 0 then []
                  else case lastMessage b of None \<Rightarrow> [] | Some m \<Rightarrow> [m]) \<and>
    recv_on b' = (aware \<or> recv_on b)"
  using assms by (rule subscribe_new_group_base)

theorem subscribe_new_group_witness:
  "let b = bc_run [Request (SubscribeRequest (demo_conf ''a'' 1 None)) [],
                   Publish ''x'' [''a''] (\<lambda>_ _. calm)] (bc_init True)
   in \<exists>i s b'. bc_subscribe (demo_conf ''b'' 3 None) b = (SubscribeResponse i None, b') \<and>
        store b i = None \<and> store b' = (store b)(i \<mapsto> s) \<and> buf (ch s) = [''x'']"
proof -
  let ?es = "[Request (SubscribeRequest (demo_conf ''a'' 1 None)) [],
                   Publish ''x'' [''a''] (\<lambda>_ _. calm)]"
  let ?b = "bc_run ?es (bc_init True) :: string bcast"
  have fair: "fair_run ?es (bc_init True :: string bcast)" by (simp add: demo_simps)
  have new: "subscribers ?b (ConsumerGroup (demo_conf ''b'' 3 None)) = None"
    by (simp add: demo_simps)
  have "lastMessage ?b = Some ''x''" by (simp add: demo_simps)
  with subscribe_new_group [OF fair refl new] show ?thesis
    by (simp only: Let_def) (fastforce simp: demo_conf_def)
qed

text \<open>
  A consumer group that is subscribed already gets the channel it has, together with
  an error when it asked for one, and the topic is as before: a second subscription neither
  replaces the channel nor the configuration.
\<close>

theorem subscribe_existing_group:
  assumes "fair_run es (bc_init aware)" and "b = bc_run es (bc_init aware)"
    and "subscribers b (ConsumerGroup conf) = Some i"
  shows "\<exists>e. bc_subscribe conf b = (SubscribeResponse i e, b) \<and> (e \<noteq> None \<longleftrightarrow> ErrIfExists conf)"
proof -
  have "bc_inv b" using bc_run_inv [OF bc_inv_init assms(1)] assms(2) by simp
  with assms(3) have "enable_broadcast b = b"
    by (auto simp: enable_broadcast_def bc_inv_def switched_def)
  with assms(3) show ?thesis by (simp add: bc_subscribe_def)
qed

theorem subscribe_existing_group_witness:
  "let b = bc_run [Request (SubscribeRequest (demo_conf ''a'' 1 None)) []] (bc_init True)
   in \<exists>e. bc_subscribe (demo_conf ''a'' 3 None) b = (SubscribeResponse 0 e, b :: string bcast) \<and>
        e = None"
proof -
  let ?es = "[Request (SubscribeRequest (demo_conf ''a'' 1 None)) []]"
  let ?b = "bc_run ?es (bc_init True) :: string bcast"
  have fair: "fair_run ?es (bc_init True :: string bcast)" by (simp add: demo_simps)
  have old: "subscribers ?b (ConsumerGroup (demo_conf ''a'' 3 None)) = Some 0"
    by (simp add: demo_simps)
  from subscribe_existing_group [OF fair refl old] show ?thesis
    by (simp only: Let_def) (auto simp: demo_conf_def)
qed

text \<open>
  Unsubscribing a group with the channel it was given closes that channel, removes the
  group and leaves every other subscriber alone; on a subscriber-aware topic publishing
  stops exactly when no group is left. With the channel of another subscriber it is refused
  and nothing changes; a group that is not there is no error and no change.
\<close>

theorem unsubscribe_checks_channel:
  assumes "fair_run es (bc_init aware)" and "b = bc_run es (bc_init aware)"
  shows "case subscribers b n of
      None \<Rightarrow> bc_unsubscribe n c b = (UnsubscribeResponse None, b)
    | Some i \<Rightarrow>
        if i \<noteq> c then \<exists>e. bc_unsubscribe n c b = (UnsubscribeResponse (Some e), b)
        else \<exists>s s' b'. bc_unsubscribe n c b = (UnsubscribeResponse None, b') \<and>
          subscribers b' = (subscribers b)(n := None) \<and>
          store b i = Some s \<and> store b' = (store b)(i \<mapsto> s') \<and> closed (ch s') \<and>
          delivered (ch s') = delivered (ch s) \<and> buf (ch s') = buf (ch s) \<and>
          (if aware then recv_on b' = (subscribers b' \<noteq> Map.empty) else recv_on b' = recv_on b)"
proof -
  have inv: "bc_inv b" using bc_run_inv [OF bc_inv_init assms(1)] assms(2) by simp
  have sw: "switched b" using inv by (simp add: bc_inv_def)
  have aware: "SubscriberAware b = aware" using bc_run_aware [of es "bc_init aware"] assms(2)
    by (simp add: bc_init_def)
  show ?thesis
  proof (cases "subscribers b n")
    case None
    then have "disable_broadcast b = b" using sw by (auto simp: disable_broadcast_def switched_def)
    with None show ?thesis by (simp add: bc_unsubscribe_def)
  next
    case (Some i)
    show ?thesis
    proof (cases "i = c")
      case False
      with Some show ?thesis by (simp add: bc_unsubscribe_def)
    next
      case True
      from bc_inv_stored [OF inv Some] obtain s where s: "store b i = Some s" "\<not> sub_closed s" .
      let ?s = "snd (sub_Close s)"
      let ?b = "b\<lparr>subscribers := (subscribers b)(n := None), store := (store b)(i \<mapsto> ?s)\<rparr>"
      have "if aware then recv_on (disable_broadcast ?b) = ((subscribers b)(n := None) \<noteq> Map.empty)
          else recv_on (disable_broadcast ?b) = recv_on b"
        using sw aware Some by (auto simp: disable_broadcast_def switched_def)
      moreover have "closed (ch ?s)" "delivered (ch ?s) = delivered (ch s)" "buf (ch ?s) = buf (ch s)"
        using s(2) by (simp_all add: sub_Close_def)
      moreover have "bc_unsubscribe n c b = (UnsubscribeResponse None, disable_broadcast ?b)"
        using bc_unsubscribe_found [OF inv Some s(1)] True by simp
      ultimately have "\<exists>s s' b'. bc_unsubscribe n c b = (UnsubscribeResponse None, b') \<and>
          subscribers b' = (subscribers b)(n := None) \<and>
          store b i = Some s \<and> store b' = (store b)(i \<mapsto> s') \<and> closed (ch s') \<and>
          delivered (ch s') = delivered (ch s) \<and> buf (ch s') = buf (ch s) \<and>
          (if aware then recv_on b' = (subscribers b' \<noteq> Map.empty) else recv_on b' = recv_on b)"
        using s(1) by (intro exI [of _ s] exI [of _ ?s] exI [of _ "disable_broadcast ?b"]) simp
      with True Some show ?thesis by simp
    qed
  qed
qed

theorem unsubscribe_checks_channel_witness:
  "let b = bc_run [Request (SubscribeRequest (demo_conf ''a'' 1 None)) []] (bc_init True)
   in (\<exists>e. bc_unsubscribe ''a'' 7 (b :: string bcast) = (UnsubscribeResponse (Some e), b))"
proof -
  let ?es = "[Request (SubscribeRequest (demo_conf ''a'' 1 None)) []]"
  have fair: "fair_run ?es (bc_init True :: string bcast)" by (simp add: demo_simps)
  have old: "subscribers (bc_run ?es (bc_init True) :: string bcast) ''a'' = Some 0"
    by (simp add: demo_simps)
  from unsubscribe_checks_channel [OF fair refl, of "''a''" 7] show ?thesis
    by (simp only: Let_def old option.case)
qed

subsection \<open>Closing\<close>

lemma bc_close_store:
  assumes "bc_inv b" and "store b i = Some s"
  shows "\<exists>s'. store (snd (bc_close order b)) i = Some s' \<and> contents (ch s') = contents (ch s)"
  using bc_request_store [OF assms, of order CloseRequest]
  by (auto simp: bc_request_def sub_Close_contents)

text \<open>
  Closing the topic closes the channel of every subscriber it ever had, empties the
  map and stops publishing for good on a topic that is not subscriber-aware; what was
  buffered stays there for the consumers to receive.
\<close>

theorem close_closes_all:
  assumes "fair_run es (bc_init aware)" and "b = bc_run es (bc_init aware)"
    and "set order = dom (subscribers b)"
  shows "\<exists>b'. bc_close order b = (CloseResponse, b') \<and> subscribers b' = Map.empty \<and>
    \<not> recv_on b' \<and> (\<forall>i s. store b' i = Some s \<longrightarrow> sub_closed s \<and> closed (ch s)) \<and>
    (\<forall>i s. store b i = Some s \<longrightarrow> (\<exists>s'. store b' i = Some s' \<and>
       delivered (ch s') @ buf (ch s') = delivered (ch s) @ buf (ch s)))"
proof -
  have inv: "bc_inv b" using bc_run_inv [OF bc_inv_init assms(1)] assms(2) by simp
  let ?b = "snd (bc_close order b)"
  have e: "subscribers ?b = Map.empty" "\<not> recv_on ?b" "fst (bc_close order b) = CloseResponse"
    using assms(3) by (auto simp: bc_close_def fun_eq_iff)
  have "bc_inv ?b" using bc_close_inv [OF inv assms(3)] .
  then have sto: "stored ?b" by (simp add: bc_inv_def)
  have "store ?b i = Some s \<Longrightarrow> sub_closed s \<and> closed (ch s)" for i s
    using storedD [OF sto, of i s] e by (auto simp: sub_inv_def)
  moreover have "store b i = Some s \<Longrightarrow> (\<exists>s'. store ?b i = Some s' \<and>
       delivered (ch s') @ buf (ch s') = delivered (ch s) @ buf (ch s))" for i s
    using bc_close_store [OF inv, of i s order] by (simp add: contents_def)
  ultimately show ?thesis using e by (intro exI [of _ ?b]) (auto simp: prod_eq_iff)
qed

theorem close_closes_all_witness:
  "let b = bc_run [Request (SubscribeRequest (demo_conf ''a'' 1 None)) []] (bc_init True)
   in \<exists>b'. bc_close [''a''] (b :: string bcast) = (CloseResponse, b') \<and> subscribers b' = Map.empty"
proof -
  let ?es = "[Request (SubscribeRequest (demo_conf ''a'' 1 None)) []]"
  have fair: "fair_run ?es (bc_init True :: string bcast)" by (simp add: demo_simps)
  have d: "set [''a''] = dom (subscribers (bc_run ?es (bc_init True) :: string bcast))"
    by (auto simp: demo_simps)
  from close_closes_all [OF fair refl d] show ?thesis by (simp only: Let_def) blast
qed

subsection \<open>One subscriber that stops the topic\<close>

lemma send_each_fails:
  assumes "bc_inv b" and "distinct order" and "store b i = Some s" and "consumerGroup s \<in> set order"
    and "subscribers b (consumerGroup s) = Some i" and "status b = Running"
    and "\<not> returns (sub_Send (ob (consumerGroup s)) s msg)"
  shows "status (send_each ob msg order b) \<noteq> Running"
proof
  assume "status (send_each ob msg order b) = Running"
  from send_each_all [OF assms(1-6) this] assms(7) show False by auto
qed

lemma stopped_for_good:
  assumes "status b \<noteq> Running"
  shows "subscribers (bc_run es b) = subscribers b \<and> history es b = []"
  using assms
proof (induction es arbitrary: b)
  case (Cons e es)
  have "subscribers (bc_step e b) = subscribers b" "taken e b = []"
    using Cons.prems by (cases e; simp add: bc_consume_def split: option.split)+
  with Cons.IH [of "bc_step e b"] Cons.prems show ?case by (simp add: bc_step_status)
qed simp

text \<open>
  One subscription with \<open>BufferPolicyDropOldestAfterTimeout\<close> takes the whole topic
  down: the next message that is published is not delivered to the end, and from then on
  no message is taken, and no subscriber is added, removed or closed, for any consumer.
\<close>

theorem drop_oldest_after_timeout_stops_topic:
  fixes m :: 'v
  assumes "fair_run (es @ [Request (SubscribeRequest conf) o1, Publish m o2 ob]) (bc_init True)"
    and "status (bc_run es (bc_init True :: 'v bcast)) = Running"
    and "subscribers (bc_run es (bc_init True :: 'v bcast)) (ConsumerGroup conf) = None"
    and "0 \<le> BufferSize conf"
    and "conf_BufferPolicy conf = Some (BufferPolicyDropOldestAfterTimeout timer d)"
    and "b = bc_run (es @ [Request (SubscribeRequest conf) o1, Publish m o2 ob]) (bc_init True)"
  shows "status b \<noteq> Running \<and>
    subscribers (bc_run fs b) = subscribers b \<and> history fs b = []"
proof -
  let ?b0 = "bc_run es (bc_init True) :: 'v bcast"
  let ?b1 = "bc_step (Request (SubscribeRequest conf) o1) ?b0"
  have fair: "fair_run es (bc_init True :: 'v bcast)" "fair_order (Publish m o2 ob) ?b1"
    using assms(1) by (simp_all add: fair_run_append)
  have fair1: "fair_run (es @ [Request (SubscribeRequest conf) o1]) (bc_init True :: 'v bcast)"
    using assms(1) by (simp add: fair_run_append)
  from subscribe_new_group_base [OF fair(1) refl assms(3,4)] obtain i s b1 where
    sub: "bc_subscribe conf ?b0 = (SubscribeResponse i None, b1)"
      "subscribers b1 = (subscribers ?b0)(ConsumerGroup conf \<mapsto> i)"
      "store b1 = (store ?b0)(i \<mapsto> s)" "recv_on b1" "store ?b0 i = None"
    by blast
  have b1: "?b1 = b1" using sub(1) assms(2) by (simp add: bc_request_def)
  have inv: "bc_inv b1"
    using bc_run_inv [OF bc_inv_init fair1] b1 by (simp add: bc_run_append)
  have run: "status b1 = Running"
  proof -
    have "status (snd (bc_subscribe conf ?b0)) = status ?b0"
      using assms(3,4) by (simp add: bc_subscribe_def newSubscriber_def Let_def)
    with sub(1) assms(2) show ?thesis by simp
  qed
  have s: "store b1 i = Some s" using sub(3) by simp
  have g: "subscribers b1 (ConsumerGroup conf) = Some i" using sub(2) by simp
  have n: "consumerGroup s = ConsumerGroup conf" "\<not> sub_closed s"
    using inv registeredD [OF _ g] s by (auto simp: bc_inv_def)
  have "bufferPolicy s = None"
  proof -
    obtain s0 :: "'v subscriber" where s0: "newSubscriber conf = Inr s0"
      using assms(4) by (simp add: newSubscriber_def)
    have "store (snd (bc_subscribe conf ?b0)) i = Some s" using sub(1) s by simp
    from bc_subscribe_store [OF this] sub(5) s0 newSubscriber_fields [OF s0] assms(5)
    show ?thesis by auto
  qed
  then have "\<not> returns (sub_Send (ob (consumerGroup s)) s m)" using n by (simp add: sub_Send_def)
  moreover have "distinct o2" "consumerGroup s \<in> set o2" using fair(2) b1 g n by auto
  ultimately have "status (send_each ob m o2 b1) \<noteq> Running"
    using send_each_fails [OF inv _ s, of o2 ob m] g n run by simp
  then have "status b \<noteq> Running"
    using assms(6) b1 run sub(4) by (simp add: bc_run_append bc_publish_def Let_def)
  with stopped_for_good show ?thesis by blast
qed

theorem drop_oldest_after_timeout_stops_topic_witness:
  "let conf = demo_conf ''a'' 1 (Some (BufferPolicyDropOldestAfterTimeout False Second));
       b = bc_run [Request (SubscribeRequest conf) [], Publish ''x'' [''a''] (\<lambda>_ _. calm)] (bc_init True)
   in status b = Crashed \<and> subscribers (bc_run [Request CloseRequest [''a'']] b) = subscribers b"
proof -
  let ?conf = "demo_conf ''a'' 1 (Some (BufferPolicyDropOldestAfterTimeout False Second))"
  let ?es = "[Request (SubscribeRequest ?conf) [], Publish ''x'' [''a''] (\<lambda>_ _. calm)]"
  have fair: "fair_run ([] @ ?es) (bc_init True :: string bcast)" by (simp add: demo_simps)
  have r: "status (bc_run [] (bc_init True :: string bcast)) = Running"
    "subscribers (bc_run [] (bc_init True :: string bcast)) (ConsumerGroup ?conf) = None"
    "0 \<le> BufferSize ?conf"
    "conf_BufferPolicy ?conf = Some (BufferPolicyDropOldestAfterTimeout False Second)"
    by (simp_all add: bc_init_def demo_conf_def)
  have "status (bc_run ?es (bc_init True :: string bcast)) = Crashed" by (simp add: demo_simps)
  with drop_oldest_after_timeout_stops_topic [OF fair r refl, of "[Request CloseRequest [''a'']]"]
  show ?thesis by (simp only: Let_def append_Nil)
qed

text \<open>
  With the default policy, one consumer that has stopped receiving stops the topic for
  all: once its buffer is full, the next message is never sent to the end, and from then on
  no unsubscribe or close request is served.
\<close>

theorem stalled_consumer_stops_topic:
  assumes "fair_run es (bc_init aware)" and "b = bc_run es (bc_init aware)"
    and "status b = Running"
    and "store b i = Some s" and "subscribers b (consumerGroup s) = Some i"
    and "bufferPolicy s = Some BufferPolicyDropNone"
    and "waiting (ch s) = 0" and "length (buf (ch s)) = cap (ch s)"
    and "o_receives (ob (consumerGroup s) 0) = 0"
    and "distinct order" and "set order = dom (subscribers b)"
    and "b' = bc_publish ob m order b"
  shows "status b' \<noteq> Running \<and> subscribers (bc_run fs b') = subscribers b"
proof -
  have inv: "bc_inv b" using bc_run_inv [OF bc_inv_init assms(1)] assms(2) by simp
  have s: "\<not> sub_closed s" "sub_inv s"
    using inv registeredD [OF _ assms(5)] storedD [OF _ assms(4)] assms(4) by (auto simp: bc_inv_def)
  then have "\<not> returns (sub_Send (ob (consumerGroup s)) s m)"
    using assms(6-9) by (simp add: sub_Send_def handle_DropNone_def Let_def case_stop_def
        case_send_def can_send_def select_or_def with_stop_def sub_inv_def)
  moreover have "consumerGroup s \<in> set order" using assms(5,11) by auto
  ultimately have "status (send_each ob m order b) \<noteq> Running"
    using send_each_fails [OF inv assms(10,4)] assms(3,5) by simp
  then have "status b' \<noteq> Running" "subscribers b' = subscribers b"
    using assms(12) by (simp_all add: bc_publish_def Let_def)
  with stopped_for_good show ?thesis by metis
qed

theorem stalled_consumer_stops_topic_witness:
  "let b = bc_run [Request (SubscribeRequest (demo_conf ''a'' 0 None)) []] (bc_init True);
       b' = bc_publish (\<lambda>_ _. calm) ''x'' [''a''] b
   in status b' \<noteq> Running \<and> subscribers (bc_run [Request CloseRequest [''a'']] b') = subscribers b"
proof -
  let ?es = "[Request (SubscribeRequest (demo_conf ''a'' 0 None)) []]"
  let ?b = "bc_run ?es (bc_init True) :: string bcast"
  have fair: "fair_run ?es (bc_init True :: string bcast)" by (simp add: demo_simps)
  have run: "status ?b = Running" by (simp add: demo_simps)
  obtain s where s: "store ?b 0 = Some s" "subscribers ?b (consumerGroup s) = Some 0"
    "bufferPolicy s = Some BufferPolicyDropNone" "waiting (ch s) = 0" "length (buf (ch s)) = cap (ch s)"
    by (simp add: demo_simps)
  have d: "distinct [''a'']" "set [''a''] = dom (subscribers ?b)" by (auto simp: demo_simps)
  have o: "o_receives ((\<lambda>_ _. calm) (consumerGroup s) (0::nat)) = 0" by (simp add: calm_def)
  from stalled_consumer_stops_topic [OF fair refl run s(1-5) o d refl] show ?thesis
    by (simp only: Let_def) simp
qed

end
