(* ===== verification/Rx_Topic.thy ===== *)
theory Rx_Topic
  imports Rx_BroadcastOps
begin

section \<open>Topics (intracom/topic.go)\<close>

text \<open>
  A topic is the broadcaster's goroutine behind two channels, with an atomic flag
  \<open>closed\<close>. First its three operations as calls that nobody else's call overlaps:
  \<open>requestC\<close> has room then, and the broadcaster answers if it is running. A caller's
  context may be done before the request is taken, or before the response is: then the
  request is served although the caller has given up. A result \<open>None\<close> is a call that
  does not return. The broadcaster is the built-in one.
\<close>

record TopicConfig =
  cfg_Name :: string
  cfg_ErrIfExists :: bool
  cfg_SubscriberAware :: bool

record 'v topic =
  t_name :: string
  publishC_closed :: bool
  requestC_closed :: bool
  t_closed :: bool
  t_bc :: "'v bcast"

definition NewTopic :: "TopicConfig \<Rightarrow> 'v topic" where
  "NewTopic conf =
     \<lparr>t_name = cfg_Name conf, publishC_closed = False, requestC_closed = False, t_closed = False,
      t_bc = bc_init (cfg_SubscriberAware conf)\<rparr>"

datatype ctx_done = BeforeRequest | BeforeResponse | NotDone

text \<open>Sending a request, which a running broadcaster serves.\<close>

definition serve :: "string list \<Rightarrow> request \<Rightarrow> 'v topic \<Rightarrow> response option \<times> 'v topic" where
  "serve order r t =
     (if status (t_bc t) = Running
      then (let (resp, bc) = bc_request order r (t_bc t)
            in (if resp = NoResponse then None else Some resp, t\<lparr>t_bc := bc\<rparr>))
      else (None, t))"

text \<open>
  The result of \<open>Subscribe\<close> is Go's pair of a channel and an error; both are set when
  the group exists and the caller asked for an error.
\<close>

definition topic_Subscribe ::
  "ctx_done \<Rightarrow> SubscriberConfig \<Rightarrow> 'v topic \<Rightarrow> (nat option \<times> string option) option \<times> 'v topic" where
  "topic_Subscribe ctx conf t =
     (if t_closed t then (Some (None, Some ''cannot subscribe, topic already closed''), t)
      else case ctx of
        BeforeRequest \<Rightarrow> (Some (None, Some ''subscribe request cancelled while requesting''), t)
      | BeforeResponse \<Rightarrow>
          (Some (None, Some ''subscribe response cancelled while waiting for response''),
           snd (serve [] (SubscribeRequest conf) t))
      | NotDone \<Rightarrow>
          (case serve [] (SubscribeRequest conf) t of
             (Some (SubscribeResponse i e), t') \<Rightarrow> (Some (Some i, e), t')
           | (_, t') \<Rightarrow> (None, t')))"

text \<open>\<open>Unsubscribe\<close> waits with a context of its own, which is done after two seconds.\<close>

definition topic_Unsubscribe ::
  "ctx_done \<Rightarrow> string \<Rightarrow> nat \<Rightarrow> 'v topic \<Rightarrow> string option \<times> 'v topic" where
  "topic_Unsubscribe ctx consumer c t =
     (if t_closed t then (Some ''cannot unsubscribe, topic already closed'', t)
      else case ctx of
        BeforeRequest \<Rightarrow> (Some ''unsubscribe request timed out'', t)
      | BeforeResponse \<Rightarrow>
          (Some ''unsubscribe response timed out'', snd (serve [] (UnsubscribeRequest consumer c) t))
      | NotDone \<Rightarrow>
          (case serve [] (UnsubscribeRequest consumer c) t of
             (Some (UnsubscribeResponse e), t') \<Rightarrow> (e, t')
           | (_, t') \<Rightarrow> (Some ''unsubscribe response timed out'', t')))"

definition topic_Close :: "string list \<Rightarrow> 'v topic \<Rightarrow> string option option \<times> 'v topic" where
  "topic_Close order t =
     (if t_closed t then (Some (Some ''topic already closed''), t)
      else case serve order CloseRequest (t\<lparr>t_closed := True\<rparr>) of
        (Some CloseResponse, t') \<Rightarrow>
          (Some None,
           t'\<lparr>requestC_closed := True, publishC_closed := True,
              t_bc := bc_step RequestsClosed (t_bc t')\<rparr>)
      | (_, t') \<Rightarrow> (None, t'))"

subsection \<open>The invariant of a topic\<close>

text \<open>
  The broadcaster keeps its own invariant; a topic that is not closed has its channels
  open; and once both are closed the broadcaster has no subscriber left and is done.
\<close>

definition topic_inv :: "'v topic \<Rightarrow> bool" where
  "topic_inv t \<longleftrightarrow> bc_inv (t_bc t) \<and>
     (requestC_closed t = publishC_closed t) \<and> (requestC_closed t \<longrightarrow> t_closed t) \<and>
     (requestC_closed t \<longrightarrow> status (t_bc t) = Done \<and> subscribers (t_bc t) = Map.empty)"

lemma topic_inv_new [inv_intros]: "topic_inv (NewTopic conf)"
  by (simp add: topic_inv_def NewTopic_def bc_inv_init)

lemma serve_frame [simp]:
  "t_closed (snd (serve order r t)) = t_closed t"
  "requestC_closed (snd (serve order r t)) = requestC_closed t"
  "publishC_closed (snd (serve order r t)) = publishC_closed t"
  "t_name (snd (serve order r t)) = t_name t"
  by (simp_all add: serve_def split_def Let_def)

lemma serve_bc:
  "t_bc (snd (serve order r t)) =
     (if status (t_bc t) = Running then snd (bc_request order r (t_bc t)) else t_bc t)"
  by (simp add: serve_def split_def Let_def)

lemma bc_request_inv_any:
  assumes "bc_inv b" and "\<And>x. r \<noteq> CloseRequest"
  shows "bc_inv (snd (bc_request order r b))"
  using assms by (cases r) (simp_all add: bc_request_def bc_subscribe_inv bc_unsubscribe_inv)

lemma serve_inv:
  assumes "topic_inv t" and "r \<noteq> CloseRequest"
  shows "topic_inv (snd (serve order r t))"
  using assms bc_request_inv_any [of "t_bc t" r order]
  by (auto simp: topic_inv_def serve_bc)

lemma topic_Subscribe_state:
  "snd (topic_Subscribe ctx conf t) =
     (if t_closed t \<or> ctx = BeforeRequest then t else snd (serve [] (SubscribeRequest conf) t))"
  by (cases ctx) (auto simp: topic_Subscribe_def split: prod.split option.split response.split)

lemma topic_Unsubscribe_state:
  "snd (topic_Unsubscribe ctx n c t) =
     (if t_closed t \<or> ctx = BeforeRequest then t else snd (serve [] (UnsubscribeRequest n c) t))"
  by (cases ctx) (auto simp: topic_Unsubscribe_def split: prod.split option.split response.split)

lemma topic_Subscribe_inv [inv_intros]:
  "topic_inv t \<Longrightarrow> topic_inv (snd (topic_Subscribe ctx conf t))"
  by (simp add: topic_Subscribe_state serve_inv)

lemma topic_Unsubscribe_inv [inv_intros]:
  "topic_inv t \<Longrightarrow> topic_inv (snd (topic_Unsubscribe ctx n c t))"
  by (simp add: topic_Unsubscribe_state serve_inv)

lemma topic_Close_running:
  assumes "\<not> t_closed t" and "status (t_bc t) = Running"
  shows "topic_Close order t = (Some None,
    t\<lparr>t_closed := True, requestC_closed := True, publishC_closed := True,
      t_bc := (snd (bc_close order (t_bc t)))\<lparr>status := Done\<rparr>\<rparr>)"
proof -
  have "status (snd (bc_close order (t_bc t))) = Running"
    using assms(2) by (simp add: bc_close_def)
  with assms show ?thesis
    by (simp add: topic_Close_def serve_def bc_request_def bc_close_def Let_def)
qed

lemma topic_Close_stuck:
  assumes "\<not> t_closed t" and "status (t_bc t) \<noteq> Running"
  shows "topic_Close order t = (None, t\<lparr>t_closed := True\<rparr>)"
  using assms by (simp add: topic_Close_def serve_def)

lemma topic_Close_inv [inv_intros]:
  assumes inv: "topic_inv t" and order: "set order = dom (subscribers (t_bc t))"
  shows "topic_inv (snd (topic_Close order t))"
proof (cases "t_closed t")
  case True
  with inv show ?thesis by (simp add: topic_Close_def)
next
  case False
  show ?thesis
  proof (cases "status (t_bc t) = Running")
    case True
    have "bc_inv (snd (bc_close order (t_bc t)))"
      using inv order by (auto simp: topic_inv_def intro: bc_close_inv)
    moreover have "subscribers (snd (bc_close order (t_bc t))) = Map.empty"
      using order by (auto simp: bc_close_def fun_eq_iff)
    ultimately show ?thesis
      by (simp add: topic_Close_running [OF False True] topic_inv_def)
  next
    case stuck: False
    with False inv show ?thesis by (simp add: topic_Close_stuck [OF False stuck] topic_inv_def)
  qed
qed

subsection \<open>Reachable topics\<close>

text \<open>
  The topics that calls and traffic lead to. Traffic is what the broadcaster does between
  the calls: it takes messages, as long as \<open>publishC\<close> is open, and consumers receive.
\<close>

definition traffic :: "'v topic \<Rightarrow> 'v event \<Rightarrow> bool" where
  "traffic t e \<longleftrightarrow> fair_order e (t_bc t) \<and>
     (case e of Publish m order ob \<Rightarrow> \<not> publishC_closed t | Consume i \<Rightarrow> True | _ \<Rightarrow> False)"

inductive topic_reach :: "TopicConfig \<Rightarrow> 'v topic \<Rightarrow> bool" for conf where
  new: "topic_reach conf (NewTopic conf)"
| sub: "topic_reach conf t \<Longrightarrow> topic_reach conf (snd (topic_Subscribe ctx c t))"
| unsub: "topic_reach conf t \<Longrightarrow> topic_reach conf (snd (topic_Unsubscribe ctx n i t))"
| close_call: "topic_reach conf t \<Longrightarrow> set order = dom (subscribers (t_bc t)) \<Longrightarrow>
    topic_reach conf (snd (topic_Close order t))"
| traffic: "topic_reach conf t \<Longrightarrow> traffic t e \<Longrightarrow>
    topic_reach conf (t\<lparr>t_bc := bc_step e (t_bc t)\<rparr>)"

lemma traffic_inv [inv_intros]:
  assumes inv: "topic_inv t" and e: "traffic t e"
  shows "topic_inv (t\<lparr>t_bc := bc_step e (t_bc t)\<rparr>)"
proof -
  have step: "bc_inv (bc_step e (t_bc t))"
    using inv e by (simp add: topic_inv_def traffic_def bc_step_inv)
  have "requestC_closed t \<Longrightarrow>
      status (bc_step e (t_bc t)) = Done \<and> subscribers (bc_step e (t_bc t)) = Map.empty"
    using inv e by (cases e)
      (auto simp: topic_inv_def traffic_def bc_consume_def split: option.split)
  with step inv show ?thesis by (simp add: topic_inv_def)
qed

lemma topic_reach_inv: "topic_reach conf t \<Longrightarrow> topic_inv t"
  by (induction rule: topic_reach.induct) (simp_all add: inv_intros)

lemma serve_aware:
  "SubscriberAware (t_bc (snd (serve order r t))) = SubscriberAware (t_bc t)"
  by (simp add: serve_bc bc_request_aware)

lemma topic_reach_aware: "topic_reach conf t \<Longrightarrow> SubscriberAware (t_bc t) = cfg_SubscriberAware conf"
proof (induction rule: topic_reach.induct)
  case (close_call t order)
  then show ?case
    by (cases "t_closed t"; cases "status (t_bc t) = Running")
      (simp_all add: topic_Close_running topic_Close_stuck bc_close_def, simp_all add: topic_Close_def)
qed (simp_all add: NewTopic_def bc_init_def topic_Subscribe_state topic_Unsubscribe_state serve_aware)

text \<open>
  \<open>Close\<close> of a topic whose broadcaster runs returns nil, closes the channel of every
  subscriber the topic ever had, and is final: from then on \<open>Subscribe\<close>,
  \<open>Unsubscribe\<close> and \<open>Close\<close> return an error and change nothing.
\<close>

theorem topic_close_is_final:
  assumes "topic_reach conf t" and "\<not> t_closed t" and "status (t_bc t) = Running"
    and "set order = dom (subscribers (t_bc t))"
  shows "\<exists>t'. topic_Close order t = (Some None, t') \<and>
    (\<forall>i s. store (t_bc t') i = Some s \<longrightarrow> closed (ch s)) \<and>
    (\<exists>e. \<forall>ctx c. topic_Subscribe ctx c t' = (Some (None, Some e), t')) \<and>
    (\<exists>e. \<forall>ctx n i. topic_Unsubscribe ctx n i t' = (Some e, t')) \<and>
    (\<exists>e. \<forall>o2. topic_Close o2 t' = (Some (Some e), t'))"
proof -
  let ?t = "snd (topic_Close order t)"
  have r: "topic_Close order t = (Some None, ?t)" and c: "t_closed ?t" "requestC_closed ?t"
    by (simp_all add: topic_Close_running [OF assms(2,3)])
  have "topic_inv ?t" using topic_Close_inv [OF topic_reach_inv [OF assms(1)] assms(4)] .
  then have sto: "stored (t_bc ?t)" and e: "subscribers (t_bc ?t) = Map.empty"
    using c by (auto simp: topic_inv_def bc_inv_def)
  have "store (t_bc ?t) i = Some s \<Longrightarrow> closed (ch s)" for i s
    using storedD [OF sto, of i s] e by (auto simp: sub_inv_def)
  moreover have "topic_Subscribe ctx cf ?t = (Some (None, Some ''cannot subscribe, topic already closed''), ?t)"
    "topic_Unsubscribe ctx n i ?t = (Some ''cannot unsubscribe, topic already closed'', ?t)"
    "topic_Close o2 ?t = (Some (Some ''topic already closed''), ?t)" for ctx cf n i o2
    using c(1) by (simp_all add: topic_Subscribe_def topic_Unsubscribe_def topic_Close_def)
  ultimately show ?thesis by (intro exI [of _ ?t]) (blast intro: r)
qed

text \<open>A topic with the configuration \<open>conf\<close> and one subscriber, for the witnesses.\<close>

definition demo_topic :: "string \<Rightarrow> 'v topic" where
  "demo_topic g = snd (topic_Subscribe NotDone (demo_conf g 1 None)
     (NewTopic \<lparr>cfg_Name = ''t'', cfg_ErrIfExists = True, cfg_SubscriberAware = True\<rparr>))"

lemma demo_topic_reach:
  "topic_reach \<lparr>cfg_Name = ''t'', cfg_ErrIfExists = True, cfg_SubscriberAware = True\<rparr> (demo_topic g)"
  unfolding demo_topic_def by (intro topic_reach.intros)

lemma demo_topic_simps:
  "\<not> t_closed (demo_topic g)" "status (t_bc (demo_topic g)) = Running"
  "subscribers (t_bc (demo_topic g)) = [g \<mapsto> 0]"
  by (simp_all add: demo_topic_def topic_Subscribe_state NewTopic_def serve_bc demo_simps)

theorem topic_close_is_final_witness:
  "\<exists>t'. topic_Close [''a''] (demo_topic ''a'' :: string topic) = (Some None, t') \<and>
    (\<exists>e. topic_Close [] t' = (Some (Some e), t'))"
proof -
  have "set [''a''] = dom (subscribers (t_bc (demo_topic ''a'' :: string topic)))"
    by (simp add: demo_topic_simps)
  from topic_close_is_final [OF demo_topic_reach demo_topic_simps(1,2) this] show ?thesis by blast
qed

lemma subscribe_unsubscribe_roundtrip_base:
  assumes "topic_reach conf t" and "\<not> t_closed t" and "status (t_bc t) = Running"
    and "subscribers (t_bc t) (ConsumerGroup c) = None" and "0 \<le> BufferSize c"
  shows "\<exists>i t1 t2 s. topic_Subscribe NotDone c t = (Some (Some i, None), t1) \<and>
    topic_Unsubscribe NotDone (ConsumerGroup c) i t1 = (None, t2) \<and>
    subscribers (t_bc t2) = subscribers (t_bc t) \<and> recv_on (t_bc t2) = recv_on (t_bc t) \<and>
    store (t_bc t2) i = Some s \<and> closed (ch s)"
proof -
  let ?b = "t_bc t" and ?g = "ConsumerGroup c"
  have inv: "bc_inv ?b" and sw: "switched ?b"
    using topic_reach_inv [OF assms(1)] by (auto simp: topic_inv_def bc_inv_def)
  obtain s0 :: "'a subscriber" where "newSubscriber c = Inr s0"
    using assms(5) by (simp add: newSubscriber_def)
  then obtain i b1 where b1: "bc_subscribe c ?b = (SubscribeResponse i None, b1)"
    "subscribers b1 = (subscribers ?b)(?g \<mapsto> i)" "status b1 = Running"
    using assms(3,4) by (simp add: bc_subscribe_def Let_def)
  have inv1: "bc_inv b1" using bc_subscribe_inv [OF inv, of c] b1(1) by simp
  have g1: "subscribers b1 ?g = Some i" using b1(2) by simp
  from bc_inv_stored [OF inv1 g1] obtain s where s: "store b1 i = Some s" "\<not> sub_closed s" .
  note found = bc_unsubscribe_found [OF inv1 g1 s(1)]
  let ?b2 = "snd (bc_unsubscribe ?g i b1)"
  have sub2: "subscribers ?b2 = subscribers ?b" using found b1(2) assms(4) by (auto simp: fun_eq_iff)
  have inv2: "bc_inv ?b2" using bc_unsubscribe_inv [OF inv1] .
  have aware: "SubscriberAware ?b2 = SubscriberAware ?b" "SubscriberAware b1 = SubscriberAware ?b"
    using bc_unsubscribe_aware [of ?g i b1] bc_subscribe_aware [of c ?b] b1(1) by simp_all
  have "recv_on ?b2 = recv_on ?b"
  proof (cases "SubscriberAware ?b")
    case True
    with inv2 sw aware sub2 show ?thesis by (simp add: bc_inv_def switched_def)
  next
    case False
    moreover have "recv_on b1 = recv_on ?b"
      using b1(1) assms(4) False \<open>newSubscriber c = Inr s0\<close>
      by (auto simp: bc_subscribe_def Let_def enable_broadcast_def)
    ultimately show ?thesis using aware found by (simp add: disable_broadcast_def)
  qed
  moreover have "topic_Subscribe NotDone c t = (Some (Some i, None), t\<lparr>t_bc := b1\<rparr>)"
    using assms(2,3) b1(1) by (simp add: topic_Subscribe_def serve_def bc_request_def)
  moreover have "topic_Unsubscribe NotDone ?g i (t\<lparr>t_bc := b1\<rparr>) = (None, t\<lparr>t_bc := ?b2\<rparr>)"
    using assms(2) b1(3) found by (simp add: topic_Unsubscribe_def serve_def bc_request_def)
  moreover have "store ?b2 i = Some (snd (sub_Close s))" using found by simp
  ultimately show ?thesis
    using sub2 sub_Close_open [OF s(2)]
    by (intro exI [of _ i] exI [of _ "t\<lparr>t_bc := b1\<rparr>"] exI [of _ "t\<lparr>t_bc := ?b2\<rparr>"]
        exI [of _ "snd (sub_Close s)"]) simp
qed



text \<open>
  The subscription that nobody has. When the caller's context is done while
  \<open>Subscribe\<close> waits for the response, it returns an error and no channel, but the group is
  subscribed all the same, with a channel that no one can unsubscribe or receive from:
  under the default policy the messages it is sent stay, and once the buffer is full the
  topic stops.
\<close>

theorem cancelled_subscribe_still_subscribes:
  assumes "topic_reach conf t" and "\<not> t_closed t" and "status (t_bc t) = Running"
    and "subscribers (t_bc t) (ConsumerGroup c) = None" and "0 \<le> BufferSize c"
  shows "\<exists>e t'. topic_Subscribe BeforeResponse c t = (Some (None, Some e), t') \<and>
    subscribers (t_bc t') (ConsumerGroup c) \<noteq> None \<and>
    snd (topic_Subscribe NotDone c t) = t' \<and>
    topic_Subscribe BeforeRequest c t = (Some (None, Some ''subscribe request cancelled while requesting''), t)"
proof -
  obtain s0 :: "'a subscriber" where "newSubscriber c = Inr s0"
    using assms(5) by (simp add: newSubscriber_def)
  then have "subscribers (snd (bc_subscribe c (t_bc t))) (ConsumerGroup c) \<noteq> None"
    using assms(4) by (simp add: bc_subscribe_def Let_def)
  with assms(2,3) show ?thesis
    by (simp add: topic_Subscribe_state serve_bc bc_request_def)
      (simp add: topic_Subscribe_def)
qed

theorem cancelled_subscribe_still_subscribes_witness:
  "\<exists>e t'. topic_Subscribe BeforeResponse (demo_conf ''b'' 2 None) (demo_topic ''a'' :: string topic) =
      (Some (None, Some e), t') \<and> subscribers (t_bc t') ''b'' \<noteq> None"
proof -
  let ?c = "demo_conf ''b'' 2 None"
  have "subscribers (t_bc (demo_topic ''a'' :: string topic)) (ConsumerGroup ?c) = None" "0 \<le> BufferSize ?c"
    by (simp_all add: demo_topic_simps demo_conf_def)
  from cancelled_subscribe_still_subscribes [OF demo_topic_reach demo_topic_simps(1,2) this]
  show ?thesis by (auto simp: demo_conf_def)
qed


text \<open>A topic that waits in vain for a consumer that takes nothing.\<close>

definition hung_topic :: "string topic" where
  "hung_topic = (demo_topic ''a'')\<lparr>t_bc := bc_step (Publish ''y'' [''a''] (\<lambda>_ _. calm))
     (bc_step (Publish ''x'' [''a''] (\<lambda>_ _. calm)) (t_bc (demo_topic ''a'')))\<rparr>"


end
