(* ===== verification/Rx_TopicRaces.thy ===== *)
theory Rx_TopicRaces
  imports Rx_Topic
begin

section \<open>Overlapping calls on a topic (intracom/topic.go)\<close>

text \<open>
  The steps of \<open>Subscribe\<close>, \<open>Unsubscribe\<close> and \<open>Close\<close> when several goroutines call them at
  once, interleaved with the broadcaster's goroutine. A caller is at the statement that its
  program counter names. \<open>requestC\<close> is a queue of at most one request with its
  caller; each caller has a response channel of its own. The context of a \<open>Subscribe\<close> may
  be done, and the two seconds of an \<open>Unsubscribe\<close> may be over, at any moment.
\<close>

datatype pc =
    SubCheck SubscriberConfig
  | SubSend SubscriberConfig
  | SubWait
  | SubDone "nat option" "string option"
  | UnsCheck string nat
  | UnsSend string nat
  | UnsWait
  | UnsDone "string option"
  | CloSwap
  | CloSend
  | CloWait
  | CloCloseReq
  | CloClosePub
  | CloDone "string option"
  | Panicked_at string

record 'v tsys =
  s_closed :: bool
  s_queue :: "(nat \<times> request) list"
  s_req_closed :: bool
  s_pub_closed :: bool
  s_bc :: "'v bcast"
  s_threads :: "nat \<rightharpoonup> pc"
  s_answers :: "nat \<rightharpoonup> response"

definition goto :: "nat \<Rightarrow> pc \<Rightarrow> 'v tsys \<Rightarrow> 'v tsys" where
  "goto i p s = s\<lparr>s_threads := (s_threads s)(i \<mapsto> p)\<rparr>"

text \<open>
  The next statement of a caller; \<open>None\<close> when it has to wait or has returned. A send on
  a closed channel and a second \<open>close\<close> of a channel panic.
\<close>

fun caller_step :: "nat \<Rightarrow> pc \<Rightarrow> 'v tsys \<Rightarrow> 'v tsys option" where
  "caller_step i (SubCheck c) s =
     Some (goto i (if s_closed s
                   then SubDone None (Some ''cannot subscribe, topic already closed'')
                   else SubSend c) s)"
| "caller_step i (SubSend c) s =
     (if s_req_closed s then Some (goto i (Panicked_at ''send on closed channel'') s)
      else if s_queue s = []
      then Some (goto i SubWait (s\<lparr>s_queue := [(i, SubscribeRequest c)]\<rparr>))
      else None)"
| "caller_step i SubWait s =
     (case s_answers s i of
        Some (SubscribeResponse r e) \<Rightarrow> Some (goto i (SubDone (Some r) e) s)
      | _ \<Rightarrow> None)"
| "caller_step i (UnsCheck consumer c) s =
     Some (goto i (if s_closed s
                   then UnsDone (Some ''cannot unsubscribe, topic already closed'')
                   else UnsSend consumer c) s)"
| "caller_step i (UnsSend consumer c) s =
     (if s_req_closed s then Some (goto i (Panicked_at ''send on closed channel'') s)
      else if s_queue s = []
      then Some (goto i UnsWait (s\<lparr>s_queue := [(i, UnsubscribeRequest consumer c)]\<rparr>))
      else None)"
| "caller_step i UnsWait s =
     (case s_answers s i of
        Some (UnsubscribeResponse e) \<Rightarrow> Some (goto i (UnsDone e) s)
      | _ \<Rightarrow> None)"
| "caller_step i CloSwap s =
     Some (if s_closed s then goto i (CloDone (Some ''topic already closed'')) s
           else goto i CloSend (s\<lparr>s_closed := True\<rparr>))"
| "caller_step i CloSend s =
     (if s_req_closed s then Some (goto i (Panicked_at ''send on closed channel'') s)
      else if s_queue s = [] then Some (goto i CloWait (s\<lparr>s_queue := [(i, CloseRequest)]\<rparr>))
      else None)"
| "caller_step i CloWait s =
     (case s_answers s i of Some CloseResponse \<Rightarrow> Some (goto i CloCloseReq s) | _ \<Rightarrow> None)"
| "caller_step i CloCloseReq s =
     Some (if s_req_closed s then goto i (Panicked_at ''close of closed channel'') s
           else goto i CloClosePub (s\<lparr>s_req_closed := True\<rparr>))"
| "caller_step i CloClosePub s =
     Some (if s_pub_closed s then goto i (Panicked_at ''close of closed channel'') s
           else goto i (CloDone None) (s\<lparr>s_pub_closed := True\<rparr>))"
| "caller_step i (SubDone r e) s = None"
| "caller_step i (UnsDone e) s = None"
| "caller_step i (CloDone e) s = None"
| "caller_step i (Panicked_at p) s = None"

text \<open>
  The case \<open><-ctx.Done()\<close> of a select: a caller that waits, to send its request or for the
  answer, gives up. The select may take it also when the other case is ready.
\<close>

fun give_up :: "pc \<Rightarrow> pc option" where
  "give_up (SubSend c) = Some (SubDone None (Some ''subscribe request cancelled while requesting''))"
| "give_up SubWait =
     Some (SubDone None (Some ''subscribe response cancelled while waiting for response''))"
| "give_up (UnsSend consumer c) = Some (UnsDone (Some ''unsubscribe request timed out''))"
| "give_up UnsWait = Some (UnsDone (Some ''unsubscribe response timed out''))"
| "give_up _ = None"

text \<open>
  A step of the system: a caller's statement; a caller gives up; the broadcaster takes a request and
  answers it; it finds \<open>requestC\<close> closed, which a channel shows once it is empty; or
  messages are published and received.
\<close>

inductive tstep :: "'v tsys \<Rightarrow> 'v tsys \<Rightarrow> bool" where
  caller: "s_threads s i = Some p \<Longrightarrow> caller_step i p s = Some s' \<Longrightarrow> tstep s s'"
| gave_up: "s_threads s i = Some p \<Longrightarrow> give_up p = Some q \<Longrightarrow> tstep s (goto i q s)"
| served: "s_queue s = [(i, r)] \<Longrightarrow> status (s_bc s) = Running \<Longrightarrow>
    fair_order (Request r order) (s_bc s) \<Longrightarrow> bc_request order r (s_bc s) = (resp, b) \<Longrightarrow>
    tstep s (s\<lparr>s_queue := [], s_bc := b, s_answers := (s_answers s)(i \<mapsto> resp)\<rparr>)"
| ended: "s_queue s = [] \<Longrightarrow> s_req_closed s \<Longrightarrow>
    tstep s (s\<lparr>s_bc := bc_step RequestsClosed (s_bc s)\<rparr>)"
| moved: "fair_order e (s_bc s) \<Longrightarrow>
    (case e of Publish m order ob \<Rightarrow> \<not> s_pub_closed s | Consume i \<Rightarrow> True | _ \<Rightarrow> False) \<Longrightarrow>
    tstep s (s\<lparr>s_bc := bc_step e (s_bc s)\<rparr>)"

inductive_cases tstep_elim: "tstep s s'"

definition tsys_init :: "bool \<Rightarrow> (nat \<rightharpoonup> pc) \<Rightarrow> 'v tsys" where
  "tsys_init aware ths =
     \<lparr>s_closed = False, s_queue = [], s_req_closed = False, s_pub_closed = False,
      s_bc = bc_init aware, s_threads = ths, s_answers = Map.empty\<rparr>"

text \<open>Every caller is about to call \<open>Subscribe\<close>, \<open>Unsubscribe\<close> or \<open>Close\<close>.\<close>

definition all_start :: "(nat \<rightharpoonup> pc) \<Rightarrow> bool" where
  "all_start ths \<longleftrightarrow> (\<forall>i p. ths i = Some p \<longrightarrow> 
     p = CloSwap \<or> (\<exists>c. p = SubCheck c) \<or> (\<exists>g c. p = UnsCheck g c))"

definition treach :: "'v tsys \<Rightarrow> 'v tsys \<Rightarrow> bool" where
  "treach = tstep\<^sup>*\<^sup>*"

subsection \<open>Only one call closes\<close>

text \<open>
  The call of \<open>Close\<close> that found \<open>closed\<close> unset is the only one past the swap. The
  channels are closed by it alone, once each.
\<close>

fun closing :: "pc \<Rightarrow> bool" where
  "closing CloSend = True"
| "closing CloWait = True"
| "closing CloCloseReq = True"
| "closing CloClosePub = True"
| "closing (CloDone e) = (e = None)"
| "closing _ = False"

text \<open>A caller of \<open>Close\<close> is inside \<open>Close\<close>.\<close>

fun clo_pc :: "pc \<Rightarrow> bool" where
  "clo_pc CloSwap = True"
| "clo_pc CloSend = True"
| "clo_pc CloWait = True"
| "clo_pc CloCloseReq = True"
| "clo_pc CloClosePub = True"
| "clo_pc (CloDone e) = True"
| "clo_pc _ = False"

text \<open>What is closed already where the closing call stands: \<open>requestC\<close>, \<open>publishC\<close>.\<close>

fun closed_at :: "pc \<Rightarrow> bool \<times> bool" where
  "closed_at CloClosePub = (True, False)"
| "closed_at (CloDone e) = (True, True)"
| "closed_at _ = (False, False)"

definition nobody_closing :: "'v tsys \<Rightarrow> nat set \<Rightarrow> bool" where
  "nobody_closing s except \<longleftrightarrow>
     (\<forall>j q. s_threads s j = Some q \<longrightarrow> closing q \<longrightarrow> j \<in> except)"

definition close_inv :: "'v tsys \<Rightarrow> bool" where
  "close_inv s \<longleftrightarrow>
     (\<not> s_closed s \<and> \<not> s_req_closed s \<and> \<not> s_pub_closed s \<and> nobody_closing s {}) \<or>
     (s_closed s \<and> (\<exists>k p. s_threads s k = Some p \<and> closing p \<and> nobody_closing s {k} \<and>
        (s_req_closed s, s_pub_closed s) = closed_at p))"

lemma close_invE [consumes 1, case_names idle owned]:
  assumes "close_inv s"
  obtains "\<not> s_closed s" "\<not> s_req_closed s" "\<not> s_pub_closed s" "nobody_closing s {}"
  | k p where "s_closed s" "s_threads s k = Some p" "closing p" "nobody_closing s {k}"
    "(s_req_closed s, s_pub_closed s) = closed_at p"
  using assms unfolding close_inv_def by blast

text \<open>What may go wrong is a \<open>Subscribe\<close> or \<open>Unsubscribe\<close> that has passed its check.\<close>

definition only_late_sends_panic :: "'v tsys \<Rightarrow> bool" where
  "only_late_sends_panic s \<longleftrightarrow>
     (\<forall>i m. s_threads s i = Some (Panicked_at m) \<longrightarrow> m = ''send on closed channel'' \<and> s_closed s)"

lemma close_inv_init: "all_start ths \<Longrightarrow> close_inv (tsys_init aware ths)"
  by (fastforce simp: close_inv_def nobody_closing_def tsys_init_def all_start_def)

lemma close_inv_frame:
  assumes "close_inv s" and "s_threads s' = s_threads s" and "s_closed s' = s_closed s"
    and "s_req_closed s' = s_req_closed s" and "s_pub_closed s' = s_pub_closed s"
  shows "close_inv s'"
  using assms by (simp add: close_inv_def nobody_closing_def)

lemma goto_fields [simp]:
  "s_threads (goto i q s) = (s_threads s)(i \<mapsto> q)" "s_closed (goto i q s) = s_closed s"
  "s_req_closed (goto i q s) = s_req_closed s" "s_pub_closed (goto i q s) = s_pub_closed s"
  "s_queue (goto i q s) = s_queue s" "s_bc (goto i q s) = s_bc s"
  "s_answers (goto i q s) = s_answers s"
  by (simp_all add: goto_def)

lemma close_inv_ownedI:
  "s_closed s \<Longrightarrow> s_threads s k = Some p \<Longrightarrow> closing p \<Longrightarrow> nobody_closing s {k} \<Longrightarrow>
     (s_req_closed s, s_pub_closed s) = closed_at p \<Longrightarrow> close_inv s"
  unfolding close_inv_def by blast

lemma nobody_closing_upd:
  "nobody_closing s X \<Longrightarrow> s_threads s' = (s_threads s)(i \<mapsto> q) \<Longrightarrow> \<not> closing q \<or> i \<in> X \<Longrightarrow>
     nobody_closing s' X"
  by (simp add: nobody_closing_def)

text \<open>A caller that is not closing moves on without starting to close.\<close>

lemma close_inv_other:
  assumes inv: "close_inv s" and "s_threads s i = Some p" and "\<not> closing p" and "\<not> closing q"
  shows "close_inv (goto i q s)"
  using inv
proof (cases rule: close_invE)
  case idle
  with assms(4) nobody_closing_upd [OF idle(4), of "goto i q s" i q] show ?thesis
    by (simp add: close_inv_def)
next
  case (owned k r)
  with assms have "k \<noteq> i" by auto
  with owned assms(4) nobody_closing_upd [OF owned(4), of "goto i q s" i q] show ?thesis
    by (intro close_inv_ownedI [of _ k r]) simp_all
qed

text \<open>The first call of \<open>Close\<close> begins, or the closing call moves on.\<close>

lemma close_inv_begin:
  assumes "close_inv s" and "\<not> s_closed s"
  shows "close_inv (goto i CloSend (s\<lparr>s_closed := True\<rparr>))"
  using assms by (auto simp: close_inv_def nobody_closing_def)

lemma close_inv_owner:
  assumes inv: "close_inv s" and p: "s_threads s i = Some p" "closing p" and q: "closing q"
    and s': "s_threads s' = (s_threads s)(i \<mapsto> q)" "s_closed s' = s_closed s"
    and fl: "(s_req_closed s', s_pub_closed s') = closed_at q"
  shows "close_inv s'"
  using inv
proof (cases rule: close_invE)
  case idle
  with p show ?thesis by (auto simp: nobody_closing_def)
next
  case (owned k r)
  with p have "k = i" by (auto simp: nobody_closing_def)
  with owned q s' fl nobody_closing_upd [OF owned(4) s'(1)] show ?thesis
    by (intro close_inv_ownedI [of _ k q]) simp_all
qed

lemma close_inv_flags:
  assumes inv: "close_inv s" and p: "s_threads s i = Some p" "closing p"
  shows "s_closed s \<and> (s_req_closed s, s_pub_closed s) = closed_at p"
  using inv
proof (cases rule: close_invE)
  case idle
  with p show ?thesis by (auto simp: nobody_closing_def)
next
  case (owned k r)
  with p have "k = i" by (auto simp: nobody_closing_def)
  with owned p show ?thesis by simp
qed

lemma close_inv_queue: "close_inv (s\<lparr>s_queue := x\<rparr>) = close_inv s"
  by (simp add: close_inv_def nobody_closing_def)

lemma give_up_closing: "give_up p = Some q \<Longrightarrow> \<not> closing p \<and> \<not> closing q \<and> \<not> clo_pc p"
  by (induction p rule: give_up.induct) auto

lemma give_up_no_panic: "give_up p = Some q \<Longrightarrow> q \<noteq> Panicked_at m"
  by (induction p rule: give_up.induct) auto

lemma caller_step_inv:
  assumes inv: "close_inv s" and p: "s_threads s i = Some p" and step: "caller_step i p s = Some s'"
  shows "close_inv s'"
proof (cases p)
  case (SubCheck c)
  have "close_inv (goto i q s)" if "\<not> closing q" for q
    using inv p SubCheck that by (intro close_inv_other [of _ _ p]) simp_all
  then show ?thesis using step SubCheck by auto
next
  case (SubSend c)
  have "close_inv (goto i SubWait (s\<lparr>s_queue := x\<rparr>))" for x
    using inv p SubSend by (intro close_inv_other [of _ _ p]) (simp_all add: close_inv_queue)
  moreover have "close_inv (goto i (Panicked_at m) s)" for m
    using inv p SubSend by (intro close_inv_other [of _ _ p]) simp_all
  ultimately show ?thesis using step SubSend by (auto split: if_splits)
next
  case SubWait
  have "close_inv (goto i (SubDone r e) s)" for r e
    using inv p SubWait by (intro close_inv_other [of _ _ p]) simp_all
  then show ?thesis using step SubWait by (auto split: option.splits response.splits)
next
  case (UnsCheck g c)
  have "close_inv (goto i q s)" if "\<not> closing q" for q
    using inv p UnsCheck that by (intro close_inv_other [of _ _ p]) simp_all
  then show ?thesis using step UnsCheck by auto
next
  case (UnsSend g c)
  have "close_inv (goto i UnsWait (s\<lparr>s_queue := x\<rparr>))" for x
    using inv p UnsSend by (intro close_inv_other [of _ _ p]) (simp_all add: close_inv_queue)
  moreover have "close_inv (goto i (Panicked_at m) s)" for m
    using inv p UnsSend by (intro close_inv_other [of _ _ p]) simp_all
  ultimately show ?thesis using step UnsSend by (auto split: if_splits)
next
  case UnsWait
  have "close_inv (goto i (UnsDone e) s)" for e
    using inv p UnsWait by (intro close_inv_other [of _ _ p]) simp_all
  then show ?thesis using step UnsWait by (auto split: option.splits response.splits)
next
  case CloSwap
  have "close_inv (goto i (CloDone (Some m)) s)" for m
    using inv p CloSwap by (intro close_inv_other [of _ _ p]) simp_all
  then show ?thesis using step CloSwap inv close_inv_begin [OF inv, of i] by (auto split: if_splits)
next
  case CloSend
  note fl = close_inv_flags [OF inv p]
  have "close_inv (goto i CloWait (s\<lparr>s_queue := x\<rparr>))" for x
    using p CloSend fl by (intro close_inv_owner [OF inv p]) auto
  then show ?thesis using step CloSend fl by (auto split: if_splits)
next
  case CloWait
  note fl = close_inv_flags [OF inv p]
  have "close_inv (goto i CloCloseReq s)"
    using p CloWait fl by (intro close_inv_owner [OF inv p]) auto
  then show ?thesis using step CloWait by (auto split: option.splits response.splits)
next
  case CloCloseReq
  note fl = close_inv_flags [OF inv p]
  have "close_inv (goto i CloClosePub (s\<lparr>s_req_closed := True\<rparr>))"
    using p CloCloseReq fl by (intro close_inv_owner [OF inv p]) auto
  then show ?thesis using step CloCloseReq fl by (auto split: if_splits)
next
  case CloClosePub
  note fl = close_inv_flags [OF inv p]
  have "close_inv (goto i (CloDone None) (s\<lparr>s_pub_closed := True\<rparr>))"
    using p CloClosePub fl by (intro close_inv_owner [OF inv p]) auto
  then show ?thesis using step CloClosePub fl by (auto split: if_splits)
qed (use step in simp_all)

lemma caller_step_other:
  "caller_step i p s = Some s' \<Longrightarrow> j \<noteq> i \<Longrightarrow> s_threads s' j = s_threads s j"
  by (induction i p s rule: caller_step.induct)
    (auto split: if_splits option.splits response.splits)

lemma caller_step_closed:
  "caller_step i p s = Some s' \<Longrightarrow> s_closed s \<Longrightarrow> s_closed s'"
  by (induction i p s rule: caller_step.induct)
    (auto split: if_splits option.splits response.splits)

lemma caller_step_panic:
  assumes inv: "close_inv s" and p: "s_threads s i = Some p" and step: "caller_step i p s = Some s'"
    and m: "s_threads s' i = Some (Panicked_at m)"
  shows "m = ''send on closed channel'' \<and> s_closed s'"
proof (cases "closing p")
  case True
  with close_inv_flags [OF inv p] step m show ?thesis
    by (cases p) (auto split: if_splits option.splits response.splits)
next
  case False
  have "s_req_closed s \<Longrightarrow> s_closed s" using inv by (auto elim!: close_invE)
  with False step m show ?thesis
    by (cases p) (auto split: if_splits option.splits response.splits)
qed

lemma tstep_inv:
  assumes "tstep s s'" and "close_inv s" and "only_late_sends_panic s"
  shows "close_inv s' \<and> only_late_sends_panic s'"
  using assms(1)
proof (cases rule: tstep.cases)
  case (caller i p)
  have "only_late_sends_panic s'"
    unfolding only_late_sends_panic_def
  proof (intro allI impI)
    fix j m
    assume m: "s_threads s' j = Some (Panicked_at m)"
    show "m = ''send on closed channel'' \<and> s_closed s'"
    proof (cases "j = i")
      case True
      with caller_step_panic [OF assms(2) caller] m show ?thesis by simp
    next
      case False
      with caller_step_other [OF caller(2) False] m have "s_threads s j = Some (Panicked_at m)" by simp
      with assms(3) caller_step_closed [OF caller(2)] show ?thesis
        unfolding only_late_sends_panic_def by blast
    qed
  qed
  with caller_step_inv [OF assms(2) caller] show ?thesis by simp
next
  case (gave_up i p q)
  note g = give_up_closing [OF gave_up(3)] give_up_no_panic [OF gave_up(3)]
  with assms(2) gave_up have "close_inv s'" by (blast intro: close_inv_other)
  with assms(3) gave_up g show ?thesis by (simp add: only_late_sends_panic_def)
qed (use assms(2,3) in \<open>simp_all add: only_late_sends_panic_def close_inv_def nobody_closing_def\<close>)

lemma treach_inv:
  assumes "treach s s'" and "close_inv s" and "only_late_sends_panic s"
  shows "close_inv s' \<and> only_late_sends_panic s'"
  using assms unfolding treach_def
  by (induction rule: rtranclp_induct) (blast intro: tstep_inv dest: tstep_inv)+

subsection \<open>What overlapping calls can and cannot do\<close>

text \<open>A caller of \<open>Close\<close> stays inside \<open>Close\<close>.\<close>

definition close_caller :: "nat \<Rightarrow> 'v tsys \<Rightarrow> bool" where
  "close_caller i s \<longleftrightarrow> (\<exists>p. s_threads s i = Some p \<and> clo_pc p)"

lemma caller_step_clo:
  assumes inv: "close_inv s" and p: "s_threads s i = Some p" and step: "caller_step i p s = Some s'"
    and "clo_pc p"
  shows "close_caller i s'"
proof (cases "closing p")
  case True
  with close_inv_flags [OF inv p] assms(3,4) show ?thesis
    by (cases p) (auto simp: close_caller_def split: if_splits option.splits response.splits)
next
  case False
  with assms(3,4) show ?thesis
    by (cases p) (auto simp: close_caller_def split: if_splits)
qed

lemma tstep_close_caller:
  assumes "tstep s s'" and "close_inv s" and "close_caller i s"
  shows "close_caller i s'"
  using assms(1)
proof (cases rule: tstep.cases)
  case (caller j p)
  show ?thesis
  proof (cases "j = i")
    case True
    with caller caller_step_clo [OF assms(2) caller] assms(3) show ?thesis
      by (auto simp: close_caller_def)
  next
    case False
    with caller_step_other [OF caller(2)] assms(3) show ?thesis by (auto simp: close_caller_def)
  qed
next
  case (gave_up j p q)
  with give_up_closing [OF gave_up(3)] assms(3) show ?thesis by (auto simp: close_caller_def)
qed (use assms(3) in \<open>simp_all add: close_caller_def\<close>)

lemma treach_close_caller:
  assumes "treach s s'" and "close_inv s" and "only_late_sends_panic s" and "close_caller i s"
  shows "close_caller i s'"
  using assms unfolding treach_def
proof (induction rule: rtranclp_induct)
  case (step t u)
  from treach_inv [of s t] step have "close_inv t" by (simp add: treach_def)
  with step tstep_close_caller show ?case by blast
qed

lemma start_no_panic: "all_start ths \<Longrightarrow> only_late_sends_panic (tsys_init aware ths)"
  by (fastforce simp: only_late_sends_panic_def tsys_init_def all_start_def)

text \<open>
  C26: however many goroutines call \<open>Close\<close>, \<open>Subscribe\<close> and \<open>Unsubscribe\<close> on a topic at the
  same time, no call of \<open>Close\<close> panics, and at most one of them closes the topic and returns
  nil: the channels are closed once each. A panic is only ever one of a \<open>Subscribe\<close> or
  \<open>Unsubscribe\<close> that sends its request when the topic has been closed.
\<close>

theorem close_runs_once:
  assumes "all_start ths" and "treach (tsys_init aware ths) s"
  shows "(ths i = Some CloSwap \<longrightarrow> (\<forall>m. s_threads s i \<noteq> Some (Panicked_at m))) \<and>
    (s_threads s j = Some (CloDone None) \<longrightarrow> s_threads s k = Some (CloDone None) \<longrightarrow> j = k) \<and>
    (s_threads s i = Some (Panicked_at m) \<longrightarrow> m = ''send on closed channel'' \<and> s_closed s)"
proof -
  let ?s = "tsys_init aware ths"
  have inv: "close_inv s" "only_late_sends_panic s"
    using treach_inv [OF assms(2) close_inv_init [OF assms(1)] start_no_panic [OF assms(1)]]
    by simp_all
  have "close_caller i s" if "ths i = Some CloSwap"
    using that by (intro treach_close_caller [OF assms(2) close_inv_init [OF assms(1)]
        start_no_panic [OF assms(1)]]) (simp add: close_caller_def tsys_init_def)
  then have "ths i = Some CloSwap \<Longrightarrow> s_threads s i \<noteq> Some (Panicked_at m)" for m
    by (auto simp: close_caller_def)
  moreover have "j = k" if "s_threads s j = Some (CloDone None)" "s_threads s k = Some (CloDone None)"
    using inv(1)
  proof (cases rule: close_invE)
    case idle
    with that(1) show ?thesis by (force simp: nobody_closing_def)
  next
    case (owned n p)
    have "l = n" if "s_threads s l = Some (CloDone None)" for l
      using owned(4) that by (force simp: nobody_closing_def)
    with that show ?thesis by blast
  qed
  ultimately show ?thesis using inv(2) by (auto simp: only_late_sends_panic_def)
qed

subsection \<open>Two races\<close>

text \<open>A schedule, played move by move.\<close>

datatype move = Caller nat | Serve "string list" | EndRequests

fun play_move :: "move \<Rightarrow> 'v tsys \<Rightarrow> 'v tsys option" where
  "play_move (Caller i) s =
     (case s_threads s i of None \<Rightarrow> None | Some p \<Rightarrow> caller_step i p s)"
| "play_move (Serve order) s =
     (case s_queue s of
        [(i, r)] \<Rightarrow>
          if status (s_bc s) = Running \<and> fair_order (Request r order) (s_bc s)
          then (let (resp, b) = bc_request order r (s_bc s)
                in Some (s\<lparr>s_queue := [], s_bc := b, s_answers := (s_answers s)(i \<mapsto> resp)\<rparr>))
          else None
      | _ \<Rightarrow> None)"
| "play_move EndRequests s =
     (if s_queue s = [] \<and> s_req_closed s
      then Some (s\<lparr>s_bc := bc_step RequestsClosed (s_bc s)\<rparr>) else None)"

fun play :: "move list \<Rightarrow> 'v tsys \<Rightarrow> 'v tsys option" where
  "play [] s = Some s"
| "play (m # ms) s = (case play_move m s of None \<Rightarrow> None | Some s' \<Rightarrow> play ms s')"

lemma play_move_tstep: "play_move m s = Some s' \<Longrightarrow> tstep s s'"
proof (induction m s rule: play_move.induct)
  case (3 s)
  with tstep.ended [of s] show ?case by (simp split: if_splits del: bc_step.simps)
qed (auto simp: Let_def intro: tstep.intros split: option.splits list.splits prod.splits if_splits)

lemma play_treach: "play ms s = Some s' \<Longrightarrow> treach s s'"
proof (induction ms arbitrary: s)
  case (Cons m ms)
  then obtain t where "play_move m s = Some t" "play ms t = Some s'"
    by (auto split: option.splits)
  with Cons.IH play_move_tstep show ?case
    unfolding treach_def by (blast intro: converse_rtranclp_into_rtranclp)
qed (simp add: treach_def)

definition race_threads :: "pc \<Rightarrow> nat \<rightharpoonup> pc" where
  "race_threads p = [0 \<mapsto> p, 1 \<mapsto> CloSwap]"

definition late_send :: "bool \<Rightarrow> pc \<Rightarrow> 'v tsys \<Rightarrow> bool" where
  "late_send aware p s \<longleftrightarrow>
     treach (tsys_init aware (race_threads p)) s \<and>
     s_threads s 0 = Some (Panicked_at ''send on closed channel'') \<and>
     s_threads s 1 = Some (CloDone None)"

lemma late_send_runs:
  assumes "p = SubCheck c \<or> p = UnsCheck g n"
  shows "\<exists>s :: 'v tsys. late_send aware p s"
proof -
  let ?ms = "[Caller 0, Caller 1, Caller 1, Serve [], Caller 1, Caller 1, Caller 1, Caller 0]"
  have "\<exists>s. play ?ms (tsys_init aware (race_threads p) :: 'v tsys) = Some s \<and>
      s_threads s 0 = Some (Panicked_at ''send on closed channel'') \<and>
      s_threads s 1 = Some (CloDone None)"
    using assms
    by (auto simp: tsys_init_def race_threads_def goto_def bc_init_def bc_request_def bc_close_def)
  with play_treach show ?thesis unfolding late_send_def by blast
qed

text \<open>
  The panic. A \<open>Subscribe\<close> that has found the topic open, and sends its request only
  after a concurrent \<open>Close\<close> has run to its end, panics with a send on a closed channel;
  and so does an \<open>Unsubscribe\<close>. These runs exist for every configuration, consumer and
  channel.
\<close>

theorem subscribe_during_close_panics:
  "(\<exists>s :: 'v tsys. late_send aware (SubCheck c) s) \<and>
   (\<exists>s :: 'v tsys. late_send aware (UnsCheck g n) s)"
  by (blast intro: late_send_runs)

text \<open>
  The leak. A \<open>Subscribe\<close> whose request enters the queue after that of a concurrent
  \<open>Close\<close> has been served, but before \<open>requestC\<close> is closed, succeeds: it returns a channel
  and no error. The broadcaster then finds \<open>requestC\<close> closed and ends, \<open>Close\<close> returns nil,
  and nothing will ever be sent on that channel or close it.
\<close>

theorem subscribe_during_close_leaks:
  assumes "0 \<le> BufferSize c"
  shows "\<exists>s i t. treach (tsys_init aware (race_threads (SubCheck c)) :: 'v tsys) s \<and>
     s_threads s 0 = Some (SubDone (Some i) None) \<and> s_threads s 1 = Some (CloDone None) \<and>
     status (s_bc s) = Done \<and> store (s_bc s) i = Some t \<and> \<not> closed (ch t) \<and>
     buf (ch t) = [] \<and> delivered (ch t) = []"
proof -
  let ?ms = "[Caller 0, Caller 1, Caller 1, Serve [], Caller 0, Serve [], Caller 0,
      Caller 1, Caller 1, Caller 1, EndRequests]"
  have "\<exists>s i t. play ?ms (tsys_init aware (race_threads (SubCheck c)) :: 'v tsys) = Some s \<and>
     s_threads s 0 = Some (SubDone (Some i) None) \<and> s_threads s 1 = Some (CloDone None) \<and>
     status (s_bc s) = Done \<and> store (s_bc s) i = Some t \<and> \<not> closed (ch t) \<and>
     buf (ch t) = [] \<and> delivered (ch t) = []"
    using assms
    by (cases aware) (simp_all add: tsys_init_def race_threads_def goto_def bc_init_def bc_request_def
      bc_close_def bc_subscribe_def newSubscriber_def Let_def offer_last_def enable_broadcast_def
      make_chan_def)
  with play_treach show ?thesis by blast
qed

theorem subscribe_during_close_leaks_witness:
  "\<exists>s i. treach (tsys_init True (race_threads (SubCheck (demo_conf ''g'' 1 None))) :: string tsys) s \<and>
     s_threads s 0 = Some (SubDone (Some i) None) \<and> status (s_bc s) = Done"
proof -
  have "0 \<le> BufferSize (demo_conf ''g'' 1 None)" by (simp add: demo_conf_def)
  from subscribe_during_close_leaks [OF this, of True] show ?thesis by blast
qed

text \<open>Three callers of which two close, for the witness.\<close>

theorem close_runs_once_witness:
  "\<exists>s :: string tsys. treach (tsys_init True [0 \<mapsto> CloSwap, 1 \<mapsto> CloSwap]) s \<and>
     s_threads s 1 = Some (CloDone None) \<and> s_threads s 0 \<noteq> Some (CloDone None) \<and>
     s_threads s 0 \<noteq> Some (Panicked_at ''close of closed channel'')"
proof -
  let ?ths = "[0 \<mapsto> CloSwap, 1 \<mapsto> CloSwap] :: nat \<rightharpoonup> pc"
  have start: "all_start ?ths" by (simp add: all_start_def)
  let ?ms = "[Caller 1, Caller 1, Serve [], Caller 1, Caller 1, Caller 1]"
  have "\<exists>s. play ?ms (tsys_init True ?ths :: string tsys) = Some s \<and> s_threads s 1 = Some (CloDone None)"
    by (simp add: tsys_init_def goto_def bc_init_def bc_request_def bc_close_def)
  then obtain s where r: "treach (tsys_init True ?ths :: string tsys) s"
    and s: "s_threads s 1 = Some (CloDone None)" using play_treach by blast
  from close_runs_once [OF start r, of 0 0 1] s have "s_threads s 0 \<noteq> Some (CloDone None)"
    "s_threads s 0 \<noteq> Some (Panicked_at ''close of closed channel'')" by auto
  with r s show ?thesis by blast
qed

end
