(* ===== verification/Rx_Errors.thy ===== *)
theory Rx_Errors
  imports Rx_Prelude
begin

section \<open>Errors (errors.go)\<close>

text \<open>
  The error values that travel through the lifecycle managers. \<open>RxdError\<close> is the
  source's string type \<open>Error\<close>, compared by its text. \<open>CtxCanceled\<close> and
  \<open>CtxDeadlineExceeded\<close> are the two sentinels of the package \<open>context\<close>.
  \<open>UserError\<close> is any other leaf error, with what its own \<open>Is\<close> method (if it
  has one) answers for the two sentinels, as the time-outs of the package \<open>net\<close> do.
  \<open>WrapError\<close> is an error with an \<open>Unwrap\<close> method: \<open>fmt.Errorf\<close> with
  \<open>%w\<close>, or \<open>errors.Join\<close>, which unwraps to several errors.
\<close>

datatype go_error =
    RxdError string
  | ErrUninitialized (StructName: string) (Method: string)
  | CtxCanceled
  | CtxDeadlineExceeded
  | UserError (user_msg: string) (is_canceled: bool) (is_deadline: bool)
  | WrapError string "go_error list"

abbreviation ErrLifecycleDone :: go_error where
  "ErrLifecycleDone \<equiv> RxdError ''lifecycle done''"
abbreviation ErrDaemonStarted :: go_error where
  "ErrDaemonStarted \<equiv> RxdError ''daemon has already been started''"
abbreviation ErrDuplicateServiceName :: go_error where
  "ErrDuplicateServiceName \<equiv> RxdError ''duplicate service name found''"
abbreviation ErrNoServices :: go_error where
  "ErrNoServices \<equiv> RxdError ''no services to run''"
abbreviation ErrNoServiceName :: go_error where
  "ErrNoServiceName \<equiv> RxdError ''no service name provided''"
abbreviation ErrNilService :: go_error where
  "ErrNilService \<equiv> RxdError ''nil service provided''"
abbreviation ErrDuplicateServicePolicy :: go_error where
  "ErrDuplicateServicePolicy \<equiv> RxdError ''duplicate service policy found''"
abbreviation ErrAddingServiceOnceStarted :: go_error where
  "ErrAddingServiceOnceStarted \<equiv> RxdError ''cannot add a service once the daemon is started''"

text \<open>The \<open>Error()\<close> method: the text that is logged for the user.\<close>

fun error_msg :: "go_error \<Rightarrow> string" where
  "error_msg (RxdError s) = s"
| "error_msg (ErrUninitialized sn m) =
     sn @ '' is nil, but uses a value receiver for '' @ [CHR 0x27] @ m @ [CHR 0x27] @ '' method.''"
| "error_msg CtxCanceled = ''context canceled''"
| "error_msg CtxDeadlineExceeded = ''context deadline exceeded''"
| "error_msg (UserError s _ _) = s"
| "error_msg (WrapError s _) = s"

text \<open>
  \<open>errors.Is(err, target)\<close> for one of the two sentinels: the error itself, its own
  \<open>Is\<close> method, and everything it unwraps to.
\<close>

fun errors_Is :: "go_error \<Rightarrow> go_error \<Rightarrow> bool" where
  "errors_Is (WrapError s es) t \<longleftrightarrow> WrapError s es = t \<or> list_ex (\<lambda>e. errors_Is e t) es"
| "errors_Is (UserError s c d) t \<longleftrightarrow>
     UserError s c d = t \<or> (c \<and> t = CtxCanceled) \<or> (d \<and> t = CtxDeadlineExceeded)"
| "errors_Is e t \<longleftrightarrow> e = t"

definition IsCancelled :: "go_error \<Rightarrow> bool" where
  "IsCancelled err \<longleftrightarrow>
     err = ErrLifecycleDone \<or> errors_Is err CtxCanceled \<or> errors_Is err CtxDeadlineExceeded"

lemma IsCancelled_sentinels [simp]:
  "IsCancelled CtxCanceled" "IsCancelled CtxDeadlineExceeded"
  by (simp_all add: IsCancelled_def)

lemma IsCancelled_rxd [simp]: "IsCancelled (RxdError s) \<longleftrightarrow> s = ''lifecycle done''"
  by (simp add: IsCancelled_def)

lemma IsCancelled_user [simp]: "IsCancelled (UserError s c d) \<longleftrightarrow> c \<or> d"
  by (auto simp: IsCancelled_def)

text \<open>
  The leaves of an error: what remains when every wrapper is taken off.
\<close>

fun leaves :: "go_error \<Rightarrow> go_error list" where
  "leaves (WrapError s es) = concat (map leaves es)"
| "leaves e = [e]"

definition ctx_leaf :: "go_error \<Rightarrow> bool" where
  "ctx_leaf e \<longleftrightarrow> e = CtxCanceled \<or> e = CtxDeadlineExceeded \<or>
     (\<exists>s c d. e = UserError s c d \<and> (c \<or> d))"

lemma errors_Is_leaves:
  assumes "t = CtxCanceled \<or> t = CtxDeadlineExceeded"
  shows "errors_Is err t \<longleftrightarrow> (\<exists>e \<in> set (leaves err). errors_Is e t)"
  using assms by (induction err rule: leaves.induct) (auto simp: list_ex_iff)

lemma leaf_ctx: "e \<in> set (leaves err) \<Longrightarrow>
    errors_Is e CtxCanceled \<or> errors_Is e CtxDeadlineExceeded \<longleftrightarrow> ctx_leaf e"
  by (induction err rule: leaves.induct) (auto simp: ctx_leaf_def)

lemma IsCancelled_leaves:
  "IsCancelled err \<longleftrightarrow> err = ErrLifecycleDone \<or> (\<exists>e \<in> set (leaves err). ctx_leaf e)"
  using errors_Is_leaves [of CtxCanceled err] errors_Is_leaves [of CtxDeadlineExceeded err]
    leaf_ctx [of _ err]
  unfolding IsCancelled_def by blast

text \<open>
  The errors of the package. They are compared by their texts, which differ, so that a caller
  can tell them apart; and only one of them is a cancellation.
\<close>

definition package_errors :: "go_error list" where
  "package_errors =
     [ErrLifecycleDone, ErrDaemonStarted, ErrDuplicateServiceName, ErrNoServices, ErrNoServiceName,
      ErrNilService, ErrDuplicateServicePolicy, ErrAddingServiceOnceStarted]"

theorem package_errors_differ:
  "distinct (map error_msg package_errors) \<and> filter IsCancelled package_errors = [ErrLifecycleDone]"
  by (simp add: package_errors_def)

end
