(* ===== verification/Rx_Intracom.thy ===== *)
theory Rx_Intracom
  imports Rx_TopicRaces Rx_Errors
begin

section \<open>The registry of topics (intracom/intracom.go, errors.go)\<close>

text \<open>
  An \<open>Intracom\<close> maps names to topics. A topic is an object: several registries,
  callers and goroutines may hold it, so the map holds references into \<open>heap\<close>, which
  gives the topic and its message type. Go's type assertion to \<open>Topic[T]\<close> succeeds
  exactly for the topics created with that \<open>T\<close>; \<open>AnyType\<close> is the type \<open>any\<close>. The
  pointer to the registry may be nil (\<open>None\<close>). The debug log is left out.
\<close>

datatype gotype = AnyType | NamedType string

subsection \<open>Errors\<close>

datatype ic_error =
    IcError string
  | OtherError string
  | CtxError go_error
  | ErrIntracom string ic_error
  | ErrSubscribe (es_Topic: string) (es_Consumer: string) (es_Action: string) (es_Err: ic_error)
  | ErrTopic (et_Topic: string) (et_Action: string) (et_Err: ic_error)

abbreviation "ErrInvalidIntracomNil \<equiv> IcError ''invalid intracom, cannot be nil''"
abbreviation "ErrIntracomClosed \<equiv> IcError ''intracom is closed''"
abbreviation "ErrTopicNotFound \<equiv> IcError ''topic not found''"
abbreviation "ErrTopicAlreadyExists \<equiv> IcError ''topic already exists''"
abbreviation "ErrTopicDoesNotExist \<equiv> IcError ''topic does not exist''"
abbreviation "ErrInvalidTopicType \<equiv> IcError ''topic exists but with a different type''"
abbreviation "ErrMaxTimeoutReached \<equiv> IcError ''max timeout reached''"

abbreviation "ActionClosingTopic \<equiv> ''closing topic''"
abbreviation "ActionRemovingTopic \<equiv> ''removing topic''"
abbreviation "ActionCreatingTopic \<equiv> ''creating topic''"
abbreviation "ActionRemovingSubscription \<equiv> ''removing subscription''"
abbreviation "ActionCreatingSubscription \<equiv> ''creating subscription''"

fun ic_error_msg :: "ic_error \<Rightarrow> string" where
  "ic_error_msg (IcError s) = s"
| "ic_error_msg (OtherError s) = s"
| "ic_error_msg (CtxError e) = error_msg e"
| "ic_error_msg (ErrIntracom a e) = ''error '' @ a @ '' reason: '' @ ic_error_msg e"
| "ic_error_msg (ErrSubscribe t c a e) =
     ''error '' @ a @ '' to topic '' @ [CHR 0x27] @ t @ [CHR 0x27] @ '' with consumer '' @
     [CHR 0x27] @ c @ [CHR 0x27] @ '' reason: '' @ ic_error_msg e"
| "ic_error_msg (ErrTopic t a e) =
     ''error '' @ a @ '' removing topic '' @ [CHR 0x27] @ t @ [CHR 0x27] @ '' reason: '' @
     ic_error_msg e"

subsection \<open>State and operations\<close>

record 'v intracom =
  ic_name :: string
  topics :: "string \<rightharpoonup> nat"
  ic_closed :: bool
  heap :: "nat \<rightharpoonup> gotype \<times> 'v topic"
  next_topic :: nat

definition intracom_New :: "string \<Rightarrow> 'v intracom" where
  "intracom_New name =
     \<lparr>ic_name = name, topics = Map.empty, ic_closed = False, heap = Map.empty, next_topic = 0\<rparr>"

text \<open>
  \<open>CreateTopic\<close> looks the name up under a read lock and, if it is not there, stores a new
  topic under a write lock. In between other goroutines may run: the second half takes
  what the first half found.
\<close>

definition create_commit ::
  "gotype \<Rightarrow> TopicConfig \<Rightarrow> nat option \<Rightarrow> 'v intracom \<Rightarrow> (ic_error + nat) \<times> 'v intracom" where
  "create_commit T conf found ic =
     (case found of
        None \<Rightarrow>
          (Inr (next_topic ic),
           ic\<lparr>topics := (topics ic)(cfg_Name conf \<mapsto> next_topic ic),
              heap := (heap ic)(next_topic ic \<mapsto> (T, NewTopic conf)),
              next_topic := Suc (next_topic ic)\<rparr>)
      | Some r \<Rightarrow>
          (if map_option fst (heap ic r) \<noteq> Some T
           then (Inl (ErrTopic (cfg_Name conf) ActionCreatingTopic ErrInvalidTopicType), ic)
           else if cfg_ErrIfExists conf
           then (Inl (ErrTopic (cfg_Name conf) ActionCreatingTopic ErrTopicAlreadyExists), ic)
           else (Inr r, ic)))"

definition CreateTopic ::
  "gotype \<Rightarrow> 'v intracom option \<Rightarrow> TopicConfig \<Rightarrow> (ic_error + nat) \<times> 'v intracom option" where
  "CreateTopic T icp conf =
     (case icp of
        None \<Rightarrow> (Inl (ErrTopic (cfg_Name conf) ActionCreatingTopic ErrInvalidIntracomNil), icp)
      | Some ic \<Rightarrow>
          if ic_closed ic
          then (Inl (ErrTopic (cfg_Name conf) ActionCreatingTopic ErrIntracomClosed), icp)
          else (let (r, ic') = create_commit T conf (topics ic (cfg_Name conf)) ic in (r, Some ic')))"

text \<open>
  The next operations call the topic's own. A result \<open>None\<close> is a call that does not
  return because the topic's broadcaster does not.
\<close>

definition RemoveTopic ::
  "gotype \<Rightarrow> 'v intracom option \<Rightarrow> string \<Rightarrow> string list \<Rightarrow>
     ic_error option option \<times> 'v intracom option" where
  "RemoveTopic T icp name order =
     (case icp of
        None \<Rightarrow> (Some (Some (ErrTopic name ActionRemovingTopic ErrInvalidIntracomNil)), icp)
      | Some ic \<Rightarrow>
         (case topics ic name of
            None \<Rightarrow> (Some (Some (ErrTopic name ActionRemovingTopic ErrTopicDoesNotExist)), icp)
          | Some r \<Rightarrow>
             (case heap ic r of
                None \<Rightarrow> (Some (Some (ErrTopic name ActionRemovingTopic ErrInvalidTopicType)), icp)
              | Some (T', t) \<Rightarrow>
                 (if T' \<noteq> T
                  then (Some (Some (ErrTopic name ActionRemovingTopic ErrInvalidTopicType)), icp)
                  else
                    (let (res, t') = topic_Close order t;
                         ic' = ic\<lparr>heap := (heap ic)(r \<mapsto> (T', t'))\<rparr>
                     in case res of
                          None \<Rightarrow> (None, Some ic')
                        | Some (Some e) \<Rightarrow>
                            (Some (Some (ErrTopic name ActionRemovingTopic (OtherError e))), Some ic')
                        | Some None \<Rightarrow>
                            (Some None, Some (ic'\<lparr>topics := (topics ic')(name := None)\<rparr>)))))))"

text \<open>
  The polling of \<open>CreateSubscription\<close>: what its \<open>select\<close> takes each time round. At a
  retry the registry is as the other goroutines have made it by then. Without a positive
  \<open>maxWait\<close> the timer's channel is nil and never ready. An empty list waits.
\<close>

datatype 'v poll = PollCtx go_error | PollMax | PollRetry "'v intracom"

datatype 'v found = StillPolling | PollError ic_error | TopicFound nat "'v intracom"

fun poll_topic :: "(ic_error \<Rightarrow> ic_error) \<Rightarrow> string \<Rightarrow> bool \<Rightarrow> 'v poll list \<Rightarrow> 'v found" where
  "poll_topic wrap name hasMax [] = StillPolling"
| "poll_topic wrap name hasMax (PollCtx e # ps) = PollError (wrap (CtxError e))"
| "poll_topic wrap name hasMax (PollMax # ps) =
     (if hasMax then PollError ErrMaxTimeoutReached else poll_topic wrap name hasMax ps)"
| "poll_topic wrap name hasMax (PollRetry ic # ps) =
     (if ic_closed ic then PollError (wrap ErrIntracomClosed)
      else case topics ic name of
        None \<Rightarrow> poll_topic wrap name hasMax ps
      | Some r \<Rightarrow> TopicFound r ic)"

text \<open>
  The result: \<open>None\<close> while it waits; else the channel and the error, and the registry
  after the call when the call has changed a topic.
\<close>

definition CreateSubscription ::
  "gotype \<Rightarrow> 'v intracom option \<Rightarrow> string \<Rightarrow> duration \<Rightarrow> SubscriberConfig \<Rightarrow> ctx_done \<Rightarrow>
     'v poll list \<Rightarrow> (nat option \<times> ic_error option) option \<times> 'v intracom option" where
  "CreateSubscription T icp topic maxWait conf ctx polls =
     (let wrap = ErrSubscribe topic (ConsumerGroup conf) ActionCreatingSubscription in
      case icp of
        None \<Rightarrow> (Some (None, Some (wrap ErrInvalidIntracomNil)), None)
      | Some ic0 \<Rightarrow>
         (if ic_closed ic0 then (Some (None, Some (wrap ErrIntracomClosed)), Some ic0)
          else case poll_topic wrap topic (0 < maxWait) polls of
            StillPolling \<Rightarrow> (None, Some ic0)
          | PollError e \<Rightarrow> (Some (None, Some e), Some ic0)
          | TopicFound r ic \<Rightarrow>
             (case heap ic r of
                None \<Rightarrow> (Some (None, Some (wrap ErrInvalidTopicType)), Some ic)
              | Some (T', t) \<Rightarrow>
                 (if T' \<noteq> T then (Some (None, Some (wrap ErrInvalidTopicType)), Some ic)
                  else
                    (let (res, t') = topic_Subscribe ctx conf t
                     in (map_option (\<lambda>(c, e). (c, map_option OtherError e)) res,
                         Some (ic\<lparr>heap := (heap ic)(r \<mapsto> (T', t'))\<rparr>)))))))"

definition RemoveSubscription ::
  "gotype \<Rightarrow> 'v intracom option \<Rightarrow> string \<Rightarrow> string \<Rightarrow> nat \<Rightarrow> ctx_done \<Rightarrow>
     ic_error option \<times> 'v intracom option" where
  "RemoveSubscription T icp topic consumer c ctx =
     (let wrap = ErrSubscribe topic consumer ActionRemovingSubscription in
      case icp of
        None \<Rightarrow> (Some (wrap ErrInvalidIntracomNil), icp)
      | Some ic \<Rightarrow>
         (case topics ic topic of
            None \<Rightarrow> (Some (wrap ErrTopicNotFound), icp)
          | Some r \<Rightarrow>
             (case heap ic r of
                None \<Rightarrow> (Some (wrap ErrInvalidTopicType), icp)
              | Some (T', t) \<Rightarrow>
                 (if T' \<noteq> T then (Some (wrap ErrInvalidTopicType), icp)
                  else
                    (let (e, t') = topic_Unsubscribe ctx consumer c t
                     in (map_option OtherError e,
                         Some (ic\<lparr>heap := (heap ic)(r \<mapsto> (T', t'))\<rparr>)))))))"

text \<open>
  The loop of \<open>Close\<close> over an order of the names, with an order of the subscribers of each
  topic. A topic that is not a \<open>Topic[any]\<close> is passed over. \<open>True\<close>: the loop ended.
\<close>

fun close_topics ::
  "(string \<times> string list) list \<Rightarrow> 'v intracom \<Rightarrow> bool \<times> 'v intracom" where
  "close_topics [] ic = (True, ic)"
| "close_topics ((name, order) # rest) ic =
     (case topics ic name of
        None \<Rightarrow> close_topics rest ic
      | Some r \<Rightarrow>
         (case heap ic r of
            Some (AnyType, t) \<Rightarrow>
              (let (res, t') = topic_Close order t;
                   ic' = ic\<lparr>heap := (heap ic)(r \<mapsto> (AnyType, t'))\<rparr>
               in if res = None then (False, ic') else close_topics rest ic')
          | _ \<Rightarrow> close_topics rest ic))"

definition intracom_Close ::
  "(string \<times> string list) list \<Rightarrow> 'v intracom option \<Rightarrow>
     ic_error option option \<times> 'v intracom option" where
  "intracom_Close orders icp =
     (case icp of
        None \<Rightarrow> (Some (Some (ErrIntracom ActionClosingTopic ErrInvalidIntracomNil)), icp)
      | Some ic \<Rightarrow>
          if ic_closed ic
          then (Some (Some (ErrIntracom ActionClosingTopic ErrIntracomClosed)), icp)
          else (case close_topics orders (ic\<lparr>ic_closed := True\<rparr>) of
                  (False, ic') \<Rightarrow> (None, Some ic')
                | (True, ic') \<Rightarrow> (Some None, Some (ic'\<lparr>topics := Map.empty\<rparr>))))"

end
