(* ===== verification/Rx_IntracomProps.thy ===== *)
theory Rx_IntracomProps
  imports Rx_Intracom
begin

section \<open>What the registry guarantees\<close>

text \<open>
  The registries that the operations, and direct use of the topics in them, lead to; their
  invariant; and the properties of creating, removing, subscribing and closing.
\<close>

subsection \<open>The interface of a topic\<close>

text \<open>
  What the registry's clients rely on a \<open>Topic\<close> for: a closed topic refuses every call
  and stays as it is, and \<open>Close\<close> makes it closed.
\<close>

locale topic_api =
  fixes sub :: "'x \<Rightarrow> 'c \<Rightarrow> 't \<Rightarrow> (nat option \<times> string option) option \<times> 't"
    and unsub :: "'x \<Rightarrow> string \<Rightarrow> nat \<Rightarrow> 't \<Rightarrow> string option \<times> 't"
    and close_t :: "string list \<Rightarrow> 't \<Rightarrow> string option option \<times> 't"
    and is_closed :: "'t \<Rightarrow> bool"
  assumes sub_closed: "is_closed t \<Longrightarrow> \<exists>e. sub x c t = (Some (None, Some e), t)"
    and unsub_closed: "is_closed t \<Longrightarrow> \<exists>e. unsub x n i t = (Some e, t)"
    and close_closed: "is_closed t \<Longrightarrow> \<exists>e. close_t order t = (Some (Some e), t)"
    and close_closes: "is_closed (snd (close_t order t))"
    and close_nil: "fst (close_t order t) = Some None \<Longrightarrow> \<not> is_closed t"
begin

lemma close_twice:
  "\<exists>e. close_t o2 (snd (close_t o1 t)) = (Some (Some e), snd (close_t o1 t))"
  by (rule close_closed) (rule close_closes)

lemma nil_only_when_open: "is_closed t \<Longrightarrow> fst (close_t order t) \<noteq> Some None"
  using close_nil by blast

lemma closed_state:
  assumes "is_closed t"
  shows "snd (sub x c t) = t" and "snd (unsub x n i t) = t" and "snd (close_t order t) = t"
  using sub_closed [OF assms, of x c] unsub_closed [OF assms, of x n i]
    close_closed [OF assms, of order] by auto

end

interpretation topic_ops: topic_api topic_Subscribe topic_Unsubscribe topic_Close t_closed
proof
  fix order and t :: "'v topic"
  show closes: "t_closed (snd (topic_Close order t))"
    by (simp add: topic_Close_def split: prod.split option.split response.split)
      (auto simp: serve_def split_def Let_def split: if_splits)
  show "fst (topic_Close order t) = Some None \<Longrightarrow> \<not> t_closed t"
    by (auto simp: topic_Close_def)
qed (auto simp: topic_Subscribe_def topic_Unsubscribe_def topic_Close_def)

subsection \<open>Reachable registries\<close>

inductive topic_move :: "'v topic \<Rightarrow> 'v topic \<Rightarrow> bool" where
  "topic_move t (snd (topic_Subscribe ctx c t))"
| "topic_move t (snd (topic_Unsubscribe ctx n i t))"
| "set order = dom (subscribers (t_bc t)) \<Longrightarrow> topic_move t (snd (topic_Close order t))"
| "traffic t e \<Longrightarrow> topic_move t (t\<lparr>t_bc := bc_step e (t_bc t)\<rparr>)"

inductive_simps topic_move_simps: "topic_move t t'"

lemma topic_move_inv: "topic_move t t' \<Longrightarrow> topic_inv t \<Longrightarrow> topic_inv t'"
  by (induction rule: topic_move.induct) (simp_all add: inv_intros)

lemma topic_Close_name [simp]: "t_name (snd (topic_Close order t)) = t_name t"
  by (cases "t_closed t"; cases "status (t_bc t) = Running")
    (simp_all add: topic_Close_running topic_Close_stuck, simp_all add: topic_Close_def)

lemma topic_move_name: "topic_move t t' \<Longrightarrow> t_name t' = t_name t"
  by (induction rule: topic_move.induct)
    (simp_all add: topic_Subscribe_state topic_Unsubscribe_state)

text \<open>
  Every name stands for a topic of that name, every topic keeps its own invariant, and the
  references handed out are below the next one.
\<close>

definition ic_inv :: "'v intracom \<Rightarrow> bool" where
  "ic_inv ic \<longleftrightarrow>
     (\<forall>n r. topics ic n = Some r \<longrightarrow> (\<exists>T t. heap ic r = Some (T, t) \<and> t_name t = n)) \<and>
     (\<forall>r T t. heap ic r = Some (T, t) \<longrightarrow> r < next_topic ic \<and> topic_inv t)"

lemma ic_inv_name:
  assumes "ic_inv ic" and "topics ic n = Some r"
  obtains T t where "heap ic r = Some (T, t)" and "t_name t = n" and "topic_inv t"
  using assms unfolding ic_inv_def by blast

lemma ic_inv_heap:
  "ic_inv ic \<Longrightarrow> heap ic r = Some (T, t) \<Longrightarrow> r < next_topic ic \<and> topic_inv t"
  by (auto simp: ic_inv_def)

lemma ic_inv_init [inv_intros]: "ic_inv (intracom_New nm)"
  by (simp add: ic_inv_def intracom_New_def)

lemma ic_inv_update:
  assumes inv: "ic_inv ic" and h: "heap ic r = Some (T, t)"
    and t': "topic_inv t'" "t_name t' = t_name t"
  shows "ic_inv (ic\<lparr>heap := (heap ic)(r \<mapsto> (T, t'))\<rparr>)"
proof -
  have "\<exists>T' u. ((heap ic)(r \<mapsto> (T, t'))) q = Some (T', u) \<and> t_name u = n"
    if "topics ic n = Some q" for n q
  proof -
    from ic_inv_name [OF inv that] obtain T' u where "heap ic q = Some (T', u)" "t_name u = n" .
    with h t'(2) show ?thesis by (cases "q = r") auto
  qed
  moreover have "q < next_topic ic \<and> topic_inv u"
    if "((heap ic)(r \<mapsto> (T, t'))) q = Some (T', u)" for q T' u
    using that t'(1) ic_inv_heap [OF inv h] ic_inv_heap [OF inv, of q T' u]
    by (cases "q = r") auto
  ultimately show ?thesis unfolding ic_inv_def by simp
qed

lemma ic_inv_forget: "ic_inv ic \<Longrightarrow> ic_inv (ic\<lparr>topics := (topics ic)(n := None)\<rparr>)"
  by (auto simp: ic_inv_def)

lemma ic_inv_fields [simp]:
  "ic_inv (ic\<lparr>ic_closed := b\<rparr>) = ic_inv ic"
  by (simp add: ic_inv_def)

lemma create_commit_inv [inv_intros]:
  assumes inv: "ic_inv ic"
  shows "ic_inv (snd (create_commit T conf found ic))"
proof (cases found)
  case (Some r)
  with inv show ?thesis by (simp add: create_commit_def)
next
  case None
  let ?n = "next_topic ic"
  let ?h = "(heap ic)(?n \<mapsto> (T, NewTopic conf))"
  have "\<exists>T' u. ?h q = Some (T', u) \<and> t_name u = n"
    if n: "((topics ic)(cfg_Name conf \<mapsto> ?n)) n = Some q" for n q
  proof (cases "n = cfg_Name conf")
    case True
    with n show ?thesis by (simp add: NewTopic_def)
  next
    case False
    with n have "topics ic n = Some q" by simp
    from ic_inv_name [OF inv this] obtain T' u where
      "heap ic q = Some (T', u)" "t_name u = n" .
    moreover from this(1) have "q \<noteq> ?n" using ic_inv_heap [OF inv] by auto
    ultimately show ?thesis by auto
  qed
  moreover have "q < Suc ?n \<and> topic_inv u" if "?h q = Some (T', u)" for q T' u
    using that ic_inv_heap [OF inv, of q T' u] by (cases "q = ?n") (auto simp: topic_inv_new)
  ultimately show ?thesis using None unfolding ic_inv_def by (simp add: create_commit_def)
qed

lemma RemoveTopic_inv [inv_intros]:
  assumes inv: "ic_inv ic"
    and order: "\<And>r T t. topics ic n = Some r \<Longrightarrow> heap ic r = Some (T, t) \<Longrightarrow>
      set order = dom (subscribers (t_bc t))"
    and res: "RemoveTopic T (Some ic) n order = (e, Some ic')"
  shows "ic_inv ic'"
proof (cases "topics ic n")
  case None
  with res inv show ?thesis by (simp add: RemoveTopic_def)
next
  case (Some r)
  from ic_inv_name [OF inv Some] obtain T' t where t: "heap ic r = Some (T', t)" "topic_inv t" .
  let ?ic = "ic\<lparr>heap := (heap ic)(r \<mapsto> (T', snd (topic_Close order t)))\<rparr>"
  have "ic_inv ?ic" using t order [OF Some t(1)] inv
    by (intro ic_inv_update [OF inv t(1)]) (simp_all add: topic_Close_inv)
  with ic_inv_forget [OF this, of n] Some t res inv show ?thesis
    by (auto simp: RemoveTopic_def Let_def split_def split: if_splits option.splits)
qed

lemma RemoveSubscription_inv [inv_intros]:
  assumes inv: "ic_inv ic" and res: "RemoveSubscription T (Some ic) n g c ctx = (e, Some ic')"
  shows "ic_inv ic'"
proof (cases "topics ic n")
  case None
  with res inv show ?thesis by (simp add: RemoveSubscription_def)
next
  case (Some r)
  from ic_inv_name [OF inv Some] obtain T' t where t: "heap ic r = Some (T', t)" "topic_inv t" .
  have "ic_inv (ic\<lparr>heap := (heap ic)(r \<mapsto> (T', snd (topic_Unsubscribe ctx g c t)))\<rparr>)"
    using t by (intro ic_inv_update [OF inv t(1)])
      (simp_all add: topic_Unsubscribe_inv, simp add: topic_Unsubscribe_state)
  with Some t res inv show ?thesis
    by (auto simp: RemoveSubscription_def Let_def split_def split: if_splits)
qed

text \<open>A subscription changes the topic that was found, in the registry of the last retry.\<close>

lemma poll_topic_found:
  "poll_topic w n m polls = TopicFound r ic \<Longrightarrow>
     PollRetry ic \<in> set polls \<and> topics ic n = Some r \<and> \<not> ic_closed ic"
  by (induction w n m polls rule: poll_topic.induct) (auto split: if_splits option.splits)

lemma CreateSubscription_inv [inv_intros]:
  assumes inv: "ic_inv ic" and polls: "\<And>x. PollRetry x \<in> set polls \<Longrightarrow> ic_inv x"
    and res: "CreateSubscription T (Some ic) n w conf ctx polls = (e, Some ic')"
  shows "ic_inv ic'"
proof (cases "ic_closed ic")
  case True
  with res inv show ?thesis by (simp add: CreateSubscription_def Let_def)
next
  case False
  let ?w = "ErrSubscribe n (ConsumerGroup conf) ActionCreatingSubscription"
  show ?thesis
  proof (cases "poll_topic ?w n (0 < w) polls")
    case (TopicFound r x)
    from poll_topic_found [OF this] polls have x: "ic_inv x" "topics x n = Some r" by auto
    from ic_inv_name [OF x] obtain T' t where t: "heap x r = Some (T', t)" "topic_inv t" .
    have "ic_inv (x\<lparr>heap := (heap x)(r \<mapsto> (T', snd (topic_Subscribe ctx conf t)))\<rparr>)"
      using t by (intro ic_inv_update [OF x(1) t(1)])
        (simp_all add: topic_Subscribe_inv, simp add: topic_Subscribe_state)
    with TopicFound t res x(1) False show ?thesis
      by (auto simp: CreateSubscription_def Let_def split_def split: if_splits)
  qed (use res inv False in \<open>simp_all add: CreateSubscription_def Let_def\<close>)
qed

subsection \<open>Closing the registry\<close>

text \<open>One name of the loop of \<open>Close\<close>.\<close>

definition close_name :: "string \<Rightarrow> string list \<Rightarrow> 'v intracom \<Rightarrow> bool \<times> 'v intracom" where
  "close_name n order ic =
     (case topics ic n of
        None \<Rightarrow> (True, ic)
      | Some r \<Rightarrow>
         (case heap ic r of
            Some (AnyType, t) \<Rightarrow>
              (fst (topic_Close order t) \<noteq> None,
               ic\<lparr>heap := (heap ic)(r \<mapsto> (AnyType, snd (topic_Close order t)))\<rparr>)
          | _ \<Rightarrow> (True, ic)))"

lemma close_topics_Cons:
  "close_topics ((n, order) # rest) ic =
     (if fst (close_name n order ic) then close_topics rest (snd (close_name n order ic))
      else close_name n order ic)"
  by (auto simp: close_name_def Let_def split_def split: option.split gotype.split)

lemma close_name_fields [simp]:
  "topics (snd (close_name n order ic)) = topics ic"
  "ic_closed (snd (close_name n order ic)) = ic_closed ic"
  "next_topic (snd (close_name n order ic)) = next_topic ic"
  by (auto simp: close_name_def split: option.split gotype.split)

lemma close_name_heap:
  "heap (snd (close_name n order ic)) r =
     (case heap ic r of
        Some (AnyType, t) \<Rightarrow>
          if topics ic n = Some r then Some (AnyType, snd (topic_Close order t)) else heap ic r
      | x \<Rightarrow> x)"
  by (auto simp: close_name_def split: option.splits gotype.splits)

declare close_topics.simps(2) [simp del]

lemma close_topics_fields:
  "topics (snd (close_topics orders ic)) = topics ic \<and>
     ic_closed (snd (close_topics orders ic)) = ic_closed ic"
proof (induction orders arbitrary: ic)
  case (Cons no rest)
  then show ?case by (cases no) (simp add: close_topics_Cons)
qed simp

lemma close_topics_typed:
  "heap ic r = Some (NamedType T, t) \<Longrightarrow>
     heap (snd (close_topics orders ic)) r = Some (NamedType T, t)"
proof (induction orders arbitrary: ic)
  case (Cons no rest)
  then show ?case by (cases no) (simp add: close_topics_Cons close_name_heap)
qed simp

lemma close_name_any:
  assumes "heap ic r = Some (AnyType, t)"
  shows "\<exists>t'. heap (snd (close_name n order ic)) r = Some (AnyType, t') \<and>
    (t_closed t \<or> topics ic n = Some r \<longrightarrow> t_closed t')"
  using assms topic_ops.close_closes topic_ops.closed_state(3)
  by (auto simp: close_name_heap)

lemma close_topics_any:
  assumes "heap ic r = Some (AnyType, t)"
  shows "\<exists>t'. heap (snd (close_topics orders ic)) r = Some (AnyType, t') \<and>
    (t_closed t \<or> fst (close_topics orders ic) \<and> (\<exists>n\<in>fst ` set orders. topics ic n = Some r) \<longrightarrow>
       t_closed t')"
  using assms
proof (induction orders arbitrary: ic t)
  case (Cons no rest)
  obtain n order where no: "no = (n, order)" by force
  let ?ic = "snd (close_name n order ic)"
  from close_name_any [OF Cons.prems, of n order] obtain u where
    u: "heap ?ic r = Some (AnyType, u)" "t_closed t \<or> topics ic n = Some r \<longrightarrow> t_closed u" by blast
  show ?case
  proof (cases "fst (close_name n order ic)")
    case True
    with Cons.IH [OF u(1)] u(2) no show ?thesis
      by (auto simp: close_topics_Cons)
  next
    case False
    with u no show ?thesis by (auto simp: close_topics_Cons)
  qed
qed simp

text \<open>An order of the topics is right if it visits each name once, and each topic's groups.\<close>

definition order_ok :: "'v intracom \<Rightarrow> string \<times> string list \<Rightarrow> bool" where
  "order_ok ic no \<longleftrightarrow> (\<forall>r T t. topics ic (fst no) = Some r \<longrightarrow> heap ic r = Some (T, t) \<longrightarrow>
     set (snd no) = dom (subscribers (t_bc t)))"

definition fair_close :: "(string \<times> string list) list \<Rightarrow> 'v intracom \<Rightarrow> bool" where
  "fair_close orders ic \<longleftrightarrow> distinct (map fst orders) \<and> fst ` set orders = dom (topics ic) \<and>
     list_all (order_ok ic) orders"

lemma close_name_inv:
  assumes inv: "ic_inv ic" and ok: "order_ok ic (n, order)"
  shows "ic_inv (snd (close_name n order ic))"
proof (cases "topics ic n")
  case None
  with inv show ?thesis by (simp add: close_name_def)
next
  case (Some r)
  from ic_inv_name [OF inv Some] obtain T t where t: "heap ic r = Some (T, t)" "topic_inv t" .
  have "ic_inv (ic\<lparr>heap := (heap ic)(r \<mapsto> (T, snd (topic_Close order t)))\<rparr>)"
    using t ok Some by (intro ic_inv_update [OF inv t(1)]) (simp_all add: topic_Close_inv order_ok_def)
  with Some t inv show ?thesis by (cases T) (simp_all add: close_name_def)
qed

lemma close_name_order_ok:
  assumes inv: "ic_inv ic" and "fst no \<noteq> n" and "order_ok ic no"
  shows "order_ok (snd (close_name n order ic)) no"
  unfolding order_ok_def
proof (intro allI impI)
  fix r T t
  assume r: "topics (snd (close_name n order ic)) (fst no) = Some r"
    and t: "heap (snd (close_name n order ic)) r = Some (T, t)"
  have r': "topics ic (fst no) = Some r" using r by simp
  have "topics ic n \<noteq> Some r"
  proof
    assume "topics ic n = Some r"
    from ic_inv_name [OF inv this] ic_inv_name [OF inv r'] assms(2) show False by (metis option.inject prod.inject)
  qed
  then have "heap ic r = Some (T, t)"
    using t by (auto simp: close_name_heap split: option.splits gotype.splits)
  with r' assms(3) show "set (snd no) = dom (subscribers (t_bc t))"
    by (auto simp: order_ok_def)
qed

lemma close_topics_inv:
  "ic_inv ic \<Longrightarrow> distinct (map fst orders) \<Longrightarrow> list_all (order_ok ic) orders \<Longrightarrow>
     ic_inv (snd (close_topics orders ic))"
proof (induction orders arbitrary: ic)
  case (Cons no rest)
  obtain n order where no: "no = (n, order)" by force
  let ?ic = "snd (close_name n order ic)"
  have inv: "ic_inv ?ic" using Cons.prems no by (simp add: close_name_inv)
  have "list_all (order_ok ?ic) rest"
    unfolding list_all_iff
  proof
    fix x
    assume x: "x \<in> set rest"
    then have "fst x \<noteq> n" using Cons.prems(2) no by force
    with x Cons.prems(3) show "order_ok ?ic x"
      by (intro close_name_order_ok [OF Cons.prems(1)]) (auto simp: list_all_iff)
  qed
  with Cons.IH [OF inv] Cons.prems(2) inv no show ?case
    by (simp add: close_topics_Cons)
qed simp

lemma order_ok_closed [simp]: "order_ok (ic\<lparr>ic_closed := b\<rparr>) = order_ok ic"
  by (simp add: order_ok_def fun_eq_iff)

lemma intracom_Close_inv [inv_intros]:
  assumes inv: "ic_inv ic" and fair: "fair_close orders ic"
    and res: "intracom_Close orders (Some ic) = (e, Some ic')"
  shows "ic_inv ic'"
proof -
  have "ic_inv (snd (close_topics orders (ic\<lparr>ic_closed := True\<rparr>)))"
    using inv fair by (intro close_topics_inv) (simp_all add: fair_close_def)
  moreover have "ic_inv x \<Longrightarrow> ic_inv (x\<lparr>topics := Map.empty\<rparr>)" for x :: "'a intracom"
    by (simp add: ic_inv_def)
  ultimately show ?thesis
    using res inv by (auto simp: intracom_Close_def split: if_splits prod.splits bool.splits)
qed

end
