(* ===== verification/Rx_Registry.thy ===== *)
theory Rx_Registry
  imports Rx_IntracomProps
begin

section \<open>Properties of the registry\<close>

text \<open>
  The registries that come about, one operation at a time, and what creating, removing,
  subscribing and closing do to them.
\<close>

inductive ic_reach :: "'v intracom \<Rightarrow> bool" where
  new: "ic_reach (intracom_New nm)"
| created: "ic_reach ic \<Longrightarrow> ic_reach (snd (create_commit T conf (topics ic (cfg_Name conf)) ic))"
| removed: "ic_reach ic \<Longrightarrow>
    (\<And>r T t. topics ic n = Some r \<Longrightarrow> heap ic r = Some (T, t) \<Longrightarrow>
       set order = dom (subscribers (t_bc t))) \<Longrightarrow>
    RemoveTopic T (Some ic) n order = (e, Some ic') \<Longrightarrow> ic_reach ic'"
| used: "ic_reach ic \<Longrightarrow> heap ic r = Some (T, t) \<Longrightarrow> topic_move t t' \<Longrightarrow>
    ic_reach (ic\<lparr>heap := (heap ic)(r \<mapsto> (T, t'))\<rparr>)"
| closed_all: "ic_reach ic \<Longrightarrow> fair_close orders ic \<Longrightarrow>
    intracom_Close orders (Some ic) = (e, Some ic') \<Longrightarrow> ic_reach ic'"

lemma ic_reach_inv: "ic_reach ic \<Longrightarrow> ic_inv ic"
proof (induction rule: ic_reach.induct)
  case (removed ic n order T e ic')
  then show ?case by (intro RemoveTopic_inv [of ic n order T e ic']) auto
next
  case (used ic r T t t')
  have "topic_inv t" using ic_inv_heap [OF used.IH used.hyps(2)] by simp
  with used.hyps(3) show ?case
    by (intro ic_inv_update [OF used.IH used.hyps(2)]) (auto intro: topic_move_inv topic_move_name)
next
  case (closed_all ic orders e ic')
  then show ?case by (intro intracom_Close_inv [of ic orders e ic'])
next
  case new
  show ?case by (rule ic_inv_init)
next
  case created
  then show ?case by (simp add: create_commit_inv)
qed

subsection \<open>Creating\<close>

text \<open>
  C30: one topic per name. After \<open>CreateTopic\<close> has returned the topic \<open>r\<close>, asking for the
  same name again gives that same topic if the message type is the same and no error for an
  existing topic was asked for, and otherwise an error that says which; and asking again
  never changes the registry. The topic is new exactly if the name was not taken.
\<close>

theorem create_topic_unique:
  assumes "ic_reach ic" and "CreateTopic T (Some ic) conf = (Inr r, Some ic')"
    and "cfg_Name conf' = cfg_Name conf"
  shows "topics ic' (cfg_Name conf) = Some r \<and>
    (topics ic (cfg_Name conf) = None \<longleftrightarrow> heap ic r = None) \<and>
    CreateTopic T' (Some ic') conf' =
      (if T' \<noteq> T then Inl (ErrTopic (cfg_Name conf) ActionCreatingTopic ErrInvalidTopicType)
       else if cfg_ErrIfExists conf'
       then Inl (ErrTopic (cfg_Name conf) ActionCreatingTopic ErrTopicAlreadyExists)
       else Inr r, Some ic')"
proof -
  have inv: "ic_inv ic" using ic_reach_inv [OF assms(1)] .
  have op: "\<not> ic_closed ic" using assms(2) by (auto simp: CreateTopic_def split: if_splits)
  show ?thesis
  proof (cases "topics ic (cfg_Name conf)")
    case None
    have "heap ic (next_topic ic) = None"
    proof (rule ccontr)
      assume "heap ic (next_topic ic) \<noteq> None"
      then obtain T t where "heap ic (next_topic ic) = Some (T, t)" by auto
      from ic_inv_heap [OF inv this] show False by simp
    qed
    with None op assms(2,3) show ?thesis
      by (auto simp: CreateTopic_def create_commit_def Let_def)
  next
    case (Some q)
    from ic_inv_name [OF inv Some] obtain U t where "heap ic q = Some (U, t)" .
    with Some op assms(2,3) show ?thesis
      by (auto simp: CreateTopic_def create_commit_def Let_def split: if_splits)
  qed
qed

abbreviation "demo_conf_t n e \<equiv> \<lparr>cfg_Name = n, cfg_ErrIfExists = e, cfg_SubscriberAware = False\<rparr>"

theorem create_topic_unique_witness:
  "\<exists>r ic'. CreateTopic (NamedType ''int'') (Some (intracom_New ''ic'' :: string intracom))
      (demo_conf_t ''t'' True) = (Inr r, Some ic') \<and>
    CreateTopic (NamedType ''int'') (Some ic') (demo_conf_t ''t'' False) = (Inr r, Some ic') \<and>
    CreateTopic AnyType (Some ic') (demo_conf_t ''t'' False) =
      (Inl (ErrTopic ''t'' ActionCreatingTopic ErrInvalidTopicType), Some ic')"
proof -
  obtain r ic' where c: "CreateTopic (NamedType ''int'') (Some (intracom_New ''ic'' :: string intracom))
      (demo_conf_t ''t'' True) = (Inr r, Some ic')"
    by (simp add: CreateTopic_def create_commit_def intracom_New_def)
  from create_topic_unique [OF ic_reach.new c, of "demo_conf_t ''t'' False" "NamedType ''int''"]
    create_topic_unique [OF ic_reach.new c, of "demo_conf_t ''t'' False" AnyType] c
  show ?thesis by simp
qed

text \<open>
  The lost topic. When two goroutines call \<open>CreateTopic\<close> with the same new name at
  once, both may find the name free before either stores its topic. Then both calls succeed
  with different topics, even if both asked for an error; the second replaces the first in
  the registry, and a subscriber by name never meets the publishers that hold the first.
\<close>

theorem create_topic_race:
  assumes "topics ic (cfg_Name conf) = None" and "cfg_Name conf' = cfg_Name conf"
    and "create_commit T conf (topics ic (cfg_Name conf)) ic = (x, ic1)"
    and "create_commit T' conf' (topics ic (cfg_Name conf')) ic1 = (x', ic2)"
  shows "\<exists>r r'. x = Inr r \<and> x' = Inr r' \<and> r \<noteq> r' \<and> topics ic2 (cfg_Name conf) = Some r' \<and>
    heap ic2 r = Some (T, NewTopic conf) \<and> heap ic2 r' = Some (T', NewTopic conf')"
  using assms by (auto simp: create_commit_def)

theorem create_topic_race_witness:
  "\<exists>r r' ic2 :: string intracom.
     snd (create_commit (NamedType ''int'') (demo_conf_t ''t'' True) None
       (snd (create_commit (NamedType ''int'') (demo_conf_t ''t'' True) None (intracom_New ''ic'')))) = ic2 \<and>
     r \<noteq> r' \<and> topics ic2 ''t'' = Some r' \<and> heap ic2 r \<noteq> None"
proof -
  let ?c = "demo_conf_t ''t'' True"
  let ?ic = "intracom_New ''ic'' :: string intracom"
  have n: "topics ?ic (cfg_Name ?c) = None" by (simp add: intracom_New_def)
  from create_topic_race [OF n refl prod.collapse [symmetric] prod.collapse [symmetric],
      of "NamedType ''int''" "NamedType ''int''"] n
  show ?thesis by fastforce
qed

subsection \<open>Removing\<close>

text \<open>
  \<open>RemoveTopic\<close> returns nil exactly by closing an open topic of the right type, and
  then the name is free again. A topic that its holder has closed before cannot be
  removed: \<open>RemoveTopic\<close> returns an error and leaves it in the registry, where the next
  \<open>CreateTopic\<close> for the name returns the closed topic as if it had been created.
\<close>

theorem remove_topic_needs_open_topic:
  assumes "ic_reach ic" and "topics ic n = Some r" and "heap ic r = Some (T, t)"
  shows "(\<forall>order ic'. RemoveTopic T' (Some ic) n order = (Some None, Some ic') \<longrightarrow>
      T' = T \<and> \<not> t_closed t \<and> topics ic' = (topics ic)(n := None) \<and>
      (\<exists>t'. heap ic' r = Some (T, t') \<and> t_closed t')) \<and>
    (t_closed t \<longrightarrow> (\<exists>e. RemoveTopic T (Some ic) n order = (Some (Some e), Some ic)) \<and>
      (\<not> ic_closed ic \<longrightarrow>
        CreateTopic T (Some ic) \<lparr>cfg_Name = n, cfg_ErrIfExists = False, cfg_SubscriberAware = aw\<rparr> =
          (Inr r, Some ic)))"
proof (intro conjI impI allI)
  fix o2 ic'
  assume res: "RemoveTopic T' (Some ic) n o2 = (Some None, Some ic')"
  then have "T' = T" "fst (topic_Close o2 t) = Some None"
    using assms(2,3) by (auto simp: RemoveTopic_def Let_def split_def split: if_splits option.splits)
  with topic_ops.close_nil [OF this(2)] topic_ops.close_closes [of o2 t] res assms(2,3)
  show "T' = T" "\<not> t_closed t" "topics ic' = (topics ic)(n := None)"
    "\<exists>t'. heap ic' r = Some (T, t') \<and> t_closed t'"
    by (auto simp: RemoveTopic_def Let_def split_def)
next
  assume c: "t_closed t"
  from topic_ops.close_closed [OF this, of order] obtain e where
    "topic_Close order t = (Some (Some e), t)" by blast
  moreover have "(heap ic)(r \<mapsto> (T, t)) = heap ic" using assms(3) by auto
  ultimately show "\<exists>e. RemoveTopic T (Some ic) n order = (Some (Some e), Some ic)"
    using assms(2,3) by (simp add: RemoveTopic_def)
next
  assume "\<not> ic_closed ic"
  with assms(2,3) show "CreateTopic T (Some ic)
      \<lparr>cfg_Name = n, cfg_ErrIfExists = False, cfg_SubscriberAware = aw\<rparr> = (Inr r, Some ic)"
    by (simp add: CreateTopic_def create_commit_def)
qed

text \<open>A registry with the topic \<open>t\<close> of type \<open>T\<close>.\<close>

definition demo_ic :: "gotype \<Rightarrow> 'v intracom" where
  "demo_ic T = snd (create_commit T (demo_conf_t ''t'' True) None (intracom_New ''ic''))"

lemma demo_ic_reach: "ic_reach (demo_ic T)"
  using ic_reach.created [OF ic_reach.new [of "''ic''"], of T "demo_conf_t ''t'' True"]
  by (simp add: demo_ic_def intracom_New_def)

lemma demo_ic_simps:
  "topics (demo_ic T) = [''t'' \<mapsto> 0]" "heap (demo_ic T) = [0 \<mapsto> (T, NewTopic (demo_conf_t ''t'' True))]"
  "\<not> ic_closed (demo_ic T)"
  by (simp_all add: demo_ic_def create_commit_def intracom_New_def)

theorem remove_topic_needs_open_topic_witness:
  "\<exists>t e. let ic = (demo_ic AnyType)\<lparr>heap := (heap (demo_ic AnyType))(0 \<mapsto> (AnyType, t))\<rparr> :: string intracom
    in t_closed t \<and> RemoveTopic AnyType (Some ic) ''t'' [] = (Some (Some e), Some ic)"
proof -
  let ?new = "NewTopic (demo_conf_t ''t'' True) :: string topic"
  let ?t = "snd (topic_Close [] ?new)"
  let ?ic = "(demo_ic AnyType)\<lparr>heap := (heap (demo_ic AnyType))(0 \<mapsto> (AnyType, ?t))\<rparr>"
  have "topic_move ?new ?t" by (rule topic_move.intros(3)) (simp add: NewTopic_def bc_init_def)
  then have r: "ic_reach ?ic"
    by (intro ic_reach.used [OF demo_ic_reach, where r = 0 and t = ?new]) (simp_all add: demo_ic_simps)
  have c: "t_closed ?t" by (rule topic_ops.close_closes)
  have h: "topics ?ic ''t'' = Some 0" "heap ?ic 0 = Some (AnyType, ?t)"
    by (simp_all add: demo_ic_simps)
  from remove_topic_needs_open_topic [OF r h, of AnyType "[]"] c show ?thesis
    unfolding Let_def by blast
qed

subsection \<open>Subscribing\<close>

text \<open>
  \<open>CreateSubscription\<close> waits for the topic. As long as its retries find neither the
  topic nor a closed registry it keeps polling; at the first retry that finds the name it
  subscribes to the topic of that name, if it has the right type, with that topic's own
  answer. Without a positive \<open>maxWait\<close>, as the watchers of service states call it, no
  time-out ever ends the wait.
\<close>

theorem create_subscription_waits:
  assumes "\<not> ic_closed ic0"
    and "list_all (\<lambda>p. case p of PollRetry x \<Rightarrow> \<not> ic_closed x \<and> topics x n = None
           | PollMax \<Rightarrow> w \<le> 0 | PollCtx e \<Rightarrow> False) ps"
    and "\<not> ic_closed ic" and "topics ic n = Some r" and "heap ic r = Some (T, t)"
  shows "fst (CreateSubscription T (Some ic0) n w conf ctx ps) = None \<and>
    CreateSubscription T (Some ic0) n w conf ctx (ps @ PollRetry ic # qs) =
      (map_option (\<lambda>(c, e). (c, map_option OtherError e)) (fst (topic_Subscribe ctx conf t)),
       Some (ic\<lparr>heap := (heap ic)(r \<mapsto> (T, snd (topic_Subscribe ctx conf t)))\<rparr>)) \<and>
    (T' \<noteq> T \<longrightarrow> (\<exists>e. fst (CreateSubscription T' (Some ic0) n w conf ctx (ps @ PollRetry ic # qs)) =
      Some (None, Some e)))"
proof -
  let ?w = "ErrSubscribe n (ConsumerGroup conf) ActionCreatingSubscription"
  have skip: "poll_topic ?w n (0 < w) (ps @ rest) = poll_topic ?w n (0 < w) rest" for rest
    using assms(2) by (induction ps) (auto split: poll.splits)
  from skip [of "[]"] have still: "poll_topic ?w n (0 < w) ps = StillPolling" by simp
  have found: "poll_topic ?w n (0 < w) (ps @ PollRetry ic # qs) = TopicFound r ic"
    using assms(3,4) by (simp add: skip)
  show ?thesis
    using assms(1,5) found still by (simp add: CreateSubscription_def Let_def split_def)
qed

theorem create_subscription_waits_witness:
  "\<exists>i ic. CreateSubscription AnyType (Some (intracom_New ''ic'')) ''t'' (- 1)
      (demo_conf ''g'' 1 None) NotDone
      [PollMax, PollRetry (intracom_New ''ic''), PollRetry (demo_ic AnyType :: string intracom)] =
      (Some (Some i, None), Some ic)"
proof -
  let ?t = "NewTopic (demo_conf_t ''t'' True) :: string topic"
  let ?ps = "[PollMax, PollRetry (intracom_New ''ic'' :: string intracom)]"
  have open0: "\<not> ic_closed (intracom_New ''ic'' :: string intracom)" by (simp add: intracom_New_def)
  have ps: "list_all (\<lambda>p. case p of PollRetry x \<Rightarrow> \<not> ic_closed x \<and> topics x ''t'' = None
      | PollMax \<Rightarrow> (- 1 :: int) \<le> 0 | PollCtx e \<Rightarrow> False) ?ps"
    by (simp add: intracom_New_def)
  have d: "\<not> ic_closed (demo_ic AnyType :: string intracom)"
    "topics (demo_ic AnyType :: string intracom) ''t'' = Some 0"
    "heap (demo_ic AnyType) 0 = Some (AnyType, ?t)" by (simp_all add: demo_ic_simps)
  have s: "\<exists>i. fst (topic_Subscribe NotDone (demo_conf ''g'' 1 None) ?t) = Some (Some i, None)"
    by (simp add: topic_Subscribe_def NewTopic_def serve_def demo_simps)
  from create_subscription_waits [OF open0 ps d, of "demo_conf ''g'' 1 None" NotDone "[]"] s
  show ?thesis by auto
qed

subsection \<open>Closing\<close>

text \<open>
  C33: \<open>Close\<close> of the registry forgets the topics it does not close. When it returns nil,
  the registry is closed and empty, and every topic of the type \<open>any\<close> that it held is
  closed; but every topic of any other type, as that of the service states, is exactly as
  before: open, its broadcaster running, its subscribers' channels open.
\<close>

theorem close_skips_typed_topics:
  assumes "ic_reach ic" and "fair_close orders ic"
    and "intracom_Close orders (Some ic) = (Some None, Some ic')"
  shows "ic_closed ic' \<and> topics ic' = Map.empty \<and>
    (\<forall>r T t. heap ic r = Some (NamedType T, t) \<longrightarrow> heap ic' r = Some (NamedType T, t)) \<and>
    (\<forall>n r t. topics ic n = Some r \<longrightarrow> heap ic r = Some (AnyType, t) \<longrightarrow>
       (\<exists>t'. heap ic' r = Some (AnyType, t') \<and> t_closed t'))"
proof -
  let ?ic = "ic\<lparr>ic_closed := True\<rparr>"
  have op: "\<not> ic_closed ic" using assms(3) by (auto simp: intracom_Close_def)
  have ended: "fst (close_topics orders ?ic)" and ic': "ic' = (snd (close_topics orders ?ic))\<lparr>topics := Map.empty\<rparr>"
    using assms(3) op by (auto simp: intracom_Close_def split: prod.splits bool.splits)
  have "heap ic' r = Some (NamedType T, t)" if "heap ic r = Some (NamedType T, t)" for r T t
    using close_topics_typed [of ?ic r T t orders] that by (simp add: ic')
  moreover have "\<exists>t'. heap ic' r = Some (AnyType, t') \<and> t_closed t'"
    if "topics ic n = Some r" "heap ic r = Some (AnyType, t)" for n r t
  proof -
    have "n \<in> fst ` set orders" using assms(2) that(1) by (auto simp: fair_close_def)
    with close_topics_any [of ?ic r t orders] that ended show ?thesis by (auto simp: ic')
  qed
  ultimately show ?thesis using close_topics_fields [of orders ?ic] by (simp add: ic')
qed

theorem close_skips_typed_topics_witness:
  "\<exists>ic'. intracom_Close [(''t'', [])] (Some (demo_ic (NamedType ''ServiceStates''))) =
      (Some None, Some ic') \<and> topics ic' = Map.empty \<and>
    heap ic' 0 = Some (NamedType ''ServiceStates'', NewTopic (demo_conf_t ''t'' True) :: string topic)"
proof -
  let ?ic = "demo_ic (NamedType ''ServiceStates'') :: string intracom"
  have f: "fair_close [(''t'', [])] ?ic"
    by (simp add: fair_close_def order_ok_def demo_ic_simps NewTopic_def bc_init_def)
  obtain ic' where c: "intracom_Close [(''t'', [])] (Some ?ic) = (Some None, Some ic')"
    by (simp add: intracom_Close_def demo_ic_simps close_topics.simps(2))
  from close_skips_typed_topics [OF demo_ic_reach f c] c show ?thesis
    by (auto simp: demo_ic_simps)
qed

end
