(* ===== verification/Rx_Log.thy ===== *)
theory Rx_Log
  imports Rx_Prelude
begin

section \<open>Logging (log/log.go, logger.go)\<close>

text \<open>
  Levels and their names, fields, and the loggers, whose shared slices of fields and shared
  levels are references into a state.
\<close>

subsection \<open>Levels\<close>

text \<open>
  \<open>Level\<close> is a \<open>uint8\<close>; a lower level is more severe. Go compares levels as numbers,
  which is the order of the type here.
\<close>

datatype Level = Level (level_code: "8 word")

instantiation Level :: linorder
begin

definition less_eq_Level :: "Level \<Rightarrow> Level \<Rightarrow> bool" where
  "less_eq_Level a b \<longleftrightarrow> level_code a \<le> level_code b"

definition less_Level :: "Level \<Rightarrow> Level \<Rightarrow> bool" where
  "less_Level a b \<longleftrightarrow> level_code a < level_code b"

instance
  by standard
    (auto simp: less_eq_Level_def less_Level_def less_le_not_le Level.expand)

end

abbreviation "LevelEmergency \<equiv> Level 0"
abbreviation "LevelAlert \<equiv> Level 1"
abbreviation "LevelCritical \<equiv> Level 2"
abbreviation "LevelError \<equiv> Level 3"
abbreviation "LevelWarning \<equiv> Level 4"
abbreviation "LevelNotice \<equiv> Level 5"
abbreviation "LevelInfo \<equiv> Level 6"
abbreviation "LevelDebug \<equiv> Level 7"

definition Level_String :: "Level \<Rightarrow> string" where
  "Level_String l =
    (if l = LevelEmergency then ''EMERGENCY''
     else if l = LevelAlert then ''ALERT''
     else if l = LevelCritical then ''CRITICAL''
     else if l = LevelError then ''ERROR''
     else if l = LevelWarning then ''WARNING''
     else if l = LevelNotice then ''NOTICE''
     else if l = LevelInfo then ''INFO''
     else if l = LevelDebug then ''DEBUG''
     else ''INFO'')"

text \<open>
  \<open>strings.ToUpper\<close> on the bytes of a UTF-8 string, as far as its result can be one of
  the ASCII names: the letters a to z, and the two other code points whose upper case is an
  ASCII letter, the dotless i (bytes C4 B1) and the long s (bytes C5 BF). Every other
  code point beyond ASCII has no ASCII upper case and is left.
\<close>

definition upper_char :: "char \<Rightarrow> char" where
  "upper_char c =
     (let n = of_char c :: nat in if 97 \<le> n \<and> n \<le> 122 then char_of (n - 32) else c)"

fun strings_ToUpper :: "string \<Rightarrow> string" where
  "strings_ToUpper [] = []"
| "strings_ToUpper [c] = [upper_char c]"
| "strings_ToUpper (c # d # cs) =
     (if c = CHR 0xC4 \<and> d = CHR 0xB1 then CHR ''I'' # strings_ToUpper cs
      else if c = CHR 0xC5 \<and> d = CHR 0xBF then CHR ''S'' # strings_ToUpper cs
      else upper_char c # strings_ToUpper (d # cs))"

definition LevelFromString :: "string \<Rightarrow> Level" where
  "LevelFromString level =
    (let s = strings_ToUpper level in
     if s = ''EMERGENCY'' then LevelEmergency
     else if s = ''ALERT'' then LevelAlert
     else if s = ''CRITICAL'' then LevelCritical
     else if s = ''ERROR'' then LevelError
     else if s = ''WARNING'' then LevelWarning
     else if s = ''NOTICE'' then LevelNotice
     else if s = ''INFO'' then LevelInfo
     else if s = ''DEBUG'' then LevelDebug
     else LevelInfo)"

lemma Level_String_upper [simp]: "strings_ToUpper (Level_String l) = Level_String l"
  by (simp add: Level_String_def upper_char_def)

text \<open>
  A level's name is read back as that level, and reading depends on the text up to
  case only: reading any text that is the name in capitals gives the level. A value that is
  no level is written, and read, as INFO.
\<close>

theorem level_names_roundtrip:
  "LevelFromString (Level_String l) = (if l \<le> LevelDebug then l else LevelInfo) \<and>
   (strings_ToUpper s = Level_String l \<longrightarrow> LevelFromString s = LevelFromString (Level_String l))"
proof -
  have "l \<le> LevelDebug \<longleftrightarrow> l = LevelEmergency \<or> l = LevelAlert \<or> l = LevelCritical \<or>
      l = LevelError \<or> l = LevelWarning \<or> l = LevelNotice \<or> l = LevelInfo \<or> l = LevelDebug"
  proof -
    obtain w where l: "l = Level w" by (cases l)
    have "w \<le> 7 \<longleftrightarrow> unat w \<le> 7" by (simp add: word_le_nat_alt)
    also have "\<dots> \<longleftrightarrow> unat w \<in> {0,1,2,3,4,5,6,7}" by auto
    also have "\<dots> \<longleftrightarrow> w \<in> {0,1,2,3,4,5,6,7}"
      by (auto simp: word_unat_eq_iff)
    finally show ?thesis by (auto simp: l less_eq_Level_def)
  qed
  moreover have "LevelFromString (Level_String l) = (if l = LevelEmergency \<or> l = LevelAlert \<or>
      l = LevelCritical \<or> l = LevelError \<or> l = LevelWarning \<or> l = LevelNotice \<or> l = LevelInfo \<or>
      l = LevelDebug then l else LevelInfo)"
    unfolding LevelFromString_def Let_def Level_String_upper
    by (simp add: Level_String_def)
  ultimately show ?thesis by (auto simp: LevelFromString_def)
qed

theorem level_names_roundtrip_witness:
  "LevelFromString ''wArning'' = LevelWarning"
proof -
  have "strings_ToUpper ''wArning'' = ''WARNING''" by code_simp
  then have "strings_ToUpper ''wArning'' = Level_String LevelWarning"
    by (simp add: Level_String_def)
  with level_names_roundtrip [of LevelWarning "''wArning''"] show ?thesis
    by (simp add: less_eq_Level_def)
qed

subsection \<open>Fields\<close>

record Field =
  Key :: string
  Value :: string

abbreviation "log_String k v \<equiv> \<lparr>Key = k, Value = v\<rparr>"

text \<open>\<open>strconv.Itoa\<close> and its relatives, in base 10.\<close>

fun dec :: "nat \<Rightarrow> string" where
  "dec n = (if n < 10 then [char_of (48 + n)] else dec (n div 10) @ [char_of (48 + n mod 10)])"

declare dec.simps [simp del]

definition Itoa :: "int \<Rightarrow> string" where
  "Itoa i = (if i < 0 then CHR ''-'' # dec (nat (- i)) else dec (nat i))"

text \<open>
  \<open>log.Int\<close> takes a value of any type: the ten integer types are written in base 10, all
  others, a \<open>time.Duration\<close> among them, are not.
\<close>

datatype any_value = IntegerValue int | DurationValue int | OtherValue

definition log_Int :: "string \<Rightarrow> any_value \<Rightarrow> Field" where
  "log_Int key v =
     (case v of
        IntegerValue i \<Rightarrow> \<lparr>Key = key, Value = Itoa i\<rparr>
      | _ \<Rightarrow> \<lparr>Key = key, Value = ''<unknown value type for int field>''\<rparr>)"

definition log_Bool :: "string \<Rightarrow> bool \<Rightarrow> Field" where
  "log_Bool key v = \<lparr>Key = key, Value = (if v then ''true'' else ''false'')\<rparr>"

definition log_Error :: "string \<Rightarrow> string \<Rightarrow> Field" where
  "log_Error key err = \<lparr>Key = key, Value = err\<rparr>"

text \<open>
  \<open>log.Any\<close> writes what \<open>fmt\<close> gives for \<open>%v\<close>; \<open>log.Float\<close> writes a \<open>float32\<close> or a
  \<open>float64\<close> as \<open>strconv.FormatFloat\<close> does in format f with the fewest digits, given the
  number of bits, and takes nothing else.
\<close>

datatype 'f float_value = Float32 'f | Float64 'f | NoFloat

definition log_Any :: "('a \<Rightarrow> string) \<Rightarrow> string \<Rightarrow> 'a \<Rightarrow> Field" where
  "log_Any fmt key v = \<lparr>Key = key, Value = fmt v\<rparr>"

definition log_Float :: "(nat \<Rightarrow> 'f \<Rightarrow> string) \<Rightarrow> string \<Rightarrow> 'f float_value \<Rightarrow> Field" where
  "log_Float FormatFloat key v =
     (case v of
        Float32 t \<Rightarrow> \<lparr>Key = key, Value = FormatFloat 32 t\<rparr>
      | Float64 t \<Rightarrow> \<lparr>Key = key, Value = FormatFloat 64 t\<rparr>
      | NoFloat \<Rightarrow> \<lparr>Key = key, Value = ''<unknown value type for float field>''\<rparr>)"

subsection \<open>Loggers\<close>

text \<open>
  A logger is a pointer to its handler, a slice of fields and a pointer to a level. What is
  shared is explicit: \<open>arrays\<close> holds the backing arrays of the slices, \<open>cells\<close> the
  levels, \<open>loggers\<close> the loggers. \<open>grow\<close> is the capacity Go's \<open>append\<close> chooses for a new
  array, from the old capacity and the length needed.
\<close>

record slice =
  arr :: nat
  slen :: nat
  scap :: nat

record logger =
  l_handler :: nat
  l_fields :: slice
  l_level :: nat

record logs =
  arrays :: "nat \<rightharpoonup> Field list"
  cells :: "nat \<rightharpoonup> Level"
  loggers :: "nat \<rightharpoonup> logger"
  next_id :: nat

definition no_logs :: logs where
  "no_logs = \<lparr>arrays = Map.empty, cells = Map.empty, loggers = Map.empty, next_id = 0\<rparr>"

definition slice_get :: "logs \<Rightarrow> slice \<Rightarrow> Field list" where
  "slice_get st s = (case arrays st (arr s) of None \<Rightarrow> [] | Some xs \<Rightarrow> take (slen s) xs)"

text \<open>\<open>append(s, xs...)\<close>: in place when the capacity allows it, else in a new array.\<close>

definition append_fields ::
  "(nat \<Rightarrow> nat \<Rightarrow> nat) \<Rightarrow> slice \<Rightarrow> Field list \<Rightarrow> logs \<Rightarrow> slice \<times> logs" where
  "append_fields grow s xs st =
     (if slen s + length xs \<le> scap s
      then (s\<lparr>slen := slen s + length xs\<rparr>,
            st\<lparr>arrays := (case arrays st (arr s) of None \<Rightarrow> arrays st
                 | Some a \<Rightarrow> (arrays st)(arr s \<mapsto> take (slen s) a @ xs @ drop (slen s + length xs) a))\<rparr>)
      else
        (let n = slen s + length xs; k = max n (grow (scap s) n); i = next_id st
         in (\<lparr>arr = i, slen = n, scap = k\<rparr>,
             st\<lparr>arrays := (arrays st)(i \<mapsto> slice_get st s @ xs @
                   replicate (k - n) \<lparr>Key = [], Value = []\<rparr>),
                next_id := Suc i\<rparr>)))"

definition NewLogger :: "Level \<Rightarrow> nat \<Rightarrow> logs \<Rightarrow> nat \<times> logs" where
  "NewLogger level h st =
     (let i = next_id st
      in (i, st\<lparr>arrays := (arrays st)(i \<mapsto> []), cells := (cells st)(i \<mapsto> level),
               loggers := (loggers st)(i \<mapsto>
                 \<lparr>l_handler = h, l_fields = \<lparr>arr = i, slen = 0, scap = 0\<rparr>, l_level = i\<rparr>),
               next_id := Suc i\<rparr>))"

definition logger_With :: "(nat \<Rightarrow> nat \<Rightarrow> nat) \<Rightarrow> nat \<Rightarrow> Field list \<Rightarrow> logs \<Rightarrow> nat \<times> logs" where
  "logger_With grow l xs st =
     (case loggers st l of
        None \<Rightarrow> (l, st)
      | Some lg \<Rightarrow>
          (let (s, st') = append_fields grow (l_fields lg) xs st; i = next_id st'
           in (i, st'\<lparr>loggers := (loggers st')(i \<mapsto> lg\<lparr>l_fields := s\<rparr>), next_id := Suc i\<rparr>)))"

text \<open>\<open>SetLevel\<close> makes this logger's pointer point to a new level.\<close>

definition logger_SetLevel :: "nat \<Rightarrow> Level \<Rightarrow> logs \<Rightarrow> logs" where
  "logger_SetLevel l level st =
     (case loggers st l of
        None \<Rightarrow> st
      | Some lg \<Rightarrow>
          st\<lparr>cells := (cells st)(next_id st \<mapsto> level),
             loggers := (loggers st)(l \<mapsto> lg\<lparr>l_level := next_id st\<rparr>),
             next_id := Suc (next_id st)\<rparr>)"

text \<open>\<open>Log\<close>: what the handler is given, or \<open>None\<close> if the message is ignored.\<close>

definition logger_Log ::
  "nat \<Rightarrow> Level \<Rightarrow> string \<Rightarrow> Field list \<Rightarrow> logs \<Rightarrow> (nat \<times> Level \<times> string \<times> Field list) option" where
  "logger_Log l level msg xs st =
     (case loggers st l of
        None \<Rightarrow> None
      | Some lg \<Rightarrow>
          (case cells st (l_level lg) of
             None \<Rightarrow> None
           | Some lvl \<Rightarrow>
               if lvl < level then None
               else Some (l_handler lg, level, msg, slice_get st (l_fields lg) @ xs)))"

text \<open>The loggers that a program can make, with what holds of them.\<close>

inductive log_reach :: "(nat \<Rightarrow> nat \<Rightarrow> nat) \<Rightarrow> logs \<Rightarrow> bool" for grow where
  "log_reach grow no_logs"
| "log_reach grow st \<Longrightarrow> log_reach grow (snd (NewLogger level h st))"
| "log_reach grow st \<Longrightarrow> log_reach grow (snd (logger_With grow l xs st))"
| "log_reach grow st \<Longrightarrow> log_reach grow (logger_SetLevel l level st)"

definition slice_ok :: "logs \<Rightarrow> slice \<Rightarrow> bool" where
  "slice_ok st s \<longleftrightarrow> slen s \<le> scap s \<and> (\<exists>a. arrays st (arr s) = Some a \<and> length a = scap s)"

definition log_inv :: "logs \<Rightarrow> bool" where
  "log_inv st \<longleftrightarrow>
     (\<forall>l lg. loggers st l = Some lg \<longrightarrow>
        l < next_id st \<and> slice_ok st (l_fields lg) \<and> (\<exists>v. cells st (l_level lg) = Some v)) \<and>
     (\<forall>i a. arrays st i = Some a \<longrightarrow> i < next_id st) \<and>
     (\<forall>i v. cells st i = Some v \<longrightarrow> i < next_id st)"

end
