(* ===== verification/Rx_Loggers.thy ===== *)
theory Rx_Loggers
  imports Rx_Log
begin

section \<open>What loggers share\<close>

text \<open>
  The invariant of the loggers a program makes, and two consequences of what they share:
  a level that is not shared after all, and an array of fields that is.
\<close>

lemma log_invD:
  assumes "log_inv st" and "loggers st l = Some lg"
  shows "l < next_id st \<and> slice_ok st (l_fields lg) \<and> (\<exists>v. cells st (l_level lg) = Some v)"
  using assms by (auto simp: log_inv_def)

lemma log_inv_fresh:
  assumes "log_inv st"
  shows "loggers st (next_id st) = None" and "arrays st (next_id st) = None"
    and "cells st (next_id st) = None"
proof -
  show "loggers st (next_id st) = None"
    using assms unfolding log_inv_def by (metis less_irrefl not_None_eq)
  show "arrays st (next_id st) = None"
    using assms unfolding log_inv_def by (metis less_irrefl not_None_eq)
  show "cells st (next_id st) = None"
    using assms unfolding log_inv_def by (metis less_irrefl not_None_eq)
qed

lemma slice_ok_mono:
  assumes "slice_ok st s" and "\<And>i a. arrays st i = Some a \<Longrightarrow> \<exists>b. arrays st' i = Some b \<and> length b = length a"
  shows "slice_ok st' s"
  using assms unfolding slice_ok_def by fastforce

text \<open>What \<open>append\<close> does to the slice, the arrays and the rest.\<close>

lemma append_fields_get:
  assumes "slice_ok st s" and "append_fields grow s xs st = (s', st')"
  shows "slice_get st' s' = slice_get st s @ xs"
  using assms
  by (cases xs) (auto simp: append_fields_def slice_get_def slice_ok_def Let_def min_def split: if_splits)

lemma append_fields_ok:
  assumes "slice_ok st s" and "append_fields grow s xs st = (s', st')"
  shows "slice_ok st' s'"
  using assms
  by (auto simp: append_fields_def slice_get_def slice_ok_def Let_def min_def split: if_splits)

lemma append_fields_frame:
  assumes "append_fields grow s xs st = (s', st')"
  shows "loggers st' = loggers st" and "cells st' = cells st" and "next_id st \<le> next_id st'"
  using assms by (auto simp: append_fields_def Let_def split: if_splits)

lemma append_fields_arrays:
  assumes inv: "log_inv st" and s: "slice_ok st s" and app: "append_fields grow s xs st = (s', st')"
    and a: "arrays st i = Some a"
  shows "\<exists>b. arrays st' i = Some b \<and> length b = length a"
proof -
  have "i \<noteq> next_id st" using log_inv_fresh(2) [OF inv] a by auto
  with app a s show ?thesis
    by (auto simp: append_fields_def slice_ok_def Let_def split: if_splits)
qed

lemma append_fields_bound:
  assumes inv: "log_inv st" and app: "append_fields grow s xs st = (s', st')"
    and a: "arrays st' i = Some a"
  shows "i < next_id st'"
proof -
  have old: "arrays st j = Some b \<Longrightarrow> j < next_id st" for j b
    using inv by (auto simp: log_inv_def)
  show ?thesis
    using app a old
    by (force simp: append_fields_def Let_def less_Suc_eq split: if_splits option.splits)
qed

lemma NewLogger_inv: "log_inv st \<Longrightarrow> log_inv (snd (NewLogger level h st))"
proof -
  assume inv: "log_inv st"
  have "slice_ok (snd (NewLogger level h st)) (l_fields lg)"
    if "loggers st l = Some lg" for l lg
    using log_invD [OF inv that] log_inv_fresh(2) [OF inv]
    by (auto simp: NewLogger_def slice_ok_def Let_def)
  moreover have "\<exists>v. cells (snd (NewLogger level h st)) (l_level lg) = Some v"
    if "loggers st l = Some lg" for l lg
    using log_invD [OF inv that] by (auto simp: NewLogger_def Let_def)
  ultimately show ?thesis
    using inv unfolding log_inv_def
    by (auto simp: NewLogger_def slice_ok_def Let_def less_Suc_eq)
qed

lemma logger_With_inv:
  assumes inv: "log_inv st"
  shows "log_inv (snd (logger_With grow l xs st))"
proof (cases "loggers st l")
  case None
  with inv show ?thesis by (simp add: logger_With_def)
next
  case (Some lg)
  obtain s st' where app: "append_fields grow (l_fields lg) xs st = (s, st')" by force
  note ok = log_invD [OF inv Some] and frame = append_fields_frame [OF app]
  let ?st = "st'\<lparr>loggers := (loggers st')(next_id st' \<mapsto> lg\<lparr>l_fields := s\<rparr>), next_id := Suc (next_id st')\<rparr>"
  have "m < next_id ?st \<and> slice_ok ?st (l_fields mg) \<and> (\<exists>v. cells ?st (l_level mg) = Some v)"
    if m: "loggers ?st m = Some mg" for m mg
  proof (cases "m = next_id st'")
    case True
    with m ok frame append_fields_ok [OF _ app] show ?thesis by (auto simp: slice_ok_def)
  next
    case False
    with m frame have old: "loggers st m = Some mg" by simp
    have "slice_ok st' (l_fields mg)"
      using slice_ok_mono [of st "l_fields mg" st'] log_invD [OF inv old]
        append_fields_arrays [OF inv _ app] ok by blast
    with log_invD [OF inv old] frame show ?thesis by (auto simp: slice_ok_def)
  qed
  moreover have "i < next_id ?st" if "arrays ?st i = Some a" for i a
    using append_fields_bound [OF inv app, of i a] that by simp
  moreover have "i < next_id ?st" if c: "cells ?st i = Some v" for i v
  proof -
    have "i < next_id st" using inv c frame by (auto simp: log_inv_def)
    with frame(3) show ?thesis by simp
  qed
  ultimately have "log_inv ?st" unfolding log_inv_def by blast
  with Some app show ?thesis by (simp add: logger_With_def Let_def)
qed

lemma SetLevel_inv:
  assumes inv: "log_inv st"
  shows "log_inv (logger_SetLevel l level st)"
proof (cases "loggers st l")
  case None
  with inv show ?thesis by (simp add: logger_SetLevel_def)
next
  case (Some lg)
  let ?st = "logger_SetLevel l level st"
  have eq: "?st = st\<lparr>cells := (cells st)(next_id st \<mapsto> level),
      loggers := (loggers st)(l \<mapsto> lg\<lparr>l_level := next_id st\<rparr>), next_id := Suc (next_id st)\<rparr>"
    using Some by (simp add: logger_SetLevel_def)
  have "m < next_id ?st \<and> slice_ok ?st (l_fields mg) \<and> (\<exists>v. cells ?st (l_level mg) = Some v)"
    if m: "loggers ?st m = Some mg" for m mg
  proof (cases "m = l")
    case True
    with m log_invD [OF inv Some] show ?thesis by (auto simp: eq slice_ok_def)
  next
    case False
    with m have "loggers st m = Some mg" by (simp add: eq)
    from log_invD [OF inv this] show ?thesis by (auto simp: eq slice_ok_def)
  qed
  moreover have "i < next_id ?st" if "arrays ?st i = Some a" for i a
  proof -
    have "i < next_id st" using inv that unfolding eq log_inv_def by simp
    then show ?thesis by (simp add: eq)
  qed
  moreover have "i < next_id ?st" if c: "cells ?st i = Some v" for i v
  proof (cases "i = next_id st")
    case False
    with c have "cells st i = Some v" by (simp add: eq)
    with inv have "i < next_id st" by (auto simp: log_inv_def)
    then show ?thesis by (simp add: eq)
  qed (simp add: eq)
  ultimately show ?thesis unfolding log_inv_def by blast
qed

lemma log_reach_inv: "log_reach grow st \<Longrightarrow> log_inv st"
proof (induction rule: log_reach.induct)
  case 1
  show ?case by (simp add: log_inv_def no_logs_def)
qed (simp_all add: NewLogger_inv logger_With_inv SetLevel_inv)

text \<open>A child made by \<open>With\<close>.\<close>

lemma logger_With_child:
  assumes inv: "log_inv st" and p: "loggers st p = Some lg" and w: "logger_With grow p xs st = (c, st')"
  obtains s where "loggers st' = (loggers st)(c \<mapsto> lg\<lparr>l_fields := s\<rparr>)" and "cells st' = cells st"
    and "slice_get st' s = slice_get st (l_fields lg) @ xs" and "loggers st c = None" and "c \<noteq> p"
    and "slen s = slen (l_fields lg) + length xs"
    and "next_id st \<le> c"
proof -
  obtain s st1 where app: "append_fields grow (l_fields lg) xs st = (s, st1)" by force
  note frame = append_fields_frame [OF app]
  have st': "st' = st1\<lparr>loggers := (loggers st1)(next_id st1 \<mapsto> lg\<lparr>l_fields := s\<rparr>),
      next_id := Suc (next_id st1)\<rparr>" "c = next_id st1"
    using w p app by (auto simp: logger_With_def Let_def)
  have "loggers st (next_id st1) = None"
  proof (rule ccontr)
    assume "loggers st (next_id st1) \<noteq> None"
    then obtain mg where "loggers st (next_id st1) = Some mg" by auto
    from log_invD [OF inv this] frame(3) show False by simp
  qed
  moreover have "slice_get st' s = slice_get st (l_fields lg) @ xs"
    using append_fields_get [OF _ app] log_invD [OF inv p] by (simp add: st' slice_get_def)
  moreover have "slen s = slen (l_fields lg) + length xs"
    using app by (auto simp: append_fields_def Let_def split: if_splits)
  ultimately show thesis using that [of s] frame p st' by (cases "c = p") auto
qed

text \<open>
  \<open>SetLevel\<close> reaches one logger only. A logger made by \<open>With\<close> before the call goes on
  logging by the old level, whatever level its parent is set to, although the two started
  from the same pointer so that \<open>all child loggers share the same level\<close>; the parent logs
  by the new one.
\<close>

theorem set_level_misses_children:
  assumes "log_reach grow st" and "loggers st p = Some lg" and "logger_With grow p xs st = (c, st')"
  shows "logger_Log c lvl msg ys (logger_SetLevel p level st') = logger_Log c lvl msg ys st' \<and>
    (logger_Log p lvl msg ys (logger_SetLevel p level st') = None \<longleftrightarrow> level < lvl)"
proof -
  have inv: "log_inv st" using log_reach_inv [OF assms(1)] .
  have inv': "log_inv st'" using logger_With_inv [OF inv, of grow p xs] assms(3) by simp
  from logger_With_child [OF inv assms(2,3)] obtain s where
    c: "loggers st' = (loggers st)(c \<mapsto> lg\<lparr>l_fields := s\<rparr>)" "cells st' = cells st" "c \<noteq> p" by metis
  have p: "loggers st' p = Some lg" using c assms(2) by simp
  have "l_level lg \<noteq> next_id st'"
    using log_invD [OF inv' p] log_inv_fresh(3) [OF inv'] by auto
  then show ?thesis using c p
    by (auto simp: logger_Log_def logger_SetLevel_def slice_get_def split: option.split)
qed

theorem set_level_misses_children_witness:
  "\<exists>p c st. logger_Log c LevelDebug ''m'' [] (logger_SetLevel p LevelDebug st) = None \<and>
     logger_Log p LevelDebug ''m'' [] (logger_SetLevel p LevelDebug st) \<noteq> None"
proof -
  let ?st = "snd (NewLogger LevelInfo 0 no_logs)"
  have r: "log_reach (\<lambda>c n. 2 * c) ?st" by (intro log_reach.intros)
  obtain lg where p: "loggers ?st 0 = Some lg" by (simp add: NewLogger_def no_logs_def)
  obtain c st' where w: "logger_With (\<lambda>c n. 2 * c) 0 [log_String ''service'' ''a''] ?st = (c, st')" by force
  have "logger_Log c LevelDebug ''m'' [] st' = None"
    using w by (auto simp: NewLogger_def no_logs_def logger_With_def append_fields_def Let_def
        logger_Log_def less_Level_def)
  with set_level_misses_children [OF r p w, of LevelDebug "''m''" "[]" LevelDebug] show ?thesis
    by fastforce
qed

text \<open>
  Two children of one logger may share their fields. When the parent's slice has
  capacity to spare, the field that the second \<open>With\<close> adds is written over the first
  child's: from then on the first child logs the second one's field in place of its own.
  When there is no spare capacity each child logs its own.
\<close>

theorem with_overwrites_siblings_field:
  assumes "log_reach grow st" and "loggers st p = Some lg"
    and "logger_With grow p [x] st = (c1, st1)" and "logger_With grow p [y] st1 = (c2, st2)"
    and "cells st (l_level lg) = Some lvl" and "l \<le> lvl"
  shows "logger_Log c1 l msg [] st2 = Some (l_handler lg, l, msg,
      slice_get st (l_fields lg) @ [if slen (l_fields lg) < scap (l_fields lg) then y else x]) \<and>
    logger_Log c2 l msg [] st2 = Some (l_handler lg, l, msg, slice_get st (l_fields lg) @ [y])"
proof -
  have inv: "log_inv st" using log_reach_inv [OF assms(1)] .
  have inv1: "log_inv st1" using logger_With_inv [OF inv, of grow p "[x]"] assms(3) by simp
  let ?s = "l_fields lg"
  have ok: "slice_ok st ?s" using log_invD [OF inv assms(2)] by simp
  then obtain a where a: "arrays st (arr ?s) = Some a" "length a = scap ?s" "slen ?s \<le> scap ?s"
    by (auto simp: slice_ok_def)
  have fresh: "arr ?s \<noteq> next_id st" using log_inv_fresh(2) [OF inv] a by auto
  have old: "\<not> lvl < l" using assms(6) by simp
  from logger_With_child [OF inv assms(2,3)] have
    c1: "loggers st c1 = None" "c1 \<noteq> p" "next_id st \<le> c1" by metis+
  show ?thesis
  proof (cases "slen ?s < scap ?s")
    case True
    then have "length a - slen ?s = Suc (length a - Suc (slen ?s))" using a by simp
    with True a assms(2-5) c1 old show ?thesis
      by (auto simp: logger_With_def append_fields_def Let_def logger_Log_def slice_get_def)
  next
    case False
    with a assms(2-5) c1 old fresh show ?thesis
      by (auto simp: logger_With_def append_fields_def Let_def logger_Log_def slice_get_def)
  qed
qed

text \<open>Three fields added one by one, in arrays that double: room for a fourth is left.\<close>

definition chained :: logs where
  "chained =
     (let w = (\<lambda>l k st. logger_With (\<lambda>c n. 2 * c) l [log_String k k] st);
          (a, st) = NewLogger LevelInfo 7 no_logs; (b, st) = w a ''a'' st; (c, st) = w b ''b'' st
      in snd (w c ''c'' st))"

lemma chained_reach: "log_reach (\<lambda>c n. 2 * c) chained"
  unfolding chained_def Let_def split_def by (intro log_reach.intros)

theorem with_overwrites_siblings_field_witness:
  "\<exists>p c1 c2 st1 st2 fs. logger_With (\<lambda>c n. 2 * c) p [log_String ''k'' ''1''] chained = (c1, st1) \<and>
     logger_With (\<lambda>c n. 2 * c) p [log_String ''k'' ''2''] st1 = (c2, st2) \<and>
     logger_Log c1 LevelInfo ''m'' [] st2 =
       Some (7, LevelInfo, ''m'', fs @ [log_String ''k'' ''2''])"
proof -
  obtain p lg where p: "loggers chained p = Some lg"
    "cells chained (l_level lg) = Some LevelInfo"
    "slen (l_fields lg) < scap (l_fields lg)" "l_handler lg = 7"
  proof (rule that)
    show "loggers chained 6 = Some \<lparr>l_handler = 7, l_fields = \<lparr>arr = 5, slen = 3, scap = 4\<rparr>, l_level = 0\<rparr>"
      by (simp add: chained_def NewLogger_def no_logs_def logger_With_def append_fields_def Let_def)
  qed (simp_all add: chained_def NewLogger_def no_logs_def logger_With_def append_fields_def Let_def)
  obtain c1 st1 where w1: "logger_With (\<lambda>c n. 2 * c) p [log_String ''k'' ''1''] chained = (c1, st1)"
    by force
  obtain c2 st2 where w2: "logger_With (\<lambda>c n. 2 * c) p [log_String ''k'' ''2''] st1 = (c2, st2)"
    by force
  from with_overwrites_siblings_field [OF chained_reach p(1) w1 w2 p(2), of LevelInfo "''m''"] p(3,4)
  have "logger_Log c1 LevelInfo ''m'' [] st2 = Some (7, LevelInfo, ''m'',
      slice_get chained (l_fields lg) @ [log_String ''k'' ''2''])" by simp
  with w1 w2 show ?thesis by blast
qed

end
