(* ===== verification/Rx_States.thy ===== *)
theory Rx_States
  imports Rx_Errors
begin

section \<open>Service states, transitions and actions\<close>

text \<open>
  \<open>service_states.go\<close>, \<open>service_action.go\<close> and \<open>constants.go\<close>. The
  source's enumerations are named types over \<open>uint8\<close>: each is a datatype around
  an 8-bit word, so that the types stay apart as in Go and every one of the 256 values is
  a value of the model (a custom manager may send any of them). The named constants are
  abbreviations, so that the simplifier decides their equality.
\<close>

datatype State = State (state_code: "8 word")

abbreviation StateUnknown :: State where "StateUnknown \<equiv> State 0"
abbreviation StateExit :: State where "StateExit \<equiv> State 1"
abbreviation StateInit :: State where "StateInit \<equiv> State 2"
abbreviation StateIdle :: State where "StateIdle \<equiv> State 3"
abbreviation StateRun :: State where "StateRun \<equiv> State 4"
abbreviation StateStop :: State where "StateStop \<equiv> State 5"

definition State_String :: "State \<Rightarrow> string" where
  "State_String s =
    (if s = StateUnknown then ''unknown''
     else if s = StateInit then ''init''
     else if s = StateIdle then ''idle''
     else if s = StateRun then ''run''
     else if s = StateStop then ''stop''
     else if s = StateExit then ''exit''
     else ''unknown'')"

datatype StateTransition = StateTransition "8 word"

abbreviation TransitionUnknown :: StateTransition where "TransitionUnknown \<equiv> StateTransition 0"
abbreviation TransitionEntering :: StateTransition where "TransitionEntering \<equiv> StateTransition 1"
abbreviation TransitionExited :: StateTransition where "TransitionExited \<equiv> StateTransition 2"

datatype ServiceAction = ServiceAction "8 word"

abbreviation Entering :: ServiceAction where "Entering \<equiv> ServiceAction 0"
abbreviation Exited :: ServiceAction where "Exited \<equiv> ServiceAction 1"
abbreviation Changing :: ServiceAction where "Changing \<equiv> ServiceAction 2"
abbreviation NotIn :: ServiceAction where "NotIn \<equiv> ServiceAction 3"

definition ServiceAction_String :: "ServiceAction \<Rightarrow> string" where
  "ServiceAction_String a =
    (if a = Changing then ''changing''
     else if a = Entering then ''entering''
     else if a = Exited then ''exited''
     else if a = NotIn then ''not_in''
     else ''unknown'')"

record StateUpdate =
  State_of :: State
  Transition_of :: StateTransition

abbreviation mk_update :: "State \<Rightarrow> StateTransition \<Rightarrow> StateUpdate" where
  "mk_update s t \<equiv> \<lparr>State_of = s, Transition_of = t\<rparr>"

type_synonym ServiceStates = "string \<rightharpoonup> StateUpdate"

text \<open>
  \<open>ServiceStates.copy\<close>: a fresh map filled by ranging over the old one; \<open>keys\<close>
  is the order of the iteration.
\<close>

definition states_copy :: "string list \<Rightarrow> ServiceStates \<Rightarrow> ServiceStates" where
  "states_copy keys s = range_copy (\<lambda>_ _. True) s keys Map.empty"

lemma states_copy_id: "set keys = dom s \<Longrightarrow> states_copy keys s = s"
  by (rule ext) (simp add: states_copy_def range_copy_all split: option.splits)

record ServiceStateUpdate =
  Name :: string
  upd_State :: State
  upd_Transition :: StateTransition

abbreviation mk_ssu :: "string \<Rightarrow> State \<Rightarrow> StateTransition \<Rightarrow> ServiceStateUpdate" where
  "mk_ssu n s t \<equiv> \<lparr>Name = n, upd_State = s, upd_Transition = t\<rparr>"

subsection \<open>Topic and consumer names\<close>

definition prefix_rxd :: string where "prefix_rxd = ''_rxd''"

definition internalServiceStates :: string where
  "internalServiceStates = prefix_rxd @ ''.states''"

definition internalAllStatesConsumer :: "string \<Rightarrow> string" where
  "internalAllStatesConsumer consumer =
     strings_Join [internalServiceStates, ''all'', consumer] ''.''"

definition internalStatesConsumer :: "ServiceAction \<Rightarrow> State \<Rightarrow> string \<Rightarrow> string" where
  "internalStatesConsumer action target consumer =
     strings_Join
       [internalServiceStates, ServiceAction_String action, State_String target, consumer] ''.''"

lemma no_dot_action: "CHR ''.'' \<notin> set (ServiceAction_String a)"
  by (simp add: ServiceAction_String_def)

lemma no_dot_state: "CHR ''.'' \<notin> set (State_String s)"
  by (simp add: State_String_def)

lemma State_String_inject:
  assumes "State_String s = State_String t" and "State_String s \<noteq> ''unknown''"
  shows "s = t"
  using assms unfolding State_String_def by (simp split: if_splits)

lemma ServiceAction_String_not_all: "ServiceAction_String a \<noteq> ''all''"
  by (simp add: ServiceAction_String_def)

lemma consumer_names_inject:
  "internalStatesConsumer a t c = internalStatesConsumer a' t' c' \<longleftrightarrow>
     ServiceAction_String a = ServiceAction_String a' \<and> State_String t = State_String t' \<and> c = c'"
  by (simp add: internalStatesConsumer_def append_sep_inject no_dot_action no_dot_state)

lemma consumer_names_disjoint:
  "internalAllStatesConsumer c \<noteq> internalStatesConsumer a t c'"
proof
  assume "internalAllStatesConsumer c = internalStatesConsumer a t c'"
  then have "''all'' @ CHR ''.'' # c =
      ServiceAction_String a @ CHR ''.'' # State_String t @ CHR ''.'' # c'"
    by (simp add: internalAllStatesConsumer_def internalStatesConsumer_def)
  then have "''all'' = ServiceAction_String a"
    by (subst (asm) append_sep_inject) (simp_all add: no_dot_action)
  then show False using ServiceAction_String_not_all by metis
qed

end
