(* ===== verification/Rx_Watch.thy ===== *)
theory Rx_Watch
  imports Rx_Registry Rx_Loggers Rx_States
begin

section \<open>Service contexts and watchers (service\_context.go, service\_filter.go)\<close>

text \<open>
  The contexts that services are given, and the goroutines of the three watches: what each
  sends to its caller for a snapshot of the states, and how it ends.
\<close>

subsection \<open>Contexts\<close>

text \<open>
  A Go context is known by the cancel functions that end it: its own and those of the
  contexts it descends from, each a number. It is done once one of them has been called.
  A service context adds the name, the fully qualified consumer name, and the loggers,
  which are references into the loggers' state.
\<close>

type_synonym ctx = "nat list"

definition ctx_is_done :: "nat set \<Rightarrow> ctx \<Rightarrow> bool" where
  "ctx_is_done cancelled c \<longleftrightarrow> list_ex (\<lambda>i. i \<in> cancelled) c"

record serviceContext =
  sc_ctx :: ctx
  sc_name :: string
  fqcn :: string
  sc_fields :: "Field list"
  slogger :: nat
  ilogger :: nat

definition newServiceContext ::
  "(nat \<Rightarrow> nat \<Rightarrow> nat) \<Rightarrow> nat \<Rightarrow> ctx \<Rightarrow> string \<Rightarrow> nat \<Rightarrow> nat \<Rightarrow> logs \<Rightarrow> serviceContext \<times> logs" where
  "newServiceContext grow cancel parent name sl il st =
     (let fs = (if name \<noteq> [] then [log_String ''service'' name] else []);
          (s, st1) = logger_With grow sl fs st;
          (i, st2) = logger_With grow il fs st1
      in (\<lparr>sc_ctx = cancel # parent, sc_name = name, fqcn = name, sc_fields = [],
           slogger = s, ilogger = i\<rparr>, st2))"

definition WithParent :: "nat \<Rightarrow> ctx \<Rightarrow> serviceContext \<Rightarrow> serviceContext" where
  "WithParent cancel parent sc = sc\<lparr>sc_ctx := cancel # parent\<rparr>"

definition WithName :: "nat \<Rightarrow> string \<Rightarrow> serviceContext \<Rightarrow> serviceContext" where
  "WithName cancel name sc =
     sc\<lparr>sc_ctx := cancel # sc_ctx sc, sc_name := name, fqcn := fqcn sc @ ''_'' @ name\<rparr>"

definition sc_Log ::
  "Level \<Rightarrow> string \<Rightarrow> Field list \<Rightarrow> serviceContext \<Rightarrow> logs \<Rightarrow> (nat \<times> Level \<times> string \<times> Field list) option" where
  "sc_Log level msg fs sc st = logger_Log (slogger sc) level msg (sc_fields sc @ fs) st"

subsection \<open>The services a watcher is interested in\<close>

text \<open>
  The switch over the action for one service. An action that is none of the four passes
  over every service, also over those that are not found.
\<close>

definition known_action :: "ServiceAction \<Rightarrow> bool" where
  "known_action a \<longleftrightarrow> a = Entering \<or> a = Exited \<or> a = Changing \<or> a = NotIn"

definition interesting :: "ServiceAction \<Rightarrow> State \<Rightarrow> StateUpdate \<Rightarrow> bool" where
  "interesting action target current =
     (if action = Entering
      then State_of current = target \<and> Transition_of current = TransitionEntering
      else if action = Exited
      then State_of current = target \<and> Transition_of current = TransitionExited
      else if action = Changing then State_of current = target
      else if action = NotIn then State_of current \<noteq> target
      else False)"

text \<open>
  \<open>for _, name := range services\<close>: the names that a warning is logged for, and the map
  \<open>interestedServices\<close>.
\<close>

fun collect ::
  "ServiceAction \<Rightarrow> State \<Rightarrow> ServiceStates \<Rightarrow> string list \<Rightarrow> ServiceStates \<Rightarrow>
     string list \<times> ServiceStates" where
  "collect action target states [] acc = ([], acc)"
| "collect action target states (name # names) acc =
     (if known_action action then
        (case states name of
           None \<Rightarrow> (let (w, m) = collect action target states names acc in (name # w, m))
         | Some current \<Rightarrow>
             collect action target states names
               (if interesting action target current then acc(name \<mapsto> current) else acc))
      else collect action target states names acc)"

text \<open>\<open>len\<close> of a map whose keys are among a list.\<close>

definition map_len :: "'k list \<Rightarrow> ('k \<rightharpoonup> 'w) \<Rightarrow> nat" where
  "map_len keys m = length (filter (\<lambda>k. m k \<noteq> None) (remdups keys))"

lemma map_len_card: "dom m \<subseteq> set keys \<Longrightarrow> map_len keys m = card (dom m)"
proof -
  assume d: "dom m \<subseteq> set keys"
  have "map_len keys m = card (set (filter (\<lambda>k. m k \<noteq> None) (remdups keys)))"
    unfolding map_len_def by (subst distinct_card) simp_all
  also have "set (filter (\<lambda>k. m k \<noteq> None) (remdups keys)) = dom m" using d by auto
  finally show ?thesis .
qed

text \<open>One turn of each watcher: the warnings, and the map that is sent, if one is.\<close>

type_synonym turn = "ServiceStates \<Rightarrow> string list \<times> ServiceStates option"

definition all_turn :: "ServiceAction \<Rightarrow> State \<Rightarrow> string list \<Rightarrow> turn" where
  "all_turn action target services states =
     (let (w, interested) = collect action target states services Map.empty
      in (w, if map_len services interested = length services then Some interested else None))"

definition any_turn :: "ServiceAction \<Rightarrow> State \<Rightarrow> string list \<Rightarrow> turn" where
  "any_turn action target services states =
     (let (w, interested) = collect action target states services Map.empty
      in (w, if 0 < map_len services interested then Some interested else None))"

datatype FilterMode = FilterMode "8 word"

abbreviation FilterNone :: FilterMode where "FilterNone \<equiv> FilterMode 0"
abbreviation Include :: FilterMode where "Include \<equiv> FilterMode 1"
abbreviation Exclude :: FilterMode where "Exclude \<equiv> FilterMode 2"

record ServiceFilter =
  Mode :: FilterMode
  Names :: "string set"

definition NoFilter :: ServiceFilter where "NoFilter = \<lparr>Mode = FilterNone, Names = {}\<rparr>"

definition NewServiceFilter :: "FilterMode \<Rightarrow> string list \<Rightarrow> ServiceFilter" where
  "NewServiceFilter mode names = \<lparr>Mode = mode, Names = set names\<rparr>"

definition passes :: "ServiceFilter \<Rightarrow> string \<Rightarrow> bool" where
  "passes flt name =
     (if Mode flt = Include then name \<in> Names flt
      else if Mode flt = Exclude then name \<notin> Names flt
      else False)"

text \<open>\<open>keys\<close> is the order in which the states are ranged over.\<close>

definition filter_turn :: "ServiceFilter \<Rightarrow> string list \<Rightarrow> turn" where
  "filter_turn flt keys states =
     ([], Some (if Names flt = {} \<or> Mode flt = FilterNone then states
                else range_copy (\<lambda>name _. passes flt name) states keys Map.empty))"

subsection \<open>The watchers' goroutines\<close>

text \<open>
  A watcher subscribes to the states topic and then loops. Each time round its
  \<open>select\<close> finds the context done, the subscription closed, or a snapshot of the states;
  a send to the caller goes through (\<open>True\<close>) or is given up because the context is done.
  When the goroutine ends it closes the caller's channel, after removing its subscription
  if it had one.
\<close>

datatype wevent = GotStates ServiceStates bool | SubscriptionClosed | ContextDone

record watch =
  w_conf :: SubscriberConfig
  w_turn :: turn

definition watch_conf :: "string \<Rightarrow> SubscriberConfig" where
  "watch_conf consumer =
     \<lparr>ConsumerGroup = consumer, ErrIfExists = False, BufferSize = 1,
      conf_BufferPolicy = Some BufferPolicyDropOldest, conf_DropTimeout = 0\<rparr>"

definition WatchAllServices ::
  "ServiceAction \<Rightarrow> State \<Rightarrow> string list \<Rightarrow> serviceContext \<Rightarrow> watch" where
  "WatchAllServices action target services sc =
     \<lparr>w_conf = watch_conf (internalStatesConsumer action target (fqcn sc)),
      w_turn = all_turn action target services\<rparr>"

definition WatchAnyServices ::
  "ServiceAction \<Rightarrow> State \<Rightarrow> string list \<Rightarrow> serviceContext \<Rightarrow> watch" where
  "WatchAnyServices action target services sc =
     \<lparr>w_conf = watch_conf (internalStatesConsumer action target (fqcn sc)),
      w_turn = any_turn action target services\<rparr>"

definition WatchAllStates :: "ServiceFilter \<Rightarrow> string list \<Rightarrow> serviceContext \<Rightarrow> watch" where
  "WatchAllStates flt keys sc =
     \<lparr>w_conf = watch_conf (internalAllStatesConsumer (fqcn sc)),
      w_turn = filter_turn flt keys\<rparr>"

record wresult =
  sent :: "ServiceStates list"
  warned :: "string list"
  ended :: bool
  removes :: "(string \<times> nat) option"

fun watch_loop :: "turn \<Rightarrow> wevent list \<Rightarrow> ServiceStates list \<times> string list \<times> bool" where
  "watch_loop turn [] = ([], [], False)"
| "watch_loop turn (ContextDone # es) = ([], [], True)"
| "watch_loop turn (SubscriptionClosed # es) = ([], [], True)"
| "watch_loop turn (GotStates states through # es) =
     (case turn states of
        (w, None) \<Rightarrow> (let (ss, w', e) = watch_loop turn es in (ss, w @ w', e))
      | (w, Some m) \<Rightarrow>
          if through then (let (ss, w', e) = watch_loop turn es in (m # ss, w @ w', e))
          else ([], w, True))"

definition watch_goroutine :: "watch \<Rightarrow> nat option \<Rightarrow> wevent list \<Rightarrow> wresult" where
  "watch_goroutine w sub es =
     (case sub of
        None \<Rightarrow> \<lparr>sent = [], warned = [], ended = True, removes = None\<rparr>
      | Some c \<Rightarrow>
          (let (ss, ws, e) = watch_loop (w_turn w) es
           in \<lparr>sent = ss, warned = ws, ended = e,
               removes = (if e then Some (ConsumerGroup (w_conf w), c) else None)\<rparr>))"

end
