(* ===== verification/Rx_Watchers.thy ===== *)
theory Rx_Watchers
  imports Rx_Watch
begin

section \<open>What the watchers signal\<close>

text \<open>
  For which snapshots each of the three watches sends what, as a specification on maps that
  the loops over the services are shown to meet.
\<close>

text \<open>A context for the witnesses.\<close>

definition demo_sc :: "string \<Rightarrow> serviceContext" where
  "demo_sc n = \<lparr>sc_ctx = [1], sc_name = n, fqcn = n, sc_fields = [], slogger = 0, ilogger = 0\<rparr>"

subsection \<open>One snapshot\<close>

text \<open>The services that are in the state that is waited for.\<close>

definition reached :: "ServiceAction \<Rightarrow> State \<Rightarrow> ServiceStates \<Rightarrow> string \<Rightarrow> bool" where
  "reached action target states name =
     (case states name of None \<Rightarrow> False | Some u \<Rightarrow> interesting action target u)"

lemma interesting_known: "interesting a t u \<Longrightarrow> known_action a"
  by (auto simp: interesting_def known_action_def split: if_splits)

lemma collect_apply:
  "snd (collect a t st ns acc) =
     (\<lambda>n. if n \<in> set ns \<and> reached a t st n then st n else acc n)"
proof (induction ns arbitrary: acc)
  case (Cons n ns)
  show ?case
  proof (cases "st n")
    case None
    then show ?thesis using Cons.IH [of acc]
      by (auto simp: split_def Let_def reached_def fun_eq_iff)
  next
    case (Some u)
    then show ?thesis using Cons.IH interesting_known [of a t u]
      by (auto simp: reached_def fun_eq_iff)
  qed
qed simp

lemma collect_warned:
  "fst (collect a t st ns acc) = (if known_action a then filter (\<lambda>n. st n = None) ns else [])"
  by (induction ns arbitrary: acc) (auto simp: split_def Let_def split: option.split)

lemma map_len_collect:
  "map_len ns (snd (collect a t st ns Map.empty)) = length (filter (reached a t st) (remdups ns))"
proof -
  have "filter (\<lambda>n. snd (collect a t st ns Map.empty) n \<noteq> None) (remdups ns) =
      filter (reached a t st) (remdups ns)"
    by (rule filter_cong) (auto simp: collect_apply reached_def split: option.splits)
  then show ?thesis by (simp add: map_len_def)
qed

lemma filter_remdups_all:
  "length (filter P (remdups xs)) = length xs \<longleftrightarrow> distinct xs \<and> list_all P xs"
proof
  assume l: "length (filter P (remdups xs)) = length xs"
  have "length (filter P (remdups xs)) \<le> length (remdups xs)" "length (remdups xs) \<le> length xs"
    by (simp_all add: length_remdups_leq)
  with l have "length (remdups xs) = length xs" "length (filter P (remdups xs)) = length (remdups xs)"
    by simp_all
  then show "distinct xs \<and> list_all P xs"
    by (metis distinct_remdups length_filter_less length_remdups_eq less_irrefl list_all_iff)
next
  assume "distinct xs \<and> list_all P xs"
  then show "length (filter P (remdups xs)) = length xs"
    by (simp add: distinct_remdups_id list_all_iff)
qed

lemma collect_restrict:
  "snd (collect a t st ns Map.empty) = st |` {n \<in> set ns. reached a t st n}"
  by (auto simp: collect_apply restrict_map_def fun_eq_iff)

lemmas map_len_reached = map_len_collect [unfolded collect_restrict]

lemma all_turn_eq:
  "all_turn a t ns st =
     (if known_action a then filter (\<lambda>n. st n = None) ns else [],
      if distinct ns \<and> list_all (reached a t st) ns then Some (st |` set ns) else None)"
proof -
  have "list_all (reached a t st) ns \<Longrightarrow> {n \<in> set ns. reached a t st n} = set ns"
    by (auto simp: list_all_iff)
  then show ?thesis
    by (simp add: all_turn_def split_def Let_def collect_warned map_len_reached filter_remdups_all
        collect_restrict)
qed

lemma any_turn_eq:
  "any_turn a t ns st =
     (if known_action a then filter (\<lambda>n. st n = None) ns else [],
      if list_ex (reached a t st) ns then Some (st |` {n \<in> set ns. reached a t st n}) else None)"
proof -
  have "0 < length (filter (reached a t st) (remdups ns)) \<longleftrightarrow> list_ex (reached a t st) ns"
    by (auto simp: list_ex_iff filter_empty_conv)
  then show ?thesis
    by (simp add: any_turn_def split_def Let_def collect_warned map_len_reached collect_restrict
        del: length_greater_0_conv)
qed

subsection \<open>A watcher's goroutine\<close>

text \<open>A watcher whose sends go through, on a list of snapshots.\<close>

lemma watch_loop_snapshots:
  "watch_loop turn (map (\<lambda>st. GotStates st True) sts) =
     (List.map_filter (\<lambda>st. snd (turn st)) sts, concat (map (\<lambda>st. fst (turn st)) sts), False)"
  by (induction sts) (auto simp: split_def Let_def List.map_filter_def split: option.split prod.split)

lemma watch_loop_append:
  "watch_loop turn (map (\<lambda>st. GotStates st True) sts @ e # es) =
     (let (ss, ws, x) = watch_loop turn (e # es)
      in (List.map_filter (\<lambda>st. snd (turn st)) sts @ ss,
          concat (map (\<lambda>st. fst (turn st)) sts) @ ws, x))"
proof (induction sts)
  case Nil
  show ?case by (simp add: split_def Let_def List.map_filter_def)
next
  case (Cons st sts)
  then show ?case
    by (cases "turn st"; cases "snd (turn st)") (simp_all add: split_def Let_def List.map_filter_def)
qed



text \<open>
  A name given twice silences \<open>WatchAllServices\<close>. It compares the number of services
  found, each counted once, with the number of names given, so with a repeated name it
  never signals, whatever the states of the services.
\<close>

theorem watch_all_duplicate_never_signals:
  assumes "\<not> distinct services"
  shows "sent (watch_goroutine (WatchAllServices a t services sc) sub es) = []"
proof -
  have "fst (watch_loop (all_turn a t services) es) = []"
    using assms by (induction "all_turn a t services" es rule: watch_loop.induct)
      (auto simp: all_turn_eq split_def Let_def)
  then show ?thesis
    by (auto simp: watch_goroutine_def WatchAllServices_def split_def Let_def split: option.split)
qed

theorem watch_all_duplicate_never_signals_witness:
  "sent (watch_goroutine (WatchAllServices Entering StateRun [''db'', ''db''] (demo_sc ''w'')) (Some 0)
     [GotStates [''db'' \<mapsto> mk_update StateRun TransitionEntering] True]) = []"
proof -
  have "\<not> distinct [''db'', ''db'']" by simp
  from watch_all_duplicate_never_signals [OF this] show ?thesis .
qed

text \<open>
  \<open>WatchAnyServices\<close> sends a map for exactly the snapshots in which at least one of
  the services is in the state that is waited for, and the map holds just those that are.
\<close>

theorem watch_any_signals:
  "sent (watch_goroutine (WatchAnyServices a t services sc) (Some c)
      (map (\<lambda>st. GotStates st True) sts)) =
    map (\<lambda>st. st |` {n \<in> set services. reached a t st n})
      (filter (\<lambda>st. list_ex (reached a t st) services) sts)"
proof -
  have "List.map_filter (\<lambda>st. snd (any_turn a t services st)) sts =
      map (\<lambda>st. st |` {n \<in> set services. reached a t st n})
        (filter (\<lambda>st. list_ex (reached a t st) services) sts)"
    by (induction sts) (simp_all add: any_turn_eq List.map_filter_def)
  then show ?thesis
    by (simp add: watch_goroutine_def WatchAnyServices_def watch_loop_snapshots)
qed

text \<open>
  \<open>WatchAllStates\<close> sends every snapshot: in full for the mode \<open>None\<close>, and cut down to
  the names of the filter (\<open>Include\<close>) or to the others (\<open>Exclude\<close>), whatever the order in
  which Go ranges over the states. But a filter without names counts as no filter: an
  \<open>Include\<close> of nothing sends everything.
\<close>

theorem watch_states_filters:
  assumes "list_all (\<lambda>st. dom st = set keys) sts"
  shows "sent (watch_goroutine (WatchAllStates (NewServiceFilter mode names) keys sc) (Some c)
      (map (\<lambda>st. GotStates st True) sts)) =
    map (\<lambda>st. if mode = FilterNone \<or> names = [] then st
              else if mode = Include then st |` set names
              else if mode = Exclude then st |` (- set names) else Map.empty) sts"
proof -
  let ?f = "NewServiceFilter mode names"
  have one: "snd (filter_turn ?f keys st) =
      Some (if mode = FilterNone \<or> names = [] then st
              else if mode = Include then st |` set names
              else if mode = Exclude then st |` (- set names) else Map.empty)"
    if "dom st = set keys" for st
    using that range_copy_all [of keys st "\<lambda>name _. passes ?f name"]
    by (auto simp: filter_turn_def NewServiceFilter_def passes_def restrict_map_def fun_eq_iff
        split: option.split)
  have "List.map_filter (\<lambda>st. snd (filter_turn ?f keys st)) sts =
    map (\<lambda>st. if mode = FilterNone \<or> names = [] then st
              else if mode = Include then st |` set names
              else if mode = Exclude then st |` (- set names) else Map.empty) sts"
    using assms by (induction sts) (simp_all add: one List.map_filter_def)
  then show ?thesis
    by (simp add: watch_goroutine_def WatchAllStates_def watch_loop_snapshots)
qed

theorem watch_states_filters_witness:
  "sent (watch_goroutine (WatchAllStates (NewServiceFilter Include []) [''db''] (demo_sc ''w'')) (Some 0)
     [GotStates [''db'' \<mapsto> mk_update StateRun TransitionEntering] True]) =
   [[''db'' \<mapsto> mk_update StateRun TransitionEntering]]"
proof -
  have "list_all (\<lambda>st. dom st = set [''db'']) [[''db'' \<mapsto> mk_update StateRun TransitionEntering]]"
    by simp
  from watch_states_filters [OF this, of Include "[]" "demo_sc ''w''" 0] show ?thesis by simp
qed

end
