(* ===== verification/Rx_WatchSharing.thy ===== *)
theory Rx_WatchSharing
  imports Rx_Watchers
begin

section \<open>Contexts, names and shared subscriptions\<close>

text \<open>
  When child contexts end, when two watches have the same consumer name, and what becomes
  of two that do.
\<close>

text \<open>
  A child made by \<open>WithName\<close> is done when its parent is or when its own cancel function
  is called, and calling that leaves the parent running; \<open>WithParent\<close> detaches a context
  from where it was. Both keep the loggers, so a child's lines carry the name of the
  service it came from.
\<close>

theorem child_contexts_are_done_with_parent:
  assumes "k \<notin> set (sc_ctx sc)"
  shows "(ctx_is_done C (sc_ctx (WithName k n sc)) \<longleftrightarrow> k \<in> C \<or> ctx_is_done C (sc_ctx sc)) \<and>
    (ctx_is_done (insert k C) (sc_ctx sc) \<longleftrightarrow> ctx_is_done C (sc_ctx sc)) \<and>
    (ctx_is_done C (sc_ctx (WithParent k p sc)) \<longleftrightarrow> k \<in> C \<or> ctx_is_done C p) \<and>
    sc_Log l msg fs (WithName k n sc) st = sc_Log l msg fs sc st \<and>
    sc_Log l msg fs (WithParent k p sc) st = sc_Log l msg fs sc st"
proof -
  have "ctx_is_done (insert k C) (sc_ctx sc) \<longleftrightarrow> ctx_is_done C (sc_ctx sc)"
    using assms by (induction "sc_ctx sc") (auto simp: ctx_is_done_def list_ex_iff)
  then show ?thesis
    by (simp add: WithName_def WithParent_def ctx_is_done_def sc_Log_def)
qed

theorem child_contexts_are_done_with_parent_witness:
  "ctx_is_done {1} (sc_ctx (WithName 2 ''w'' (demo_sc ''api''))) \<and>
   \<not> ctx_is_done {2} (sc_ctx (demo_sc ''api''))"
proof -
  have "2 \<notin> set (sc_ctx (demo_sc ''api''))" by (simp add: demo_sc_def)
  from child_contexts_are_done_with_parent [OF this, of "{1}"]
    child_contexts_are_done_with_parent [OF this, of "{}"]
  show ?thesis by (simp add: demo_sc_def ctx_is_done_def)
qed

text \<open>
  Consumer names are unique up to the name of the context only. Two watches share a
  consumer group exactly if their actions, their targets (as texts) and the qualified names
  of their contexts agree; watches of all states never share with the others. And the
  qualified names of different contexts can agree: the child \<open>w\<close> of the service \<open>a\<close> has
  that of a service called \<open>a_w\<close>.
\<close>

theorem consumer_groups_collide_iff:
  "(ConsumerGroup (w_conf (WatchAllServices a t ns sc)) =
     ConsumerGroup (w_conf (WatchAnyServices a' t' ns' sc')) \<longleftrightarrow>
      ServiceAction_String a = ServiceAction_String a' \<and> State_String t = State_String t' \<and>
      fqcn sc = fqcn sc') \<and>
   ConsumerGroup (w_conf (WatchAllStates flt keys sc)) \<noteq>
     ConsumerGroup (w_conf (WatchAllServices a' t' ns' sc')) \<and>
   fqcn (WithName k w (demo_sc n)) = fqcn (demo_sc (n @ ''_'' @ w))"
  using consumer_names_disjoint
  by (simp add: WatchAllServices_def WatchAnyServices_def WatchAllStates_def watch_conf_def
      consumer_names_inject WithName_def demo_sc_def)

subsection \<open>Two watches on one channel\<close>

lemma bc_subscribe_group:
  assumes "bc_subscribe c b = (SubscribeResponse i e, b')"
  shows "subscribers b' (ConsumerGroup c) = Some i \<and> status b' = status b"
proof (cases "subscribers b (ConsumerGroup c)")
  case None
  with assms show ?thesis
    by (auto simp: bc_subscribe_def Let_def split: sum.splits)
next
  case (Some j)
  with assms show ?thesis by (auto simp: bc_subscribe_def split: if_splits)
qed

lemma topic_SubscribeD:
  assumes "topic_Subscribe NotDone c t = (Some (Some i, e), t')"
  obtains b where "bc_subscribe c (t_bc t) = (SubscribeResponse i e, b)" and "t' = t\<lparr>t_bc := b\<rparr>"
    and "\<not> t_closed t" and "status (t_bc t) = Running"
proof -
  have op: "\<not> t_closed t" using assms by (auto simp: topic_Subscribe_def)
  have run: "status (t_bc t) = Running"
    using assms op by (auto simp: topic_Subscribe_def serve_def split: if_splits)
  obtain r b where rb: "bc_subscribe c (t_bc t) = (r, b)" by force
  have "r = SubscribeResponse i e" "t' = t\<lparr>t_bc := b\<rparr>"
    using assms op run rb
    by (simp_all add: topic_Subscribe_def serve_def bc_request_def split: response.splits if_splits)
  with rb op run that show thesis by simp
qed

lemma topic_Subscribe_group:
  assumes "topic_Subscribe NotDone c t = (Some (Some i, e), t')"
  shows "subscribers (t_bc t') (ConsumerGroup c) = Some i \<and> status (t_bc t') = Running \<and> \<not> t_closed t'"
proof -
  from topic_SubscribeD [OF assms] obtain b where
    b: "bc_subscribe c (t_bc t) = (SubscribeResponse i e, b)" "t' = t\<lparr>t_bc := b\<rparr>"
      "\<not> t_closed t" "status (t_bc t) = Running" .
  with bc_subscribe_group [OF b(1)] show ?thesis by simp
qed

lemma topic_Subscribe_again:
  assumes "\<not> t_closed t" and "status (t_bc t) = Running"
    and "subscribers (t_bc t) (ConsumerGroup c) = Some i" and "\<not> ErrIfExists c"
  shows "fst (topic_Subscribe NotDone c t) = Some (Some i, None)"
  using assms by (simp add: topic_Subscribe_def serve_def bc_request_def bc_subscribe_def)

text \<open>
  C39: one watch ends another. When a service, or a child that has its qualified name,
  watches for the same action and target twice, once with \<open>WatchAllServices\<close> and once with
  \<open>WatchAnyServices\<close>, both watchers get the same channel of the states topic, so that each
  snapshot reaches one of them only; and when the first is cancelled, its removal of the
  subscription succeeds and closes the channel of the second, which then ends too.
\<close>

theorem cancelled_watch_ends_another:
  assumes "topic_reach conf t" and "fqcn sc' = fqcn sc"
    and "topic_Subscribe NotDone (w_conf (WatchAllServices a tg ns sc)) t = (Some (Some c, e), t1)"
    and "topic_Subscribe NotDone (w_conf (WatchAnyServices a tg ns' sc')) t1 = (Some (Some c', e'), t2)"
    and "removes (watch_goroutine (WatchAllServices a tg ns sc) (Some c) (ContextDone # es)) = Some (g, i)"
  shows "c' = c \<and> (\<exists>t3 s. topic_Unsubscribe NotDone g i t2 = (None, t3) \<and>
    store (t_bc t3) c' = Some s \<and> closed (ch s)) \<and>
    ended (watch_goroutine (WatchAnyServices a tg ns' sc') (Some c') (SubscriptionClosed # es'))"
proof -
  let ?w = "w_conf (WatchAllServices a tg ns sc)"
  have same: "w_conf (WatchAnyServices a tg ns' sc') = ?w"
    using assms(2) by (simp add: WatchAllServices_def WatchAnyServices_def)
  have gi: "g = ConsumerGroup ?w" "i = c"
    using assms(5) by (simp_all add: watch_goroutine_def WatchAllServices_def)
  have g1: "subscribers (t_bc t1) (ConsumerGroup ?w) = Some c"
    using topic_Subscribe_group [OF assms(3)] by simp
  have g2: "subscribers (t_bc t2) (ConsumerGroup ?w) = Some c'"
    using topic_Subscribe_group [OF assms(4)] same by simp
  have "fst (topic_Subscribe NotDone ?w t1) = Some (Some c, None)"
    using topic_Subscribe_group [OF assms(3)] g1
    by (intro topic_Subscribe_again) (simp_all add: WatchAllServices_def watch_conf_def)
  then have c': "c' = c" using assms(4) same by simp
  have "topic_reach conf t2"
    using topic_reach.sub [OF topic_reach.sub [OF assms(1)], of NotDone _ NotDone] assms(3,4)
    by (metis snd_conv)
  then have inv: "bc_inv (t_bc t2)" using topic_reach_inv by (auto simp: topic_inv_def)
  from bc_inv_stored [OF inv g2] obtain s where s: "store (t_bc t2) c' = Some s" "\<not> sub_closed s" .
  note run = topic_Subscribe_group [OF assms(4)]
  have "topic_Unsubscribe NotDone g i t2 = (None, t2\<lparr>t_bc := snd (bc_unsubscribe g i (t_bc t2))\<rparr>)"
    using run bc_unsubscribe_found [OF inv g2 s(1)] gi c'
    by (simp add: topic_Unsubscribe_def serve_def bc_request_def)
  moreover have "store (snd (bc_unsubscribe g i (t_bc t2))) c' = Some (snd (sub_Close s))"
    using bc_unsubscribe_found [OF inv g2 s(1)] gi c' by simp
  ultimately show ?thesis
    using c' sub_Close_open [OF s(2)] by (auto simp: watch_goroutine_def)
qed

theorem cancelled_watch_ends_another_witness:
  "\<exists>c t1 t2 t3. topic_Subscribe NotDone (w_conf (WatchAllServices Entering StateRun [''db''] (demo_sc ''api'')))
       (demo_topic ''x'') = (Some (Some c, None), t1) \<and>
     topic_Subscribe NotDone (w_conf (WatchAnyServices Entering StateRun [''db''] (demo_sc ''api''))) t1 =
       (Some (Some c, None), t2) \<and>
     topic_Unsubscribe NotDone
       (ConsumerGroup (w_conf (WatchAllServices Entering StateRun [''db''] (demo_sc ''api'')))) c t2 =
       (None, t3 :: ServiceStates topic)"
proof -
  let ?w = "WatchAllServices Entering StateRun [''db''] (demo_sc ''api'')"
  let ?v = "WatchAnyServices Entering StateRun [''db''] (demo_sc ''api'')"
  let ?t = "demo_topic ''x'' :: ServiceStates topic"
  have n: "subscribers (t_bc ?t) (ConsumerGroup (w_conf ?w)) = None"
    by (simp add: demo_topic_simps WatchAllServices_def watch_conf_def internalStatesConsumer_def
        internalServiceStates_def prefix_rxd_def)
  have z: "0 \<le> BufferSize (w_conf ?w)" by (simp add: WatchAllServices_def watch_conf_def)
  obtain c t1 where s1: "topic_Subscribe NotDone (w_conf ?w) ?t = (Some (Some c, None), t1)"
    using subscribe_unsubscribe_roundtrip_base [OF demo_topic_reach demo_topic_simps(1,2) n z] by blast
  have same: "w_conf ?v = w_conf ?w" by (simp add: WatchAllServices_def WatchAnyServices_def)
  have "fst (topic_Subscribe NotDone (w_conf ?v) t1) = Some (Some c, None)"
    unfolding same using topic_Subscribe_group [OF s1]
    by (intro topic_Subscribe_again) (simp_all add: WatchAllServices_def watch_conf_def)
  then obtain t2 where s2: "topic_Subscribe NotDone (w_conf ?v) t1 = (Some (Some c, None), t2)"
    by (cases "topic_Subscribe NotDone (w_conf ?v) t1") simp
  have r: "removes (watch_goroutine ?w (Some c) [ContextDone]) = Some (ConsumerGroup (w_conf ?w), c)"
    by (simp add: watch_goroutine_def)
  from cancelled_watch_ends_another [OF demo_topic_reach refl s1 s2 r] s1 s2 show ?thesis by blast
qed

end
