(* ===== verification/Rx_WatchLog.thy ===== *)
theory Rx_WatchLog
  imports Rx_WatchSharing
begin

section \<open>What contexts hand on and what watches log (service\_context.go)\<close>

subsection \<open>The methods of a context\<close>

text \<open>
  Of a Go context a service can ask more than whether it is done: why, by when, and for the
  values it carries. A context made by \<open>context.WithCancel\<close> has the deadline and the values
  of its parent and one more cancel function. It is done once one of the cancel functions
  has been called or its deadline has passed, and \<open>Err\<close> tells which came first.
\<close>

record ('k, 'x) go_context =
  gc_cancels :: ctx
  gc_deadline :: "int option"
  gc_values :: "'k \<rightharpoonup> 'x"

record instant =
  now :: int
  cancelled_at :: "nat \<rightharpoonup> int"

definition gc_WithCancel :: "nat \<Rightarrow> ('k, 'x) go_context \<Rightarrow> ('k, 'x) go_context" where
  "gc_WithCancel k p = p\<lparr>gc_cancels := k # gc_cancels p\<rparr>"

lemma gc_WithCancel_fields [simp]:
  "gc_deadline (gc_WithCancel k p) = gc_deadline p" "gc_values (gc_WithCancel k p) = gc_values p"
  by (simp_all add: gc_WithCancel_def)

text \<open>The moments until now at which the cancel functions of a context were called.\<close>

definition cancel_times :: "instant \<Rightarrow> ctx \<Rightarrow> int list" where
  "cancel_times w c = filter (\<lambda>t. t \<le> now w) (List.map_filter (cancelled_at w) c)"

definition passed :: "instant \<Rightarrow> int option \<Rightarrow> bool" where
  "passed w d \<longleftrightarrow> (case d of None \<Rightarrow> False | Some t \<Rightarrow> t \<le> now w)"

definition gc_Done :: "instant \<Rightarrow> ('k, 'x) go_context \<Rightarrow> bool" where
  "gc_Done w c \<longleftrightarrow> cancel_times w (gc_cancels c) \<noteq> [] \<or> passed w (gc_deadline c)"

definition gc_Err :: "instant \<Rightarrow> ('k, 'x) go_context \<Rightarrow> go_error option" where
  "gc_Err w c =
     (if \<not> gc_Done w c then None
      else if passed w (gc_deadline c) \<and>
              list_all (\<lambda>t. the (gc_deadline c) \<le> t) (cancel_times w (gc_cancels c))
      then Some CtxDeadlineExceeded else Some CtxCanceled)"

text \<open>
  A service context with the Go context it embeds and the registry it hands out; the four
  methods of \<open>context.Context\<close> are those of the embedded one.
\<close>

record ('k, 'x) full_context =
  embedded :: "('k, 'x) go_context"
  service :: serviceContext
  sc_ic :: nat

definition fc_ok :: "('k, 'x) full_context \<Rightarrow> bool" where
  "fc_ok sc \<longleftrightarrow> sc_ctx (service sc) = gc_cancels (embedded sc)"

definition fc_WithParent :: "nat \<Rightarrow> ('k, 'x) go_context \<Rightarrow> ('k, 'x) full_context \<Rightarrow> ('k, 'x) full_context" where
  "fc_WithParent k parent sc =
     sc\<lparr>embedded := gc_WithCancel k parent, service := WithParent k (gc_cancels parent) (service sc)\<rparr>"

definition fc_WithName :: "nat \<Rightarrow> string \<Rightarrow> ('k, 'x) full_context \<Rightarrow> ('k, 'x) full_context" where
  "fc_WithName k name sc =
     sc\<lparr>embedded := gc_WithCancel k (embedded sc), service := WithName k name (service sc)\<rparr>"

definition sc_Deadline :: "('k, 'x) full_context \<Rightarrow> int option" where
  "sc_Deadline sc = gc_deadline (embedded sc)"

definition sc_Done :: "instant \<Rightarrow> ('k, 'x) full_context \<Rightarrow> bool" where
  "sc_Done w sc = gc_Done w (embedded sc)"

definition sc_Err :: "instant \<Rightarrow> ('k, 'x) full_context \<Rightarrow> go_error option" where
  "sc_Err w sc = gc_Err w (embedded sc)"

definition sc_Value :: "'k \<Rightarrow> ('k, 'x) full_context \<Rightarrow> 'x option" where
  "sc_Value key sc = gc_values (embedded sc) key"

definition sc_Logger :: "('k, 'x) full_context \<Rightarrow> nat" where
  "sc_Logger sc = slogger (service sc)"

definition sc_IntracomRegistry :: "('k, 'x) full_context \<Rightarrow> nat" where
  "sc_IntracomRegistry sc = sc_ic sc"

lemma gc_Err_Done: "gc_Err w c \<noteq> None \<longleftrightarrow> gc_Done w c"
  by (simp add: gc_Err_def)

lemma gc_Err_cancelled: "gc_Err w c = Some e \<Longrightarrow> IsCancelled e"
  by (auto simp: gc_Err_def split: if_splits)

text \<open>The cancel functions without a time-out are those of the coarser model.\<close>

lemma gc_Done_cancels:
  assumes "gc_deadline c = None"
  shows "gc_Done w c \<longleftrightarrow> ctx_is_done {i. \<exists>t. cancelled_at w i = Some t \<and> t \<le> now w} (gc_cancels c)"
proof -
  have "cancel_times w cs \<noteq> [] \<longleftrightarrow>
      ctx_is_done {i. \<exists>t. cancelled_at w i = Some t \<and> t \<le> now w} cs" for cs
    by (induction cs) (auto simp: cancel_times_def ctx_is_done_def List.map_filter_simps split: option.split)
  with assms show ?thesis by (simp add: gc_Done_def passed_def)
qed

lemma gc_WithCancel_idle:
  assumes "cancelled_at w k = None"
  shows "gc_Done w (gc_WithCancel k p) = gc_Done w p \<and> gc_Err w (gc_WithCancel k p) = gc_Err w p"
proof -
  have "cancel_times w (k # cs) = cancel_times w cs" for cs
    using assms by (simp add: cancel_times_def List.map_filter_simps)
  then show ?thesis by (simp add: gc_Done_def gc_Err_def gc_WithCancel_def)
qed

lemma gc_WithCancel_done:
  "gc_Done w (gc_WithCancel k p) \<longleftrightarrow> (\<exists>t. cancelled_at w k = Some t \<and> t \<le> now w) \<or> gc_Done w p"
  by (auto simp: gc_Done_def gc_WithCancel_def cancel_times_def List.map_filter_simps split: option.split)

text \<open>
  What a child inherits. The child that \<open>WithName\<close> makes has the deadline, the values, the
  logger and the registry of the service's context; it is done when that one is, with the
  same error as long as it has not been cancelled by itself. Of a context made by
  \<open>WithParent\<close> all of this, but the logger and the registry, is that of the new parent: when
  the daemon cancels the service's own context, it does not notice. Whatever ends a context,
  its error counts as a cancellation for the managers.
\<close>

theorem child_context_methods:
  assumes "cancelled_at w k = None"
  shows "sc_Deadline (fc_WithName k n sc) = sc_Deadline sc \<and>
    sc_Value key (fc_WithName k n sc) = sc_Value key sc \<and>
    sc_Done w (fc_WithName k n sc) = sc_Done w sc \<and> sc_Err w (fc_WithName k n sc) = sc_Err w sc \<and>
    sc_Deadline (fc_WithParent k p sc) = gc_deadline p \<and> sc_Value key (fc_WithParent k p sc) = gc_values p key \<and>
    sc_Done w (fc_WithParent k p sc) = gc_Done w p \<and> sc_Err w (fc_WithParent k p sc) = gc_Err w p \<and>
    sc_Logger (fc_WithName k n sc) = sc_Logger sc \<and> sc_Logger (fc_WithParent k p sc) = sc_Logger sc \<and>
    sc_IntracomRegistry (fc_WithName k n sc) = sc_IntracomRegistry sc \<and>
    sc_IntracomRegistry (fc_WithParent k p sc) = sc_IntracomRegistry sc \<and>
    (sc_Err w sc \<noteq> None \<longleftrightarrow> sc_Done w sc) \<and> (\<forall>e. sc_Err w sc = Some e \<longrightarrow> IsCancelled e)"
  using gc_Err_Done [of w "embedded sc"] gc_Err_cancelled [of w "embedded sc"]
  by (simp add: sc_Deadline_def sc_Value_def sc_Done_def sc_Err_def sc_Logger_def sc_IntracomRegistry_def
      fc_WithName_def fc_WithParent_def WithName_def WithParent_def gc_WithCancel_idle [OF assms])

definition demo_fc :: "(string, string) full_context" where
  "demo_fc = \<lparr>embedded = \<lparr>gc_cancels = [1], gc_deadline = Some 10, gc_values = [''k'' \<mapsto> ''v'']\<rparr>,
     service = demo_sc ''api'', sc_ic = 0\<rparr>"

theorem child_context_methods_witness:
  "sc_Err \<lparr>now = 7, cancelled_at = [1 \<mapsto> 5]\<rparr> (fc_WithName 2 ''w'' demo_fc) = Some CtxCanceled \<and>
   sc_Err \<lparr>now = 12, cancelled_at = Map.empty\<rparr> (fc_WithName 2 ''w'' demo_fc) = Some CtxDeadlineExceeded \<and>
   sc_Err \<lparr>now = 7, cancelled_at = [1 \<mapsto> 5]\<rparr>
     (fc_WithParent 2 \<lparr>gc_cancels = [], gc_deadline = None, gc_values = Map.empty\<rparr> demo_fc) = None"
proof -
  let ?w = "\<lparr>now = 7, cancelled_at = [1 \<mapsto> 5]\<rparr>" and ?v = "\<lparr>now = 12, cancelled_at = Map.empty\<rparr>"
  let ?p = "\<lparr>gc_cancels = [], gc_deadline = None, gc_values = Map.empty\<rparr> :: (string, string) go_context"
  have k: "cancelled_at ?w 2 = None" "cancelled_at ?v 2 = None" by simp_all
  note c = child_context_methods [where n = "''w''" and sc = demo_fc and p = ?p and key = "''k''"]
  have "sc_Err ?w (fc_WithName 2 ''w'' demo_fc) = sc_Err ?w demo_fc"
    using c [OF k(1)] by (elim conjE)
  moreover have "sc_Err ?v (fc_WithName 2 ''w'' demo_fc) = sc_Err ?v demo_fc"
    using c [OF k(2)] by (elim conjE)
  moreover have "sc_Err ?w (fc_WithParent 2 ?p demo_fc) = gc_Err ?w ?p"
    using c [OF k(1)] by (elim conjE)
  ultimately show ?thesis
    by (simp add: sc_Err_def gc_Err_def gc_Done_def demo_fc_def cancel_times_def passed_def
        List.map_filter_simps)
qed

subsection \<open>What a watch logs\<close>

text \<open>
  The entries that a watch writes to its internal logger: that it could not subscribe; a
  warning for each service of its list that a snapshot does not have; and, only
  \<open>WatchAllServices\<close>, that it gave up a send because its context was done.
\<close>

type_synonym watch_entry = "Level \<times> string \<times> Field list"

definition not_found_entry :: "string \<Rightarrow> string \<Rightarrow> watch_entry" where
  "not_found_entry consumer name =
     (LevelWarning, ''service not found in states'',
      [log_String ''service'' name, log_String ''consumer'' consumer])"

definition give_up_entry :: watch_entry where
  "give_up_entry = (LevelDebug, ''context done, stopping watch for interested services'', [])"

fun watch_loop_log :: "bool \<Rightarrow> string \<Rightarrow> turn \<Rightarrow> wevent list \<Rightarrow> watch_entry list" where
  "watch_loop_log says consumer turn [] = []"
| "watch_loop_log says consumer turn (ContextDone # es) = []"
| "watch_loop_log says consumer turn (SubscriptionClosed # es) = []"
| "watch_loop_log says consumer turn (GotStates states through # es) =
     (case turn states of
        (w, None) \<Rightarrow> map (not_found_entry consumer) w @ watch_loop_log says consumer turn es
      | (w, Some m) \<Rightarrow>
          map (not_found_entry consumer) w @
          (if through then watch_loop_log says consumer turn es
           else if says then [give_up_entry] else []))"

text \<open>\<open>says\<close> is whether the watch is a \<open>WatchAllServices\<close>; \<open>sub\<close> is what subscribing answered.\<close>

definition watch_log :: "bool \<Rightarrow> watch \<Rightarrow> string + nat \<Rightarrow> wevent list \<Rightarrow> watch_entry list" where
  "watch_log says w sub es =
     (case sub of
        Inl err \<Rightarrow> [(LevelError, ''failed to subscribe to internal states: '' @ err, [])]
      | Inr c \<Rightarrow> watch_loop_log says (ConsumerGroup (w_conf w)) (w_turn w) es)"

definition is_warning :: "watch_entry \<Rightarrow> bool" where
  "is_warning e \<longleftrightarrow> fst e = LevelWarning"

lemma not_found_warns [simp]:
  "is_warning (not_found_entry consumer n)" "\<not> is_warning give_up_entry"
  by (simp_all add: is_warning_def not_found_entry_def give_up_entry_def)

lemma filter_not_found [simp]:
  "filter is_warning (map (not_found_entry consumer) ns) = map (not_found_entry consumer) ns"
  by (induction ns) simp_all

text \<open>The warnings that are logged are those of the watch as a function.\<close>

lemma watch_loop_log_warnings:
  "filter is_warning (watch_loop_log says consumer turn es) =
     map (not_found_entry consumer) (fst (snd (watch_loop turn es)))"
  by (induction turn es rule: watch_loop.induct) (auto split: prod.splits option.splits)

lemma watch_log_warnings:
  "filter is_warning (watch_log says w (Inr c) es) =
     map (not_found_entry (ConsumerGroup (w_conf w))) (warned (watch_goroutine w (Some c) es))"
  by (simp add: watch_log_def watch_goroutine_def watch_loop_log_warnings split: prod.split)

text \<open>\<open>collect\<close> warns of the names that the snapshot does not have, in the order of the list.\<close>

lemma collect_warns:
  "fst (collect a t states ns acc) = (if known_action a then filter (\<lambda>n. states n = None) ns else [])"
  by (induction a t states ns acc rule: collect.induct) (auto simp: Let_def split: option.split prod.split)

lemma collect_missing:
  "states n = None \<Longrightarrow> acc n = None \<Longrightarrow> snd (collect a t states ns acc) n = None"
proof (induction a t states ns acc rule: collect.induct)
  case (2 a t states m ms acc)
  then have "states m \<noteq> None \<Longrightarrow> n \<noteq> m" by auto
  with 2 show ?case by (auto simp: Let_def split: option.split prod.splits)
qed simp

lemma collect_others:
  "acc n = None \<Longrightarrow> n \<notin> set ns \<Longrightarrow> snd (collect a t states ns acc) n = None"
  by (induction a t states ns acc rule: collect.induct) (auto simp: Let_def split: option.split prod.splits)

lemma collect_dom: "dom (snd (collect a t states ns Map.empty)) \<subseteq> set ns"
  by (metis collect_others domIff subsetI)

lemma all_turn_missing:
  assumes "n \<in> set services" and "states n = None"
  shows "snd (all_turn a t services states) = None"
proof -
  let ?m = "snd (collect a t states services Map.empty)"
  have "?m n = None" using collect_missing [of states n Map.empty] assms(2) by simp
  then have "n \<notin> dom ?m" by (simp add: domIff)
  moreover have "dom ?m \<subseteq> set services" by (rule collect_dom)
  ultimately have d: "dom ?m \<subset> set services" using assms(1) by blast
  then have "map_len services ?m = card (dom ?m)" by (intro map_len_card) blast
  also have "\<dots> < card (set services)" using d by (intro psubset_card_mono) simp_all
  also have "\<dots> \<le> length services" by (rule card_length)
  finally show ?thesis by (simp add: all_turn_def split_def Let_def)
qed

text \<open>
  A watch for a service that is not there. When a name in the list of a \<open>WatchAllServices\<close> is
  that of no service of the daemon, the watch sends nothing, whatever the others do, and it
  logs a warning about the name for every single snapshot that it receives; no error tells
  the caller.
\<close>

theorem missing_service_warns_for_ever:
  assumes "known_action a" and "n \<in> set services" and "list_all (\<lambda>st. st n = None) sts"
  shows "let w = WatchAllServices a t services sc; es = map (\<lambda>st. GotStates st True) sts
    in sent (watch_goroutine w (Some c) es) = [] \<and> \<not> ended (watch_goroutine w (Some c) es) \<and>
       length sts \<le> length (filter (\<lambda>e. e = not_found_entry (ConsumerGroup (w_conf w)) n)
         (watch_log True w (Inr c) es))"
proof -
  let ?w = "WatchAllServices a t services sc" and ?g = "ConsumerGroup (w_conf (WatchAllServices a t services sc))"
  have turn: "w_turn ?w = all_turn a t services" by (simp add: WatchAllServices_def)
  have one: "all_turn a t services st = (filter (\<lambda>n. st n = None) services, None)" if "st n = None" for st
    using all_turn_missing [of n services st a t] that assms(2) collect_warns [of a t st services Map.empty] assms(1)
    by (simp add: all_turn_def split_def Let_def split: if_splits)
  have "watch_loop (all_turn a t services) (map (\<lambda>st. GotStates st True) sts) =
      ([], concat (map (\<lambda>st. filter (\<lambda>n. st n = None) services) sts), False)"
    using assms(3) by (induction sts) (simp_all add: one)
  then have s: "sent (watch_goroutine ?w (Some c) (map (\<lambda>st. GotStates st True) sts)) = []"
    "\<not> ended (watch_goroutine ?w (Some c) (map (\<lambda>st. GotStates st True) sts))"
    by (simp_all add: watch_goroutine_def turn)
  have one_len: "1 \<le> length (filter (\<lambda>e. e = not_found_entry ?g n) (map (not_found_entry ?g)
      (filter (\<lambda>n. st n = None) services)))" if "st n = None" for st
  proof -
    have "not_found_entry ?g n \<in> set (filter (\<lambda>e. e = not_found_entry ?g n)
        (map (not_found_entry ?g) (filter (\<lambda>n. st n = None) services)))"
      using that assms(2) by auto
    then show ?thesis by (cases "filter (\<lambda>e. e = not_found_entry ?g n)
        (map (not_found_entry ?g) (filter (\<lambda>n. st n = None) services))") auto
  qed
  have "length sts \<le> length (filter (\<lambda>e. e = not_found_entry ?g n)
      (watch_loop_log True ?g (all_turn a t services) (map (\<lambda>st. GotStates st True) sts)))"
    using assms(3)
  proof (induction sts)
    case (Cons st sts)
    with one [of st] one_len [of st] show ?case by simp
  qed simp
  with s show ?thesis by (simp add: Let_def watch_log_def turn)
qed

theorem missing_service_warns_for_ever_witness:
  "length (watch_log True (WatchAllServices Entering StateRun [''db''] (demo_sc ''w'')) (Inr 0)
     (map (\<lambda>st. GotStates st True) [Map.empty, [''api'' \<mapsto> mk_update StateRun TransitionEntering]])) \<ge> 2"
proof -
  have "known_action Entering" "''db'' \<in> set [''db'']"
    "list_all (\<lambda>st. st ''db'' = None) [Map.empty, [''api'' \<mapsto> mk_update StateRun TransitionEntering]]"
    by (simp_all add: known_action_def)
  note l = missing_service_warns_for_ever [OF this, of StateRun "demo_sc ''w''" 0, unfolded Let_def]
  show ?thesis
    by (rule order_trans [OF _ order_trans [OF l [THEN conjunct2, THEN conjunct2] length_filter_le]]) simp
qed

end
