(* ===== verification/Rx_LogHandlers.thy ===== *)
theory Rx_LogHandlers
  imports Rx_Log
begin

section \<open>Log handlers (log/handler.go, log/option.go, log/journald, daemon\_log.go)\<close>

text \<open>
  A handler turns a message and its fields into a line and writes it. A writer is named by
  a number; \<open>None\<close> is a nil writer, through which a write panics. The clock is a
  parameter: the formatted time is an argument.
\<close>

definition Stdout :: nat where "Stdout = 1"
definition Stderr :: nat where "Stderr = 2"

text \<open>\<open>strings.Replace(s, old, new, 1)\<close> with an \<open>old\<close> that is not empty.\<close>

fun replace_first :: "string \<Rightarrow> string \<Rightarrow> string \<Rightarrow> string" where
  "replace_first [] old new = []"
| "replace_first (c # cs) old new =
     (if take (length old) (c # cs) = old then new @ drop (length old) (c # cs)
      else c # replace_first cs old new)"

definition fields_text :: "Field list \<Rightarrow> string" where
  "fields_text fs = concat (map (\<lambda>f. '' '' @ Key f @ ''='' @ Value f) fs)"

datatype written = Ignored | Line nat string | NilWriter

fun write_line :: "nat option \<Rightarrow> string \<Rightarrow> written" where
  "write_line None line = NilWriter"
| "write_line (Some w) line = Line w (line @ [CHR 0x0A])"

record defaultHandler =
  h_stdout :: "nat option"
  h_stderr :: "nat option"
  h_disabled :: bool
  msgfmt :: string
  timefmt :: string

datatype HandlerOption =
    WithWriters "nat option" "nat option"
  | WithStdOutWriter "nat option"
  | WithStdErrWriter "nat option"
  | WithMessageFormat string
  | WithTimeFormat string
  | WithEnabled bool

fun handler_option :: "defaultHandler \<Rightarrow> HandlerOption \<Rightarrow> defaultHandler" where
  "handler_option h (WithWriters out err) =
     (let h1 = (if out \<noteq> None then h\<lparr>h_stdout := Some Stdout\<rparr> else h);
          h2 = (if err \<noteq> None then h1\<lparr>h_stderr := Some Stderr\<rparr> else h1)
      in h2\<lparr>h_stdout := out, h_stderr := err\<rparr>)"
| "handler_option h (WithStdOutWriter out) =
     (let h1 = (if out \<noteq> None then h\<lparr>h_stdout := Some Stdout\<rparr> else h) in h1\<lparr>h_stdout := out\<rparr>)"
| "handler_option h (WithStdErrWriter err) =
     (let h1 = (if err \<noteq> None then h\<lparr>h_stderr := Some Stderr\<rparr> else h) in h1\<lparr>h_stderr := err\<rparr>)"
| "handler_option h (WithMessageFormat f) = h\<lparr>msgfmt := f\<rparr>"
| "handler_option h (WithTimeFormat f) = h\<lparr>timefmt := f\<rparr>"
| "handler_option h (WithEnabled e) = h\<lparr>h_disabled := \<not> e\<rparr>"

definition NewHandler :: "HandlerOption list \<Rightarrow> defaultHandler" where
  "NewHandler opts =
     foldl handler_option
       \<lparr>h_stdout = Some Stdout, h_stderr = Some Stderr, h_disabled = False,
        msgfmt = ''{time} [{level}] {message}'', timefmt = ''2006-01-02T15:04:05Z07:00''\<rparr> opts"

text \<open>\<open>now\<close> gives the current time in a format.\<close>

definition default_Handle ::
  "(string \<Rightarrow> string) \<Rightarrow> defaultHandler \<Rightarrow> Level \<Rightarrow> string \<Rightarrow> Field list \<Rightarrow> written" where
  "default_Handle now h level message fs =
     (if h_disabled h then Ignored
      else
        (let m1 = replace_first (msgfmt h) ''{time}'' (now (timefmt h));
             m2 = replace_first m1 ''{level}'' (Level_String level);
             m3 = replace_first m2 ''{message}'' message;
             line = m3 @ fields_text fs
         in if level < LevelNotice then write_line (h_stderr h) line
            else write_line (h_stdout h) line))"

record journaldHandler =
  severityPrefix :: bool
  j_stdout :: "nat option"
  j_stderr :: "nat option"

fun WithSeverityPrefix :: "bool \<Rightarrow> journaldHandler \<Rightarrow> journaldHandler" where
  "WithSeverityPrefix enabled h = h\<lparr>severityPrefix := enabled\<rparr>"

definition journald_NewHandler :: "bool list \<Rightarrow> journaldHandler" where
  "journald_NewHandler opts =
     foldl (\<lambda>h enabled. WithSeverityPrefix enabled h)
       \<lparr>severityPrefix = False, j_stdout = Some Stdout, j_stderr = Some Stderr\<rparr> opts"

definition journald_Handle :: "journaldHandler \<Rightarrow> Level \<Rightarrow> string \<Rightarrow> Field list \<Rightarrow> written" where
  "journald_Handle h level message fs =
     (let pre = (if severityPrefix h then ''<'' @ dec (unat (level_code level)) @ ''>'' else []);
          line = pre @ ''['' @ Level_String level @ ''] '' @ message @ fields_text fs
      in if level < LevelWarning then write_line (j_stderr h) line
         else write_line (j_stdout h) line)"

subsection \<open>The file of the daemon's internal log\<close>

text \<open>
  \<open>total\<close> and \<open>limit\<close> are 64-bit words. The file is its contents; what the operating
  system answers is an input: whether opening and truncating succeed, and how many bytes a
  write writes (a write that writes fewer than it was given returns an error). The file is
  opened for appending.
\<close>

record daemonLogHandler =
  d_enabled :: bool
  limit :: "64 word"
  total :: "64 word"
  d_file :: "string option"

record os_answer =
  opens :: bool
  truncates :: bool
  writes :: nat

definition log_line :: "string \<Rightarrow> Level \<Rightarrow> string \<Rightarrow> Field list \<Rightarrow> string" where
  "log_line now level message fs =
     now @ '' '' @ Level_String level @ '': '' @ message @ fields_text fs @ [CHR 0x0A]"

text \<open>\<open>disk\<close> is what the file holds before it is opened.\<close>

definition daemonlog_Handle ::
  "os_answer \<Rightarrow> string \<Rightarrow> string \<Rightarrow> Level \<Rightarrow> string \<Rightarrow> Field list \<Rightarrow> daemonLogHandler \<Rightarrow> daemonLogHandler" where
  "daemonlog_Handle os disk now level message fs h =
     (if \<not> d_enabled h then h
      else if d_file h = None \<and> \<not> opens os then h\<lparr>d_enabled := False\<rparr>
      else
        (let contents = (case d_file h of None \<Rightarrow> disk | Some c \<Rightarrow> c);
             msg = log_line now level message fs;
             over = (total h + of_nat (length msg) > limit h)
         in if over \<and> \<not> truncates os then h\<lparr>d_file := Some contents\<rparr>
            else
              (let n = min (writes os) (length msg)
               in h\<lparr>d_file := Some ((if over then [] else contents) @ take n msg),
                    total := total h + of_nat n\<rparr>)))"

definition daemonlog_Close :: "bool \<Rightarrow> daemonLogHandler \<Rightarrow> bool \<times> daemonLogHandler" where
  "daemonlog_Close closes h =
     (if d_file h \<noteq> None then (if closes then (True, h\<lparr>d_file := None\<rparr>) else (False, h)) else (True, h))"

subsection \<open>What is written where\<close>

lemma replace_first_skip:
  "CHR 0x7B \<notin> set xs \<Longrightarrow>
     replace_first (xs @ ys) (CHR 0x7B # k) new = xs @ replace_first ys (CHR 0x7B # k) new"
  by (induction xs) auto

lemma level_no_brace: "CHR 0x7B \<notin> set (Level_String l)"
  by (simp add: Level_String_def)

text \<open>
  With its defaults the handler writes one line: the time, the level in brackets, the
  message as it is, and each field as \<open>key=value\<close>. Warnings and what is more severe go to
  the error writer, the rest to the other. The handler for journald draws that line one
  level higher, so that a warning goes to its standard output.
\<close>

theorem handlers_route_by_level:
  assumes "CHR 0x7B \<notin> set (now (timefmt (NewHandler [])))"
  shows "default_Handle now (NewHandler []) level msg fs =
      Line (if level \<le> LevelWarning then Stderr else Stdout)
        (now (timefmt (NewHandler [])) @ '' ['' @ Level_String level @ ''] '' @ msg @
         fields_text fs @ [CHR 0x0A]) \<and>
    (\<exists>pre. journald_Handle (journald_NewHandler opts) level msg fs =
      Line (if level \<le> LevelError then Stderr else Stdout)
        (pre @ ''['' @ Level_String level @ ''] '' @ msg @ fields_text fs @ [CHR 0x0A]))"
proof -
  let ?t = "now ''2006-01-02T15:04:05Z07:00''"
  have t: "CHR 0x7B \<notin> set ?t" using assms by (simp add: NewHandler_def)
  have below: "level < LevelNotice \<longleftrightarrow> level \<le> LevelWarning" "level < LevelWarning \<longleftrightarrow> level \<le> LevelError"
    by (cases level; simp add: less_eq_Level_def less_Level_def word_le_nat_alt word_less_nat_alt; arith)+
  have lv: "CHR 0x7B \<notin> set (?t @ '' ['' @ Level_String level @ ''] '')"
    using t level_no_brace [of level] by simp
  have "replace_first (replace_first (replace_first ''{time} [{level}] {message}'' ''{time}'' ?t)
      ''{level}'' (Level_String level)) ''{message}'' msg =
      ?t @ '' ['' @ Level_String level @ ''] '' @ msg"
    using replace_first_skip [OF t, of "'' [{level}] {message}''" "''level}''" "Level_String level"]
      replace_first_skip [OF lv, of "''{message}''" "''message}''" msg]
    by simp
  then have "default_Handle now (NewHandler []) level msg fs =
      Line (if level \<le> LevelWarning then Stderr else Stdout)
        (now (timefmt (NewHandler [])) @ '' ['' @ Level_String level @ ''] '' @ msg @
         fields_text fs @ [CHR 0x0A])"
    using below(1) by (simp add: default_Handle_def NewHandler_def)
  moreover have "j_stdout (journald_NewHandler opts) = Some Stdout \<and>
      j_stderr (journald_NewHandler opts) = Some Stderr"
  proof -
    have "j_stdout (foldl (\<lambda>h enabled. WithSeverityPrefix enabled h) h opts) = j_stdout h \<and>
        j_stderr (foldl (\<lambda>h enabled. WithSeverityPrefix enabled h) h opts) = j_stderr h" for h :: journaldHandler
      by (induction opts arbitrary: h) simp_all
    then show ?thesis by (simp add: journald_NewHandler_def)
  qed
  ultimately show ?thesis using below(2) by (simp add: journald_Handle_def Let_def)
qed

theorem handlers_route_by_level_witness:
  "default_Handle (\<lambda>_. ''now'') (NewHandler []) LevelWarning ''disk low'' [log_String ''n'' ''1''] =
     Line Stderr (''now [WARNING] disk low n=1'' @ [CHR 0x0A])"
proof -
  have "CHR 0x7B \<notin> set ((\<lambda>_. ''now'') (timefmt (NewHandler [])))" by simp
  from handlers_route_by_level [OF this, of LevelWarning "''disk low''" "[log_String ''n'' ''1'']"]
  show ?thesis by (simp add: fields_text_def Level_String_def)
qed

text \<open>
  A nil writer is kept. \<open>WithWriters\<close>, \<open>WithStdOutWriter\<close> and \<open>WithStdErrWriter\<close>
  store the writer they are given, nil as well, whatever the handler had before: they do
  not fall back to the standard streams, and a message for that stream panics.
\<close>

theorem nil_writer_is_kept:
  "handler_option h (WithWriters out err) = h\<lparr>h_stdout := out, h_stderr := err\<rparr> \<and>
   handler_option h (WithStdOutWriter out) = h\<lparr>h_stdout := out\<rparr> \<and>
   handler_option h (WithStdErrWriter err) = h\<lparr>h_stderr := err\<rparr> \<and>
   default_Handle now (NewHandler [WithWriters None None]) level msg fs = NilWriter"
  by (simp add: Let_def NewHandler_def default_Handle_def)

subsection \<open>The limit of the internal log\<close>

text \<open>Messages handled one after the other, each write succeeding in full.\<close>

fun handle_all :: "(string \<times> Level \<times> string) list \<Rightarrow> daemonLogHandler \<Rightarrow> daemonLogHandler" where
  "handle_all [] h = h"
| "handle_all ((now, level, msg) # ms) h =
     handle_all ms
       (daemonlog_Handle \<lparr>opens = True, truncates = True, writes = length (log_line now level msg [])\<rparr>
          [] now level msg [] h)"

definition line_of :: "string \<times> Level \<times> string \<Rightarrow> string" where
  "line_of m = (case m of (now, level, msg) \<Rightarrow> log_line now level msg [])"

definition lines_length :: "(string \<times> Level \<times> string) list \<Rightarrow> nat" where
  "lines_length ms = sum_list (map (length \<circ> line_of) ms)"

lemma total_add:
  assumes "unat (t :: 64 word) + n < 2 ^ 64"
  shows "unat (t + of_nat n) = unat t + n"
proof -
  have "unat (of_nat n :: 64 word) = n" using assms by (simp add: unat_of_nat)
  with assms show ?thesis by (simp add: unat_add_lem [THEN iffD1])
qed

lemma handle_over:
  assumes "d_enabled h" and "d_file h = Some c"
    and "unat (total h) + length (line_of m) < 2 ^ 64"
    and "unat (limit h) < unat (total h) + length (line_of m)"
  obtains h' where "handle_all (m # ms) h = handle_all ms h'" and "d_enabled h'"
    and "d_file h' = Some (line_of m)" and "unat (total h') = unat (total h) + length (line_of m)"
    and "limit h' = limit h"
proof -
  obtain now level msg where m: "m = (now, level, msg)" by (cases m) auto
  have l: "length (log_line now level msg []) = length (line_of m)" by (simp add: line_of_def m)
  have over: "limit h < total h + of_nat (length (line_of m))"
    using assms(4) total_add [OF assms(3)] by (simp add: word_less_nat_alt)
  have "daemonlog_Handle \<lparr>opens = True, truncates = True, writes = length (log_line now level msg [])\<rparr>
      [] now level msg [] h = h\<lparr>d_file := Some (line_of m), total := total h + of_nat (length (line_of m))\<rparr>"
    using assms(1,2) over by (simp add: daemonlog_Handle_def Let_def l) (simp add: line_of_def m)
  with assms(1) total_add [OF assms(3)] that show thesis by (simp add: m)
qed

text \<open>
  The internal log keeps one line. The file is truncated when a message would take
  \<open>total\<close> past the limit, but \<open>total\<close> still counts what was thrown away. So from the first
  message that passes the limit on, every message truncates the file, which then holds
  that message alone.
\<close>

theorem full_log_keeps_last_line:
  assumes "d_enabled h" and "d_file h = Some c"
    and "unat (total h) + lines_length (m # ms) < 2 ^ 64"
    and "unat (limit h) < unat (total h) + length (line_of m)"
  shows "d_file (handle_all (m # ms) h) = Some (line_of (last (m # ms)))"
  using assms
proof (induction ms arbitrary: h c m)
  case Nil
  then have "unat (total h) + length (line_of m) < 2 ^ 64" by (simp add: lines_length_def)
  from handle_over [OF Nil.prems(1,2) this Nil.prems(4), of "[]"] show ?case by (metis handle_all.simps(1) last_ConsL)
next
  case (Cons n ms)
  have sum: "lines_length (m # n # ms) = length (line_of m) + lines_length (n # ms)"
    by (simp add: lines_length_def)
  then have "unat (total h) + length (line_of m) < 2 ^ 64" using Cons.prems(3) by simp
  from handle_over [OF Cons.prems(1,2) this Cons.prems(4), of "n # ms"] obtain h' where
    h': "handle_all (m # n # ms) h = handle_all (n # ms) h'" "d_enabled h'"
      "d_file h' = Some (line_of m)" "unat (total h') = unat (total h) + length (line_of m)"
      "limit h' = limit h" .
  have "d_file (handle_all (n # ms) h') = Some (line_of (last (n # ms)))"
    using Cons.prems(3,4) h' sum by (intro Cons.IH [OF h'(2,3)]) simp_all
  with h'(1) show ?case by simp
qed

theorem full_log_keeps_last_line_witness:
  "d_file (handle_all [(''t'', LevelInfo, ''one''), (''t'', LevelInfo, ''two'')]
     \<lparr>d_enabled = True, limit = 20, total = 10, d_file = Some ''old line..''\<rparr>) =
   Some (''t INFO: two'' @ [CHR 0x0A])"
proof -
  let ?h = "\<lparr>d_enabled = True, limit = 20, total = 10, d_file = Some ''old line..''\<rparr>"
  let ?m = "(''t'', LevelInfo, ''one'')" and ?n = "(''t'', LevelInfo, ''two'')"
  have l: "length (line_of ?m) = 12" "length (line_of ?n) = 12"
    by (simp_all add: line_of_def log_line_def Level_String_def fields_text_def)
  have "unat (total ?h) + lines_length [?m, ?n] < 2 ^ 64" using l by (simp add: lines_length_def)
  moreover have "unat (limit ?h) < unat (total ?h) + length (line_of ?m)" using l by simp
  ultimately show ?thesis
    using full_log_keeps_last_line [of ?h "''old line..''" ?m "[?n]"]
    by (simp add: line_of_def log_line_def Level_String_def fields_text_def del: handle_all.simps)
qed

end
