(* ===== verification/Rx_Managers.thy ===== *)
theory Rx_Managers
  imports Rx_States
begin

section \<open>Service managers (service_manager.go)\<close>

text \<open>
  A manager runs in a goroutine of its own and drives the four lifecycle methods of a
  service's runner. Its effects, in the order they happen, are the events of a trace: a
  send on \<open>updateC\<close>, a call of a runner method, a line for the user's log, a
  (re)setting of the timer. What the manager does not decide is its input: at each
  \<open>select\<close> either the context's channel or the timer's is taken, and a call of a
  runner method returns nil, returns an error, or panics. The input is the list of those
  choices. When the list is used up the manager waits in its \<open>select\<close>, or in a
  runner method that does not return.

  Both channels may be ready at once, and Go then picks either, so every list of choices is
  possible. The sends on \<open>updateC\<close> are taken to succeed: the daemon's states watcher
  receives from it until every manager has returned.
\<close>

datatype meth = Init | Idle | Run | Stop

datatype outcome = Returns "go_error option" | Panics string

datatype choice = CtxDone | Fired outcome

datatype mevent =
    Update ServiceStateUpdate
  | Call meth
  | LogError string
  | Timer duration

record mstate =
  state :: State
  hasStopped :: bool

text \<open>How a run of a manager ends, as far as the input goes.\<close>

datatype mresult = Waiting mstate | Exited_loop mstate | Panicked string

text \<open>
  \<open>if !IsCancelled(err) { sctx.Log(log.LevelError, err.Error()) }\<close>, for a method's result.
\<close>

definition log_unless_cancelled :: "go_error option \<Rightarrow> mevent list" where
  "log_unless_cancelled r =
     (case r of None \<Rightarrow> [] | Some err \<Rightarrow> if IsCancelled err then [] else [LogError (error_msg err)])"

subsection \<open>RunContinuousManager\<close>

record RunContinuousManager =
  DefaultDelay :: duration
  StartupDelay :: duration
  StateTimeouts :: "State \<rightharpoonup> duration"

text \<open>
  \<open>NewDefaultManager\<close> with its options, and the two options. The map of timeouts is
  copied into the manager key by key.
\<close>

datatype ManagerOption = WithInitDelay duration | WithTransitionTimeouts "State \<rightharpoonup> duration"

fun apply_option :: "RunContinuousManager \<Rightarrow> ManagerOption \<Rightarrow> RunContinuousManager" where
  "apply_option m (WithInitDelay d) = m\<lparr>StartupDelay := d\<rparr>"
| "apply_option m (WithTransitionTimeouts t) = m\<lparr>StateTimeouts := StateTimeouts m ++ t\<rparr>"

definition NewDefaultManager :: "ManagerOption list \<Rightarrow> RunContinuousManager" where
  "NewDefaultManager opts =
     foldl apply_option
       \<lparr>DefaultDelay = 100 * Millisecond, StartupDelay = 100 * Millisecond,
        StateTimeouts = Map.empty\<rparr> opts"

text \<open>
  \<open>timeout.Reset\<close> at the end of an iteration: the timeout of the next state, or the
  default.
\<close>

definition rc_timer :: "RunContinuousManager \<Rightarrow> State \<Rightarrow> mevent" where
  "rc_timer m s =
     Timer (case StateTimeouts m s of Some d \<Rightarrow> d | None \<Rightarrow> DefaultDelay m)"

text \<open>
  One iteration of the loop: the update that the state is entered, then the
  \<open>select\<close>, the method of the current state, the update that the state was left, and
  the timer. A panic of the method leaves the function at the call.
\<close>

definition rc_iter ::
  "RunContinuousManager \<Rightarrow> string \<Rightarrow> choice \<Rightarrow> mstate \<Rightarrow> mevent list \<times> (string + mstate)" where
  "rc_iter m nm c s =
     (let enter = Update (mk_ssu nm (state s) TransitionEntering) in
      case c of
        CtxDone \<Rightarrow> ([enter], Inr (s\<lparr>state := StateExit\<rparr>))
      | Fired out \<Rightarrow>
         (if state s = StateInit then
            (case out of
               Panics p \<Rightarrow> ([enter, Call Init], Inl p)
             | Returns r \<Rightarrow>
                 (let s' = (if r \<noteq> None then StateStop else StateIdle) in
                  (enter # Call Init # log_unless_cancelled r @
                     [Update (mk_ssu nm StateInit TransitionExited), rc_timer m s'],
                   Inr \<lparr>state = s', hasStopped = False\<rparr>)))
          else if state s = StateIdle then
            (case out of
               Panics p \<Rightarrow> ([enter, Call Idle], Inl p)
             | Returns r \<Rightarrow>
                 (let s' = (if r \<noteq> None then StateStop else StateRun) in
                  (enter # Call Idle # log_unless_cancelled r @
                     [Update (mk_ssu nm StateIdle TransitionExited), rc_timer m s'],
                   Inr \<lparr>state = s', hasStopped = False\<rparr>)))
          else if state s = StateRun then
            (case out of
               Panics p \<Rightarrow> ([enter, Call Run], Inl p)
             | Returns r \<Rightarrow>
                 (enter # Call Run # log_unless_cancelled r @
                    [Update (mk_ssu nm StateRun TransitionExited), rc_timer m StateStop],
                  Inr \<lparr>state = StateStop, hasStopped = False\<rparr>))
          else if state s = StateStop then
            (case out of
               Panics p \<Rightarrow> ([enter, Call Stop], Inl p)
             | Returns r \<Rightarrow>
                 (enter # Call Stop # log_unless_cancelled r @
                    [Update (mk_ssu nm StateStop TransitionExited), rc_timer m StateInit],
                  Inr \<lparr>state = StateInit, hasStopped = True\<rparr>))
          else
            ([enter, LogError ''unknown state encountered'', rc_timer m (state s)],
             Inr (s\<lparr>hasStopped := False\<rparr>))))"

subsection \<open>RunUntilSuccessManager\<close>

record RunUntilSuccessManager =
  ru_StartupDelay :: duration
  ru_DefaultDelay :: duration

definition NewRunUntilSuccessManager :: "duration \<Rightarrow> duration \<Rightarrow> RunUntilSuccessManager" where
  "NewRunUntilSuccessManager defaultDelay startupDelay =
     \<lparr>ru_StartupDelay = startupDelay, ru_DefaultDelay = defaultDelay\<rparr>"

text \<open>
  The ticker fires repeatedly, so an iteration sets no timer. A state other than the
  four has no case and no default, so an iteration only resets \<open>hasStopped\<close>.
\<close>

definition ru_iter ::
  "string \<Rightarrow> choice \<Rightarrow> mstate \<Rightarrow> mevent list \<times> (string + mstate)" where
  "ru_iter nm c s =
     (let enter = Update (mk_ssu nm (state s) TransitionEntering) in
      case c of
        CtxDone \<Rightarrow> ([enter], Inr (s\<lparr>state := StateExit\<rparr>))
      | Fired out \<Rightarrow>
         (if state s = StateInit then
            (case out of
               Panics p \<Rightarrow> ([enter, Call Init], Inl p)
             | Returns r \<Rightarrow>
                 (enter # Call Init # log_unless_cancelled r @
                    [Update (mk_ssu nm StateInit TransitionExited)],
                  Inr \<lparr>state = (if r \<noteq> None then StateStop else StateIdle), hasStopped = False\<rparr>))
          else if state s = StateIdle then
            (case out of
               Panics p \<Rightarrow> ([enter, Call Idle], Inl p)
             | Returns r \<Rightarrow>
                 (enter # Call Idle # log_unless_cancelled r @
                    [Update (mk_ssu nm StateIdle TransitionExited)],
                  Inr \<lparr>state = (if r \<noteq> None then StateStop else StateRun), hasStopped = False\<rparr>))
          else if state s = StateRun then
            (case out of
               Panics p \<Rightarrow> ([enter, Call Run], Inl p)
             | Returns r \<Rightarrow>
                 (enter # Call Run # log_unless_cancelled r @
                    [Update (mk_ssu nm StateRun TransitionExited)],
                  Inr \<lparr>state = (if r \<noteq> None then StateStop else StateExit), hasStopped = False\<rparr>))
          else if state s = StateStop then
            (case out of
               Panics p \<Rightarrow> ([enter, Call Stop], Inl p)
             | Returns r \<Rightarrow>
                 (enter # Call Stop # log_unless_cancelled r @
                    [Update (mk_ssu nm StateStop TransitionExited)],
                  Inr \<lparr>state = (if r \<noteq> None then StateStop else StateInit), hasStopped = True\<rparr>))
          else ([enter], Inr (s\<lparr>hasStopped := False\<rparr>))))"

subsection \<open>The loop and the common end of both managers\<close>

text \<open>
  \<open>for state != StateExit { ... }\<close> over an iteration. Without a further choice the
  manager has sent the update of the state it enters and waits.
\<close>

fun manager_loop ::
  "(choice \<Rightarrow> mstate \<Rightarrow> mevent list \<times> (string + mstate)) \<Rightarrow> string \<Rightarrow> mstate \<Rightarrow>
     choice list \<Rightarrow> mevent list \<times> mresult" where
  "manager_loop iter nm s [] =
     (if state s = StateExit then ([], Exited_loop s)
      else ([Update (mk_ssu nm (state s) TransitionEntering)], Waiting s))"
| "manager_loop iter nm s (c # cs) =
     (if state s = StateExit then ([], Exited_loop s)
      else case iter c s of
        (evs, Inl p) \<Rightarrow> (evs, Panicked p)
      | (evs, Inr s') \<Rightarrow>
          (let (evs', r) = manager_loop iter nm s' cs in (evs @ evs', r)))"

datatype mexit = Still_running | Returned | Panic_out string

text \<open>
  After the loop: \<open>Stop\<close> once more unless it was the last method that ran, then the
  final update. \<open>fin\<close> is what that last call of \<open>Stop\<close> does.
\<close>

definition manager_end ::
  "string \<Rightarrow> outcome \<Rightarrow> mevent list \<times> mresult \<Rightarrow> mevent list \<times> mexit" where
  "manager_end nm fin lr =
     (case lr of
        (evs, Waiting s) \<Rightarrow> (evs, Still_running)
      | (evs, Panicked p) \<Rightarrow> (evs, Panic_out p)
      | (evs, Exited_loop s) \<Rightarrow>
          (let final = Update (mk_ssu nm StateExit TransitionEntering) in
           if hasStopped s then (evs @ [final], Returned)
           else
             (let enter = Update (mk_ssu nm StateStop TransitionEntering) in
              case fin of
                Panics p \<Rightarrow> (evs @ [enter, Call Stop], Panic_out p)
              | Returns r \<Rightarrow>
                  (evs @ enter # Call Stop # log_unless_cancelled r @
                     [Update (mk_ssu nm StateStop TransitionExited), final],
                   Returned))))"

text \<open>
  \<open>RunContinuousManager.Manage\<close>. A panic leaves \<open>Manage\<close> and is recovered by
  the daemon's goroutine.
\<close>

definition rc_Manage ::
  "RunContinuousManager \<Rightarrow> string \<Rightarrow> outcome \<Rightarrow> choice list \<Rightarrow> mevent list \<times> mexit" where
  "rc_Manage m nm fin cs =
     (let (evs, r) = manager_end nm fin
        (manager_loop (rc_iter m nm) nm \<lparr>state = StateInit, hasStopped = False\<rparr> cs)
      in (Timer (StartupDelay m) # evs, r))"

text \<open>
  \<open>RunUntilSuccessManager.Manage\<close>. \<open>time.NewTicker\<close> and \<open>Ticker.Reset\<close>
  panic on an interval that is not positive. Before the loop the first \<open>Init\<close> runs
  under a \<open>select\<close> of its own, with \<open>hasStopped\<close> already true. The deferred
  \<open>recover\<close> turns every panic into a log line, after which \<open>Manage\<close> returns.
\<close>

definition ru_start ::
  "RunUntilSuccessManager \<Rightarrow> string \<Rightarrow> choice \<Rightarrow> mevent list \<times> (string + mstate)" where
  "ru_start m nm c =
     (case c of
        CtxDone \<Rightarrow> ([], Inr \<lparr>state = StateExit, hasStopped = True\<rparr>)
      | Fired out \<Rightarrow>
          (let enter = Update (mk_ssu nm StateInit TransitionEntering) in
           case out of
             Panics p \<Rightarrow> ([enter, Call Init], Inl p)
           | Returns r \<Rightarrow>
               (let evs = enter # Call Init # log_unless_cancelled r @
                       [Update (mk_ssu nm StateInit TransitionExited)] in
                if ru_DefaultDelay m \<le> 0
                then (evs, Inl ''non-positive interval for Ticker.Reset'')
                else (evs @ [Timer (ru_DefaultDelay m)],
                      Inr \<lparr>state = (if r \<noteq> None then StateStop else StateIdle),
                           hasStopped = True\<rparr>))))"

definition ru_body ::
  "RunUntilSuccessManager \<Rightarrow> string \<Rightarrow> outcome \<Rightarrow> choice list \<Rightarrow> mevent list \<times> mexit" where
  "ru_body m nm fin cs =
     (if ru_StartupDelay m \<le> 0 then ([], Panic_out ''non-positive interval for NewTicker'')
      else case cs of
        [] \<Rightarrow> ([Timer (ru_StartupDelay m)], Still_running)
      | c # cs' \<Rightarrow>
          (case ru_start m nm c of
             (evs, Inl p) \<Rightarrow> (Timer (ru_StartupDelay m) # evs, Panic_out p)
           | (evs, Inr s) \<Rightarrow>
               (let (evs', r) = manager_end nm fin (manager_loop (ru_iter nm) nm s cs')
                in (Timer (ru_StartupDelay m) # evs @ evs', r))))"

definition ru_Manage ::
  "RunUntilSuccessManager \<Rightarrow> string \<Rightarrow> outcome \<Rightarrow> choice list \<Rightarrow> mevent list \<times> mexit" where
  "ru_Manage m nm fin cs =
     (case ru_body m nm fin cs of
        (evs, Panic_out p) \<Rightarrow> (evs @ [LogError (''recovered from a panic: '' @ p)], Returned)
      | (evs, r) \<Rightarrow> (evs, r))"

subsection \<open>Projections of a trace\<close>

fun calls :: "mevent list \<Rightarrow> meth list" where
  "calls [] = []"
| "calls (Call k # es) = k # calls es"
| "calls (_ # es) = calls es"

fun updates :: "mevent list \<Rightarrow> ServiceStateUpdate list" where
  "updates [] = []"
| "updates (Update u # es) = u # updates es"
| "updates (_ # es) = updates es"

fun timers :: "mevent list \<Rightarrow> duration list" where
  "timers [] = []"
| "timers (Timer d # es) = d # timers es"
| "timers (_ # es) = timers es"

fun errors :: "mevent list \<Rightarrow> string list" where
  "errors [] = []"
| "errors (LogError l # es) = l # errors es"
| "errors (_ # es) = errors es"

lemma calls_append [simp, trace_laws]: "calls (xs @ ys) = calls xs @ calls ys"
  by (induction xs rule: calls.induct) auto

lemma updates_append [simp, trace_laws]: "updates (xs @ ys) = updates xs @ updates ys"
  by (induction xs rule: updates.induct) auto

lemma timers_append [simp, trace_laws]: "timers (xs @ ys) = timers xs @ timers ys"
  by (induction xs rule: timers.induct) auto

lemma errors_append [simp, trace_laws]: "errors (xs @ ys) = errors xs @ errors ys"
  by (induction xs rule: errors.induct) auto

lemma log_projections [simp, trace_laws]:
  "calls (log_unless_cancelled r) = []"
  "updates (log_unless_cancelled r) = []"
  "timers (log_unless_cancelled r) = []"
  by (simp_all add: log_unless_cancelled_def split: option.split)

lemma rc_timer_projections [simp, trace_laws]:
  "calls [rc_timer m s] = []" "updates [rc_timer m s] = []" "errors [rc_timer m s] = []"
  by (simp_all add: rc_timer_def)

text \<open>The state that each method runs in.\<close>

fun state_of :: "meth \<Rightarrow> State" where
  "state_of Init = StateInit"
| "state_of Idle = StateIdle"
| "state_of Run = StateRun"
| "state_of Stop = StateStop"

lemma state_of_not_exit [simp]: "state_of k \<noteq> StateExit" "StateExit \<noteq> state_of k"
  by (cases k; simp)+

lemma state_of_inject [simp]: "state_of j = state_of k \<longleftrightarrow> j = k"
  by (cases j; cases k; simp)

abbreviation entering :: "string \<Rightarrow> meth \<Rightarrow> ServiceStateUpdate" where
  "entering nm k \<equiv> mk_ssu nm (state_of k) TransitionEntering"
abbreviation exited :: "string \<Rightarrow> meth \<Rightarrow> ServiceStateUpdate" where
  "exited nm k \<equiv> mk_ssu nm (state_of k) TransitionExited"
abbreviation final_update :: "string \<Rightarrow> ServiceStateUpdate" where
  "final_update nm \<equiv> mk_ssu nm StateExit TransitionEntering"

subsection \<open>The lifecycle as an abstract automaton\<close>

text \<open>
  What both managers promise, apart from their events: which method comes after which,
  given whether it succeeded, and when the loop is left (\<open>None\<close>). A run of the
  automaton gives the methods called and the way the loop ends: waiting for method
  \<open>k\<close>'s turn, cancelled on entering \<open>k\<close>, finished by itself after method \<open>k\<close>,
  or by a panic.
\<close>

type_synonym lifecycle = "meth \<Rightarrow> bool \<Rightarrow> meth option"

fun rc_next :: lifecycle where
  "rc_next Init ok = Some (if ok then Idle else Stop)"
| "rc_next Idle ok = Some (if ok then Run else Stop)"
| "rc_next Run ok = Some Stop"
| "rc_next Stop ok = Some Init"

fun ru_next :: lifecycle where
  "ru_next Init ok = Some (if ok then Idle else Stop)"
| "ru_next Idle ok = Some (if ok then Run else Stop)"
| "ru_next Run ok = (if ok then None else Some Stop)"
| "ru_next Stop ok = Some (if ok then Init else Stop)"

datatype aresult = Turn meth | Cancelled meth | Finished | Panic string

fun lc_run :: "lifecycle \<Rightarrow> meth \<Rightarrow> choice list \<Rightarrow> meth list \<times> aresult" where
  "lc_run nxt k [] = ([], Turn k)"
| "lc_run nxt k (CtxDone # cs) = ([], Cancelled k)"
| "lc_run nxt k (Fired (Panics p) # cs) = ([k], Panic p)"
| "lc_run nxt k (Fired (Returns r) # cs) =
     (case nxt k (r = None) of
        None \<Rightarrow> ([k], Finished)
      | Some j \<Rightarrow> (let (ks, a) = lc_run nxt j cs in (k # ks, a)))"

text \<open>
  What a run of the automaton says about the manager: the updates sent (each method that
  ran is announced before and after), whether the last method that ran is \<open>Stop\<close>
  (given whether it was before), and how the loop ends.
\<close>

fun lc_updates :: "string \<Rightarrow> meth list \<Rightarrow> aresult \<Rightarrow> ServiceStateUpdate list" where
  "lc_updates nm [] (Turn j) = [entering nm j]"
| "lc_updates nm [] (Cancelled j) = [entering nm j]"
| "lc_updates nm [] a = []"
| "lc_updates nm [k] (Panic p) = [entering nm k]"
| "lc_updates nm (k # ks) a = entering nm k # exited nm k # lc_updates nm ks a"

fun ends_stopped :: "bool \<Rightarrow> meth list \<Rightarrow> bool" where
  "ends_stopped b [] = b"
| "ends_stopped b (k # ks) = ends_stopped (k = Stop) ks"

fun lc_result :: "bool \<Rightarrow> meth list \<Rightarrow> aresult \<Rightarrow> mresult" where
  "lc_result b ks (Turn j) = Waiting \<lparr>state = state_of j, hasStopped = ends_stopped b ks\<rparr>"
| "lc_result b ks (Cancelled j) =
     Exited_loop \<lparr>state = StateExit, hasStopped = ends_stopped b ks\<rparr>"
| "lc_result b ks Finished = Exited_loop \<lparr>state = StateExit, hasStopped = ends_stopped b ks\<rparr>"
| "lc_result b ks (Panic p) = Panicked p"

lemma ends_stopped_last: "ends_stopped b ks = (if ks = [] then b else last ks = Stop)"
  by (induction b ks rule: ends_stopped.induct) auto

lemma lc_result_Cons [simp]: "lc_result b (k # ks) a = lc_result (k = Stop) ks a"
  by (cases a) auto

lemma lc_updates_Cons:
  "ks \<noteq> [] \<or> (\<forall>p. a \<noteq> Panic p) \<Longrightarrow>
     lc_updates nm (k # ks) a = entering nm k # exited nm k # lc_updates nm ks a"
  by (cases ks; cases a) auto

lemma lc_run_panic_nonempty: "lc_run nxt k cs = (ks, Panic p) \<Longrightarrow> ks \<noteq> []"
  by (induction nxt k cs arbitrary: ks rule: lc_run.induct)
    (auto split: option.splits prod.splits)

lemma manager_loop_exit [simp]:
  "state s = StateExit \<Longrightarrow> manager_loop iter nm s cs = ([], Exited_loop s)"
  by (cases cs) auto

text \<open>
  The end of \<open>Manage\<close> in the automaton's terms: when the loop is left,
  \<open>Stop\<close> is called once more unless it was the last method, and the final update is
  sent.
\<close>

fun left_loop :: "aresult \<Rightarrow> bool" where
  "left_loop (Turn j) = False"
| "left_loop (Cancelled j) = True"
| "left_loop Finished = True"
| "left_loop (Panic p) = False"

definition end_calls :: "bool \<Rightarrow> aresult \<Rightarrow> meth list" where
  "end_calls stopped a = (if left_loop a \<and> \<not> stopped then [Stop] else [])"

definition end_updates :: "string \<Rightarrow> bool \<Rightarrow> outcome \<Rightarrow> aresult \<Rightarrow> ServiceStateUpdate list" where
  "end_updates nm stopped fin a =
     (if \<not> left_loop a then []
      else if stopped then [final_update nm]
      else case fin of
        Panics p \<Rightarrow> [entering nm Stop]
      | Returns r \<Rightarrow> [entering nm Stop, exited nm Stop, final_update nm])"

fun lc_exit :: "bool \<Rightarrow> outcome \<Rightarrow> aresult \<Rightarrow> mexit" where
  "lc_exit stopped fin (Turn j) = Still_running"
| "lc_exit stopped fin (Panic p) = Panic_out p"
| "lc_exit stopped fin a =
     (if stopped then Returned else case fin of Panics p \<Rightarrow> Panic_out p | Returns r \<Rightarrow> Returned)"

text \<open>
  The interface of a manager's iteration: what the loop needs to know of it. \<open>sets\<close>
  is the timer setting that closes an iteration, if the manager sets one.
\<close>

locale manager_iteration =
  fixes nm :: string
    and iter :: "choice \<Rightarrow> mstate \<Rightarrow> mevent list \<times> (string + mstate)"
    and nxt :: lifecycle
    and sets :: "State \<Rightarrow> mevent list"
  assumes iter_done:
      "iter CtxDone s = ([Update (mk_ssu nm (state s) TransitionEntering)],
                         Inr (s\<lparr>state := StateExit\<rparr>))"
    and iter_panic:
      "state s = state_of k \<Longrightarrow>
         iter (Fired (Panics p)) s = ([Update (entering nm k), Call k], Inl p)"
    and iter_return:
      "state s = state_of k \<Longrightarrow>
         (case nxt k (r = None) of None \<Rightarrow> StateExit | Some j \<Rightarrow> state_of j) = s' \<Longrightarrow>
         iter (Fired (Returns r)) s =
           (Update (entering nm k) # Call k # log_unless_cancelled r @
              Update (exited nm k) # sets s',
            Inr \<lparr>state = s', hasStopped = (k = Stop)\<rparr>)"
    and sets_timers: "calls (sets s') = []" "updates (sets s') = []" "errors (sets s') = []"
begin

text \<open>The loop over the iteration follows the automaton, in calls, updates and end.\<close>

lemma loop_refines:
  assumes "state s = state_of k" and "lc_run nxt k cs = (ks, a)"
  shows "\<exists>evs. manager_loop iter nm s cs = (evs, lc_result (hasStopped s) ks a) \<and>
           calls evs = ks \<and> updates evs = lc_updates nm ks a"
  using assms
proof (induction cs arbitrary: s k ks a)
  case Nil
  then show ?case by (cases s) auto
next
  case (Cons c cs)
  show ?case
  proof (cases c)
    case CtxDone
    with Cons.prems show ?thesis by (cases s) (auto simp: iter_done)
  next
    case (Fired out)
    show ?thesis
    proof (cases out)
      case (Panics p)
      with Cons.prems Fired show ?thesis by (auto simp: iter_panic)
    next
      case (Returns r)
      show ?thesis
      proof (cases "nxt k (r = None)")
        case None
        with Cons.prems Fired Returns iter_return [OF Cons.prems(1), of r StateExit]
        show ?thesis by (auto simp: sets_timers)
      next
        case (Some j)
        let ?s = "\<lparr>state = state_of j, hasStopped = (k = Stop)\<rparr>"
        obtain ks' a' where run: "lc_run nxt j cs = (ks', a')" by force
        from Cons.IH [of ?s j, OF _ run] obtain evs where
          loop: "manager_loop iter nm ?s cs = (evs, lc_result (k = Stop) ks' a')"
          and evs: "calls evs = ks'" "updates evs = lc_updates nm ks' a'" by auto
        from run have "ks' \<noteq> [] \<or> (\<forall>p. a' \<noteq> Panic p)"
          using lc_run_panic_nonempty by blast
        then have "lc_updates nm (k # ks') a' =
            entering nm k # exited nm k # lc_updates nm ks' a'"
          by (rule lc_updates_Cons)
        moreover have "ks = k # ks'" "a = a'"
          using Cons.prems Fired Returns Some run by auto
        ultimately show ?thesis
          using Cons.prems Fired Returns Some loop evs
            iter_return [OF Cons.prems(1), of r "state_of j"]
          by (auto simp: sets_timers)
      qed
    qed
  qed
qed

text \<open>
  While the choices neither panic nor end the loop by themselves, each iteration sets the
  timer for the state it moves to.
\<close>

lemma loop_timers:
  assumes "state s = state_of k" and "lc_run nxt k cs = (ks, a)" and "a = Turn j \<or> a = Cancelled j"
  shows "timers (fst (manager_loop iter nm s cs)) =
    concat (map (\<lambda>i. timers (sets (state_of i))) (tl (ks @ [j])))"
  using assms
proof (induction cs arbitrary: s k ks)
  case Nil
  then show ?case by auto
next
  case (Cons c cs)
  show ?case
  proof (cases "c = CtxDone")
    case True
    with Cons.prems show ?thesis by (auto simp: iter_done)
  next
    case False
    with Cons.prems obtain r i ks' where
      c: "c = Fired (Returns r)" and i: "nxt k (r = None) = Some i"
      and run: "lc_run nxt i cs = (ks', a)" and ks: "ks = k # ks'"
      by (cases "(nxt, k, c # cs)" rule: lc_run.cases) (auto split: option.splits prod.splits)
    let ?s = "\<lparr>state = state_of i, hasStopped = (k = Stop)\<rparr>"
    have "hd (ks' @ [j]) = i"
      using run Cons.prems(3)
      by (cases "(nxt, i, cs)" rule: lc_run.cases) (auto split: option.splits prod.splits)
    then have "ks' @ [j] = i # tl (ks' @ [j])" by (cases ks') auto
    then have tl: "tl (ks @ [j]) = i # tl (ks' @ [j])" using ks by simp
    show ?thesis
      unfolding tl
      using Cons.prems c i iter_return [OF Cons.prems(1), of r "state_of i"]
        Cons.IH [of ?s i, OF _ run]
      by (auto split: prod.split)
  qed
qed

text \<open>Exactly the errors that are no cancellation are logged, in order.\<close>

lemma loop_errors:
  assumes "state s = state_of k" and "lc_run nxt k (map (\<lambda>r. Fired (Returns r)) rs) = (ks, Turn j)"
  shows "errors (fst (manager_loop iter nm s (map (\<lambda>r. Fired (Returns r)) rs))) =
    map error_msg (filter (\<lambda>e. \<not> IsCancelled e) (List.map_filter id rs))"
  using assms
proof (induction rs arbitrary: s k ks)
  case Nil
  then show ?case by auto
next
  case (Cons r rs)
  then obtain i ks' where i: "nxt k (r = None) = Some i"
    and run: "lc_run nxt i (map (\<lambda>r. Fired (Returns r)) rs) = (ks', Turn j)"
    by (auto split: option.splits prod.splits)
  let ?s = "\<lparr>state = state_of i, hasStopped = (k = Stop)\<rparr>"
  show ?case
    using Cons.prems i iter_return [OF Cons.prems(1), of r "state_of i"] Cons.IH [of ?s i, OF _ run]
    by (auto simp: log_unless_cancelled_def sets_timers map_filter_simps split: prod.split option.splits)
qed

text \<open>\<open>manager_end\<close> after such a loop.\<close>

lemma manage_refines:
  assumes "state s = state_of k" and "lc_run nxt k cs = (ks, a)"
    and "stopped = ends_stopped (hasStopped s) ks"
  shows "\<exists>evs. manager_end nm fin (manager_loop iter nm s cs) = (evs, lc_exit stopped fin a) \<and>
           calls evs = ks @ end_calls stopped a \<and>
           updates evs = lc_updates nm ks a @ end_updates nm stopped fin a"
proof -
  obtain evs where "manager_loop iter nm s cs = (evs, lc_result (hasStopped s) ks a)"
    "calls evs = ks" "updates evs = lc_updates nm ks a"
    using loop_refines [OF assms(1,2)] by blast
  then show ?thesis
    using assms(3)
    by (cases a) (auto simp: manager_end_def end_calls_def end_updates_def split: outcome.splits)
qed

end

subsection \<open>The two managers provide the interface\<close>

interpretation rc: manager_iteration nm "rc_iter m nm" rc_next "\<lambda>s. [rc_timer m s]" for nm m
proof (unfold_locales, goal_cases)
  case (1 s)
  then show ?case by (simp add: rc_iter_def)
next
  case (2 s k p)
  then show ?case by (cases k) (simp_all add: rc_iter_def)
next
  case (3 s k r s')
  then show ?case by (cases k) (auto simp: rc_iter_def Let_def)
qed simp_all

interpretation ru: manager_iteration nm "ru_iter nm" ru_next "\<lambda>_. []" for nm
proof (unfold_locales, goal_cases)
  case (1 s)
  then show ?case by (simp add: ru_iter_def)
next
  case (2 s k p)
  then show ?case by (cases k) (simp_all add: ru_iter_def)
next
  case (3 s k r s')
  then show ?case by (cases k) (auto simp: ru_iter_def Let_def)
qed simp_all

end
