(* ===== verification/Rx_Lifecycle.thy ===== *)
theory Rx_Lifecycle
  imports Rx_Managers
begin

section \<open>What the managers guarantee\<close>

text \<open>
  The properties of the two managers. The lemmas of the first part are about runs of the
  lifecycle automaton; the interpretations of \<open>manager_iteration\<close> carry them over to
  \<open>Manage\<close> itself.
\<close>

subsection \<open>Runs of the automaton\<close>

definition lc_follows :: "lifecycle \<Rightarrow> meth \<Rightarrow> meth \<Rightarrow> bool" where
  "lc_follows nxt j k \<longleftrightarrow> nxt j True = Some k \<or> nxt j False = Some k"

lemma lc_follows_next: "nxt j ok = Some k \<Longrightarrow> lc_follows nxt j k"
  by (cases ok) (auto simp: lc_follows_def)

lemma rc_follows_iff:
  "lc_follows rc_next j k \<longleftrightarrow>
     (j, k) \<in> {(Init, Idle), (Init, Stop), (Idle, Run), (Idle, Stop), (Run, Stop), (Stop, Init)}"
  by (cases j; cases k; simp add: lc_follows_def)

lemma ru_follows_iff:
  "lc_follows ru_next j k \<longleftrightarrow>
     (j, k) \<in> {(Init, Idle), (Init, Stop), (Idle, Run), (Idle, Stop), (Run, Stop), (Stop, Init),
       (Stop, Stop)}"
  by (cases j; cases k; simp add: lc_follows_def)

lemma lc_run_hd: "lc_run nxt k cs = (ks, a) \<Longrightarrow> ks \<noteq> [] \<Longrightarrow> hd ks = k"
  by (induction nxt k cs arbitrary: ks a rule: lc_run.induct)
    (auto split: option.splits prod.splits)

lemma lc_run_chain: "lc_run nxt k cs = (ks, a) \<Longrightarrow> successively (lc_follows nxt) ks"
proof (induction nxt k cs arbitrary: ks a rule: lc_run.induct)
  case (4 nxt k r cs)
  show ?case
  proof (cases "nxt k (r = None)")
    case None
    with 4(2) show ?thesis by auto
  next
    case (Some j)
    obtain ks' where ks': "lc_run nxt j cs = (ks', a)" "ks = k # ks'"
      using 4 Some by (auto split: prod.splits)
    then have "successively (lc_follows nxt) ks'" using 4 Some by auto
    then show ?thesis
      using ks' Some lc_run_hd [OF ks'(1)] lc_follows_next [of nxt k "r = None" j] Some
      by (cases ks') (auto simp: successively_Cons)
  qed
qed auto

text \<open>On entering the method that is cancelled or waited for, the last one has been left.\<close>

lemma lc_run_last:
  "lc_run nxt k cs = (ks, a) \<Longrightarrow> a = Turn j \<or> a = Cancelled j \<Longrightarrow> ks \<noteq> [] \<Longrightarrow>
     lc_follows nxt (last ks) j"
proof (induction nxt k cs arbitrary: ks a rule: lc_run.induct)
  case (4 nxt k r cs)
  obtain i ks' where i: "nxt k (r = None) = Some i" and ks': "lc_run nxt i cs = (ks', a)" "ks = k # ks'"
    using 4 by (auto split: option.splits prod.splits)
  show ?case
  proof (cases "ks' = []")
    case True
    then have "i = j"
      using ks' 4(3) by (cases "(nxt, i, cs)" rule: lc_run.cases) (auto split: option.splits prod.splits)
    with True ks' i show ?thesis by (auto intro: lc_follows_next)
  next
    case False
    with 4 i ks' show ?thesis by auto
  qed
qed auto

text \<open>A run makes at most one call for each choice.\<close>

lemma lc_run_length:
  "lc_run nxt k cs = (ks, a) \<Longrightarrow>
     length ks \<le> length cs \<and> ((\<exists>j. a = Turn j) \<longrightarrow> length ks = length cs)"
  by (induction nxt k cs arbitrary: ks a rule: lc_run.induct)
    (fastforce split: option.splits prod.splits)+

lemma lc_run_no_panic:
  "lc_run nxt k cs = (ks, Panic p) \<Longrightarrow> Fired (Panics p) \<in> set cs"
  by (induction nxt k cs arbitrary: ks rule: lc_run.induct)
    (auto split: option.splits prod.splits)

text \<open>When the choices neither cancel nor panic.\<close>

fun returning :: "choice \<Rightarrow> bool" where
  "returning CtxDone = False"
| "returning (Fired (Panics p)) = False"
| "returning (Fired (Returns r)) = True"

lemma returning_iff: "returning c \<longleftrightarrow> (\<exists>r. c = Fired (Returns r))"
  by (cases c rule: returning.cases) auto

lemma lc_run_turn:
  assumes "\<And>j ok. nxt j ok \<noteq> None"
  shows "(\<exists>j. snd (lc_run nxt k cs) = Turn j) \<longleftrightarrow> list_all returning cs"
  using assms
proof (induction nxt k cs rule: lc_run.induct)
  case (4 nxt k r cs)
  obtain j where j: "nxt k (r = None) = Some j" using 4(2) by auto
  with 4(1) [OF j 4(2)] show ?case by (auto split: prod.splits)
qed auto

lemma lc_run_cancelled:
  assumes "\<And>j ok. nxt j ok \<noteq> None"
  shows "(\<exists>j. snd (lc_run nxt k cs) = Cancelled j) \<longleftrightarrow>
    (\<exists>pre post. cs = pre @ CtxDone # post \<and> list_all returning pre)"
  using assms
proof (induction nxt k cs rule: lc_run.induct)
  case (2 nxt k cs)
  show ?case by (auto intro: exI [of _ "[]"])
next
  case (3 nxt k p cs)
  show ?case by (auto simp: Cons_eq_append_conv)
next
  case (4 nxt k r cs)
  obtain j where j: "nxt k (r = None) = Some j" using 4(2) by auto
  have "(\<exists>pre post. Fired (Returns r) # cs = pre @ CtxDone # post \<and> list_all returning pre) \<longleftrightarrow>
      (\<exists>pre post. cs = pre @ CtxDone # post \<and> list_all returning pre)"
    by (auto simp: Cons_eq_append_conv) (metis list.pred_inject(2) returning.simps(3))
  with 4(1) [OF j 4(2)] j show ?case by (auto split: prod.splits)
qed simp

lemma lc_run_total:
  assumes "\<And>j ok. nxt j ok \<noteq> None"
  shows "snd (lc_run nxt k cs) \<noteq> Finished"
  using assms
proof (induction nxt k cs rule: lc_run.induct)
  case (4 nxt k r cs)
  obtain j where j: "nxt k (r = None) = Some j" using 4(2) by auto
  with 4(1) [OF j 4(2)] show ?case by (auto split: prod.splits)
qed auto

lemma rc_next_total [simp]: "rc_next j ok \<noteq> None"
  by (cases j) auto

subsection \<open>RunContinuousManager.Manage\<close>

lemma rc_Manage_refines:
  assumes "lc_run rc_next Init cs = (ks, a)" and "st = ends_stopped False ks"
  shows "\<exists>evs. rc_Manage m nm fin cs = (evs, lc_exit st fin a) \<and>
      calls evs = ks @ end_calls st a \<and>
      updates evs = lc_updates nm ks a @ end_updates nm st fin a"
proof -
  let ?s = "\<lparr>state = StateInit, hasStopped = False\<rparr>"
  have "state ?s = state_of Init" by simp
  from rc.manage_refines [where fin = fin and m = m and nm = nm, OF this assms(1)] assms(2)
  show ?thesis by (auto simp: rc_Manage_def)
qed

abbreviation announced :: "string \<Rightarrow> meth list \<Rightarrow> ServiceStateUpdate list" where
  "announced nm ks \<equiv> concat (map (\<lambda>k. [entering nm k, exited nm k]) ks)"

lemma lc_updates_left: "lc_updates nm ks (Cancelled j) = announced nm ks @ [entering nm j]"
    "lc_updates nm ks (Turn j) = announced nm ks @ [entering nm j]"
    "lc_updates nm ks Finished = announced nm ks"
  by (induction ks) auto

lemma rc_Manage_Returned:
  assumes "rc_Manage m nm fin cs = (evs, Returned)"
  obtains ks j where "lc_run rc_next Init cs = (ks, Cancelled j)"
    and "calls evs = (if ks \<noteq> [] \<and> last ks = Stop then ks else ks @ [Stop])"
    and "updates evs = announced nm ks @ entering nm j #
      (if ks \<noteq> [] \<and> last ks = Stop then [] else [entering nm Stop, exited nm Stop]) @
      [final_update nm]"
proof -
  obtain ks a where run: "lc_run rc_next Init cs = (ks, a)" by force
  with assms rc_Manage_refines [OF this refl, of m nm fin]
  have ex: "lc_exit (ends_stopped False ks) fin a = Returned"
    and "calls evs = ks @ end_calls (ends_stopped False ks) a"
    and "updates evs = lc_updates nm ks a @ end_updates nm (ends_stopped False ks) fin a"
    by auto
  moreover have "a \<noteq> Finished" using lc_run_total [of rc_next Init cs] run by auto
  with ex obtain j where "a = Cancelled j" by (cases a) auto
  moreover have "ends_stopped False ks \<or> (\<exists>r. fin = Returns r)"
    using ex \<open>a = Cancelled j\<close> by (cases fin) (auto split: if_splits)
  ultimately show thesis
    using run that by (auto simp: lc_updates_left ends_stopped_last end_calls_def end_updates_def
        split: if_splits)
qed





lemma rc_running_iff: "snd (rc_Manage m nm fin cs) = Still_running \<longleftrightarrow> list_all returning cs"
proof -
  obtain ks a where run: "lc_run rc_next Init cs = (ks, a)" by force
  have "a \<noteq> Finished" using lc_run_total [of rc_next Init cs] run by auto
  then have "lc_exit (ends_stopped False ks) fin a = Still_running \<longleftrightarrow> (\<exists>j. a = Turn j)"
    by (cases a; cases fin) auto
  then show ?thesis
    using rc_Manage_refines [OF run refl, of m nm fin] lc_run_turn [of rc_next Init cs] run by auto
qed

text \<open>
  C5: \<open>RunContinuousManager.Manage\<close> exits on cancellation and on nothing else. Whatever
  the methods return, it keeps running; it returns exactly when some \<open>select\<close> takes the
  cancelled context, and then it does return. (The closing \<open>Stop\<close> is given to return.)
\<close>

theorem rc_returns_iff_cancelled:
  "(snd (rc_Manage m nm (Returns r) cs) = Returned \<longleftrightarrow>
     (\<exists>pre post. cs = pre @ CtxDone # post \<and> list_all returning pre)) \<and>
   (snd (rc_Manage m nm fin cs) = Still_running \<longleftrightarrow> list_all returning cs)"
proof -
  obtain ks a where run: "lc_run rc_next Init cs = (ks, a)" by force
  have exit: "snd (rc_Manage m nm f cs) = lc_exit (ends_stopped False ks) f a" for f
    using rc_Manage_refines [OF run refl, of m nm f] by auto
  have "a \<noteq> Finished" using lc_run_total [of rc_next Init cs] run by auto
  then have "lc_exit (ends_stopped False ks) (Returns r) a = Returned \<longleftrightarrow> (\<exists>j. a = Cancelled j)"
    by (cases a) auto
  then have "snd (rc_Manage m nm (Returns r) cs) = Returned \<longleftrightarrow>
     (\<exists>pre post. cs = pre @ CtxDone # post \<and> list_all returning pre)"
    using exit lc_run_cancelled [of rc_next Init cs] run by simp
  then show ?thesis using rc_running_iff by blast
qed

definition delay_of :: "RunContinuousManager \<Rightarrow> meth \<Rightarrow> duration" where
  "delay_of m k =
     (case StateTimeouts m (state_of k) of Some d \<Rightarrow> d | None \<Rightarrow> DefaultDelay m)"

lemma rc_timer_delay: "timers [rc_timer m (state_of k)] = [delay_of m k]"
  by (simp add: rc_timer_def delay_of_def)

text \<open>
  The delays. After the start-up delay, each iteration sets the timer to the timeout
  configured for the state that comes next, or to the default delay when there is none.
\<close>

theorem rc_timer_follows_state:
  assumes "rc_Manage m nm fin cs = (evs, Still_running)"
  shows "\<exists>j. timers evs = StartupDelay m # map (delay_of m) (tl (calls evs @ [j])) \<and>
    last (updates evs) = entering nm j"
proof -
  obtain ks a where run: "lc_run rc_next Init cs = (ks, a)" by force
  from rc_Manage_refines [OF run refl, of m nm fin] assms
  have exit: "lc_exit (ends_stopped False ks) fin a = Still_running"
    and calls: "calls evs = ks @ end_calls (ends_stopped False ks) a"
    and upd: "updates evs = lc_updates nm ks a @ end_updates nm (ends_stopped False ks) fin a"
    by auto
  then obtain j where a: "a = Turn j" by (cases a; cases fin) (auto split: if_splits)
  let ?s = "\<lparr>state = StateInit, hasStopped = False\<rparr>"
  have "state ?s = state_of Init" by simp
  from rc.loop_timers [OF this run, of j m nm] a
  have "timers (fst (manager_loop (rc_iter m nm) nm ?s cs)) =
      map (delay_of m) (tl (ks @ [j]))"
    by (simp add: rc_timer_delay concat_map_singleton)
  moreover have "evs = Timer (StartupDelay m) # fst (manager_loop (rc_iter m nm) nm ?s cs)"
    using assms
    by (auto simp: rc_Manage_def manager_end_def Let_def split: prod.splits mresult.splits if_splits
        outcome.splits)
  ultimately show ?thesis
    using calls upd a by (auto simp: end_calls_def end_updates_def lc_updates_left)
qed

theorem rc_timer_follows_state_witness:
  "\<exists>evs j. rc_Manage (NewDefaultManager [WithInitDelay 7, WithTransitionTimeouts [StateIdle \<mapsto> 9]])
       ''svc'' (Returns None) [Fired (Returns None), Fired (Returns None)] = (evs, Still_running) \<and>
     timers evs = [7, 9, 100 * Millisecond] \<and> last (updates evs) = entering ''svc'' j"
proof -
  let ?m = "NewDefaultManager [WithInitDelay 7, WithTransitionTimeouts [StateIdle \<mapsto> 9]]"
  let ?run = "rc_Manage ?m ''svc'' (Returns None) [Fired (Returns None), Fired (Returns None)]"
  have run: "?run = (fst ?run, Still_running)" and t: "timers (fst ?run) = [7, 9, 100 * Millisecond]"
    by (simp_all add: rc_Manage_def rc_iter_def manager_end_def log_unless_cancelled_def
        rc_timer_def NewDefaultManager_def map_add_def)
  from rc_timer_follows_state [OF run] run t show ?thesis by blast
qed

text \<open>
  The errors shown to the user. Of the errors the methods return, those that are no
  cancellation are logged, each once and in order; a cancellation is passed over.
\<close>

theorem rc_logs_real_errors:
  "errors (fst (rc_Manage m nm fin (map (\<lambda>r. Fired (Returns r)) rs))) =
     map error_msg (filter (\<lambda>e. \<not> IsCancelled e) (List.map_filter id rs))"
proof -
  let ?cs = "map (\<lambda>r. Fired (Returns r)) rs"
  let ?s = "\<lparr>state = StateInit, hasStopped = False\<rparr>"
  have "list_all returning ?cs" by (simp add: list_all_iff)
  then obtain ks j where run: "lc_run rc_next Init ?cs = (ks, Turn j)"
    using lc_run_turn [of rc_next Init ?cs] by (metis prod.collapse rc_next_total)
  obtain evs s' where loop: "manager_loop (rc_iter m nm) nm ?s ?cs = (evs, Waiting s')"
    using rc.loop_refines [OF _ run, of ?s m nm] by auto
  have "errors evs = map error_msg (filter (\<lambda>e. \<not> IsCancelled e) (List.map_filter id rs))"
    using rc.loop_errors [OF _ run, of ?s m nm] loop by simp
  with loop show ?thesis by (simp add: rc_Manage_def manager_end_def)
qed

subsection \<open>RunUntilSuccessManager.Manage\<close>

lemma ru_body_refines:
  assumes "0 < ru_StartupDelay m" and "0 < ru_DefaultDelay m"
    and "lc_run ru_next Init (c # cs) = (ks, a)" and "st = ends_stopped True (tl ks)"
  shows "\<exists>evs. ru_body m nm fin (c # cs) = (evs, lc_exit st fin a) \<and>
      calls evs = ks @ end_calls st a \<and>
      updates evs = (if ks = [] then [final_update nm]
        else lc_updates nm ks a @ end_updates nm st fin a)"
proof (cases c rule: returning.cases)
  case 1
  with assms show ?thesis
    by (auto simp: ru_body_def ru_start_def manager_end_def end_calls_def)
next
  case (2 p)
  with assms show ?thesis
    by (auto simp: ru_body_def ru_start_def end_calls_def end_updates_def)
next
  case (3 r)
  let ?j = "if r = None then Idle else Stop"
  let ?s = "\<lparr>state = state_of ?j, hasStopped = True\<rparr>"
  obtain ks' where run: "lc_run ru_next ?j cs = (ks', a)" and ks: "ks = Init # ks'"
    using assms(3) 3 by (cases r) (auto split: prod.splits)
  have "ks' \<noteq> [] \<or> (\<forall>p. a \<noteq> Panic p)" using lc_run_panic_nonempty run by blast
  then have "lc_updates nm ks a = entering nm Init # exited nm Init # lc_updates nm ks' a"
    unfolding ks by (rule lc_updates_Cons)
  moreover obtain evs where
    "manager_end nm fin (manager_loop (ru_iter nm) nm ?s cs) = (evs, lc_exit st fin a)"
    "calls evs = ks' @ end_calls st a" "updates evs = lc_updates nm ks' a @ end_updates nm st fin a"
    using ru.manage_refines [where s = ?s and stopped = st and fin = fin and nm = nm, OF _ run] assms(4) ks
    by auto
  ultimately show ?thesis
    using assms 3 ks by (cases r) (auto simp: ru_body_def ru_start_def Let_def)
qed

lemma lc_run_waits: "lc_run nxt k cs = (ks, Turn j) \<Longrightarrow> CtxDone \<notin> set cs"
  by (induction nxt k cs arbitrary: ks rule: lc_run.induct) (auto split: option.splits prod.splits)

text \<open>Without a cancellation and a panic, a run ends when \<open>Run\<close> returns nil.\<close>

lemma ru_run_finished:
  assumes "lc_run ru_next k (map (\<lambda>r. Fired (Returns r)) rs) = (ks, a)"
  shows "if (Run, None) \<in> set (zip ks rs) then a = Finished \<and> ks \<noteq> [] \<and> last ks = Run
    else \<exists>j. a = Turn j"
  using assms
proof (induction rs arbitrary: k ks)
  case (Cons r rs)
  show ?case
  proof (cases "ru_next k (r = None)")
    case None
    then have "k = Run" "r = None" by (cases k; auto split: if_splits)+
    with Cons.prems None show ?thesis by auto
  next
    case (Some j)
    then obtain ks' where run: "lc_run ru_next j (map (\<lambda>r. Fired (Returns r)) rs) = (ks', a)"
      and ks: "ks = k # ks'"
      using Cons.prems by (auto split: prod.splits)
    have "\<not> (k = Run \<and> r = None)" using Some by (auto split: if_splits)
    with Cons.IH [OF run] ks show ?thesis by (auto split: if_splits)
  qed
qed auto

lemma ru_Manage_refines:
  assumes "0 < ru_StartupDelay m" and "0 < ru_DefaultDelay m"
    and "lc_run ru_next Init (c # cs) = (ks, a)" and "\<And>p. a \<noteq> Panic p"
    and "st = ends_stopped True (tl ks)" and "st \<or> \<not> left_loop a \<or> (\<exists>r. fin = Returns r)"
  shows "\<exists>evs. ru_Manage m nm fin (c # cs) = (evs, lc_exit st fin a) \<and>
      calls evs = ks @ end_calls st a \<and>
      updates evs = (if ks = [] then [final_update nm]
        else lc_updates nm ks a @ end_updates nm st fin a)"
proof -
  from ru_body_refines [OF assms(1-3,5), of nm fin] obtain evs where
    evs: "ru_body m nm fin (c # cs) = (evs, lc_exit st fin a)" "calls evs = ks @ end_calls st a"
      "updates evs = (if ks = [] then [final_update nm]
        else lc_updates nm ks a @ end_updates nm st fin a)" by blast
  have "\<And>p. lc_exit st fin a \<noteq> Panic_out p"
    using assms(4,6) by (cases a; cases fin) auto
  with evs show ?thesis by (auto simp: ru_Manage_def split: mexit.split)
qed



lemma lc_updates_no_exit:
  "filter (\<lambda>u. upd_State u = StateExit) (lc_updates nm ks a) = []"
  by (induction nm ks a rule: lc_updates.induct) auto

text \<open>
  When no method panics, \<open>RunUntilSuccessManager.Manage\<close> sends as its last update,
  and only there, that the service enters the exit state, and \<open>Stop\<close> is the last method
  it calls, with two exceptions: it was cancelled before any method ran, or when
  \<open>Init\<close> was the only one that ran.
\<close>

theorem ru_final_update:
  assumes "0 < ru_StartupDelay m" and "0 < ru_DefaultDelay m"
    and "list_all (\<lambda>c. \<nexists>p. c = Fired (Panics p)) cs"
    and "ru_Manage m nm (Returns r) cs = (evs, Returned)"
  shows "filter (\<lambda>u. upd_State u = StateExit) (updates evs) = [final_update nm] \<and>
    last (updates evs) = final_update nm \<and>
    (calls evs = [] \<or> calls evs = [Init] \<or> last (calls evs) = Stop)"
proof (cases cs)
  case Nil
  with assms show ?thesis by (auto simp: ru_Manage_def ru_body_def)
next
  case (Cons c cs')
  obtain ks a where run: "lc_run ru_next Init cs = (ks, a)" by force
  have "\<And>p. Fired (Panics p) \<notin> set cs" using assms(3) by (auto simp: list_all_iff)
  then have np: "\<And>p. a \<noteq> Panic p"
    using run lc_run_no_panic [of ru_next Init cs ks] by blast
  from ru_Manage_refines [OF assms(1,2) _ np refl, of c cs' ks "Returns r" nm] run Cons assms(4)
  have x: "lc_exit (ends_stopped True (tl ks)) (Returns r) a = Returned"
    and calls: "calls evs = ks @ end_calls (ends_stopped True (tl ks)) a"
    and upd: "updates evs = (if ks = [] then [final_update nm]
      else lc_updates nm ks a @ end_updates nm (ends_stopped True (tl ks)) (Returns r) a)"
    by auto
  from x have "left_loop a" by (cases a) auto
  moreover have "ks \<noteq> [] \<Longrightarrow> hd ks = Init" by (rule lc_run_hd [OF run])
  ultimately show ?thesis
    using calls upd
    by (cases ks) (auto simp: lc_updates_no_exit end_calls_def end_updates_def ends_stopped_last)
qed

theorem ru_final_update_witness:
  "\<exists>evs. ru_Manage (NewRunUntilSuccessManager 1 1) ''job'' (Returns None)
       [Fired (Returns (Some CtxCanceled)), CtxDone] = (evs, Returned) \<and>
     filter (\<lambda>u. upd_State u = StateExit) (updates evs) = [final_update ''job'']"
proof -
  let ?m = "NewRunUntilSuccessManager 1 1"
  let ?cs = "[Fired (Returns (Some CtxCanceled)), CtxDone]"
  let ?run = "ru_Manage ?m ''job'' (Returns None) ?cs"
  have pos: "0 < ru_StartupDelay ?m" "0 < ru_DefaultDelay ?m"
    and np: "list_all (\<lambda>c. \<nexists>p. c = Fired (Panics p)) ?cs"
    by (simp_all add: NewRunUntilSuccessManager_def)
  have "?run = (fst ?run, Returned)"
    by (simp add: ru_Manage_def ru_body_def ru_start_def ru_iter_def manager_end_def
        log_unless_cancelled_def NewRunUntilSuccessManager_def)
  with ru_final_update [OF pos np this] show ?thesis by blast
qed

text \<open>
  The clean-up that is skipped. When the context is cancelled between the first
  \<open>Init\<close>, which succeeded, and the next turn, \<open>RunUntilSuccessManager.Manage\<close>
  returns without ever calling \<open>Stop\<close>: \<open>hasStopped\<close> starts as true and the
  \<open>Init\<close> before the loop does not reset it. Under the same choices
  \<open>RunContinuousManager.Manage\<close> does call \<open>Stop\<close>.
\<close>

theorem ru_cancel_after_init_skips_stop:
  assumes "0 < ru_StartupDelay m" and "0 < ru_DefaultDelay m"
  shows "\<exists>evs. ru_Manage m nm fin (Fired (Returns None) # CtxDone # cs) = (evs, Returned) \<and>
      calls evs = [Init] \<and> last (updates evs) = final_update nm \<and>
      calls (fst (rc_Manage m' nm fin (Fired (Returns None) # CtxDone # cs))) = [Init, Stop]"
proof -
  have "lc_run ru_next Init (Fired (Returns None) # CtxDone # cs) = ([Init], Cancelled Idle)"
    and rc: "lc_run rc_next Init (Fired (Returns None) # CtxDone # cs) = ([Init], Cancelled Idle)"
    by simp_all
  from ru_Manage_refines [OF assms this(1) _ refl, of fin nm] rc_Manage_refines [OF rc refl, of m' nm fin]
  show ?thesis by (auto simp: end_calls_def end_updates_def)
qed

theorem ru_cancel_after_init_skips_stop_witness:
  "0 < ru_StartupDelay (NewRunUntilSuccessManager 5 1) \<and>
   (\<exists>evs. ru_Manage (NewRunUntilSuccessManager 5 1) ''job'' (Returns None)
       [Fired (Returns None), CtxDone] = (evs, Returned) \<and> calls evs = [Init])"
proof -
  let ?m = "NewRunUntilSuccessManager 5 1"
  have pos: "0 < ru_StartupDelay ?m" "0 < ru_DefaultDelay ?m"
    by (simp_all add: NewRunUntilSuccessManager_def)
  from ru_cancel_after_init_skips_stop [OF pos, of "''job''" "Returns None" "[]"] pos
  show ?thesis by auto
qed

text \<open>A run over a first part of the choices that leaves the loop waiting goes on from there.\<close>

lemma lc_run_append:
  "lc_run nxt k cs = (ks, Turn j) \<Longrightarrow>
     lc_run nxt k (cs @ ds) = (let (ks', a) = lc_run nxt j ds in (ks @ ks', a))"
  by (induction nxt k cs arbitrary: ks rule: lc_run.induct)
    (fastforce split: option.splits prod.splits)+

text \<open>
  C35: the exit that is not announced. When a method panics, \<open>RunUntilSuccessManager.Manage\<close>
  recovers, logs the panic and returns like a manager that has finished, but it sends no
  update that the service enters the exit state, so the states that other services watch
  keep the state the service was in. (Under \<open>RunContinuousManager\<close> the panic reaches the
  daemon's goroutine, which sends that update.)
\<close>

theorem ru_panic_sends_no_exit:
  assumes "0 < ru_StartupDelay m" and "0 < ru_DefaultDelay m"
    and "snd (ru_Manage m nm (Returns r) (map (\<lambda>r. Fired (Returns r)) rs)) = Still_running"
  shows "\<exists>evs. ru_Manage m nm fin (map (\<lambda>r. Fired (Returns r)) rs @ Fired (Panics p) # cs) =
      (evs @ [LogError (''recovered from a panic: '' @ p)], Returned) \<and>
    filter (\<lambda>u. upd_State u = StateExit) (updates evs) = []"
proof -
  let ?rs = "map (\<lambda>r. Fired (Returns r)) rs"
  obtain ks a where run: "lc_run ru_next Init ?rs = (ks, a)" by force
  have "a \<noteq> Finished"
  proof (cases ?rs)
    case (Cons c cs')
    with ru_body_refines [OF assms(1,2) _ refl, of c cs' ks a nm "Returns r"] run assms(3)
    show ?thesis by (auto simp: ru_Manage_def split: if_splits)
  qed (use run in auto)
  with ru_run_finished [OF run] obtain j where j: "a = Turn j" by (auto split: if_splits)
  have all: "lc_run ru_next Init (?rs @ Fired (Panics p) # cs) = (ks @ [j], Panic p)"
    using lc_run_append [of ru_next Init ?rs ks j] run j by simp
  obtain c ds where ds: "?rs @ Fired (Panics p) # cs = c # ds"
    by (cases "?rs @ Fired (Panics p) # cs") auto
  from ru_body_refines [OF assms(1,2) all [unfolded ds] refl, of nm fin] ds
  show ?thesis
    by (auto simp: ru_Manage_def end_updates_def lc_updates_no_exit)
qed

theorem ru_panic_sends_no_exit_witness:
  "\<exists>evs. ru_Manage (NewRunUntilSuccessManager 5 1) ''job'' (Returns None)
       [Fired (Returns None), Fired (Panics ''boom'')] =
      (evs @ [LogError (''recovered from a panic: '' @ ''boom'')], Returned) \<and>
     filter (\<lambda>u. upd_State u = StateExit) (updates evs) = []"
proof -
  let ?m = "NewRunUntilSuccessManager 5 1"
  have pos: "0 < ru_StartupDelay ?m" "0 < ru_DefaultDelay ?m"
    by (simp_all add: NewRunUntilSuccessManager_def)
  have "snd (ru_Manage ?m ''job'' (Returns None) (map (\<lambda>r. Fired (Returns r)) [None])) = Still_running"
    by (simp add: ru_Manage_def ru_body_def ru_start_def ru_iter_def manager_end_def
        NewRunUntilSuccessManager_def log_unless_cancelled_def)
  from ru_panic_sends_no_exit [OF pos this, of "Returns None" "''boom''" "[]"] show ?thesis by simp
qed

text \<open>
  A manager without a positive start-up delay never runs its service. The ticker
  panics, the panic is recovered, and \<open>Manage\<close> returns without a call and without an
  update.
\<close>

theorem ru_zero_delay_never_runs:
  assumes "ru_StartupDelay m \<le> 0"
  shows "\<exists>msg. ru_Manage m nm fin cs = ([LogError msg], Returned)"
  using assms by (simp add: ru_Manage_def ru_body_def)

theorem ru_zero_delay_never_runs_witness:
  "\<exists>msg. ru_Manage (NewRunUntilSuccessManager (100 * Millisecond) 0) ''job'' (Returns None)
     [Fired (Returns None)] = ([LogError msg], Returned)"
  by (rule ru_zero_delay_never_runs) (simp add: NewRunUntilSuccessManager_def)

end
