(* ===== verification/Rx_Prestart.thy ===== *)
theory Rx_Prestart
  imports Rx_Errors Rx_Log
begin

section \<open>The prestart pipeline (daemon\_prestart.go)\<close>

text \<open>
  \<open>Run\<close> starts a goroutine that goes through the stages, and once more after a delay when
  one fails and the pipeline restarts on errors. Its effects, in order: the call of a
  stage, a log entry sent to the daemon (which receives until the channel is closed), a
  reset of the timer.

  What it does not decide is its input, one round for each execution of the outer
  \<open>select\<close>: the context's channel is taken, or the timer's; then for each stage in turn
  whether the context is found done just before it, and what it returns. The timer's
  channel is ready only after the timer was set: initially, and by a reset.
\<close>

record DaemonLog =
  dl_Level :: Level
  dl_Message :: string
  dl_Fields :: "Field list"

definition DaemonLog_String :: "DaemonLog \<Rightarrow> string" where
  "DaemonLog_String l = dl_Message l"

record pipeline =
  RestartOnError :: bool
  RestartDelay :: duration
  Stages :: "string list"

record PrestartConfig =
  conf_RestartOnError :: bool
  conf_RestartDelay :: duration

text \<open>A stage is its name here; its function is the input.\<close>

definition NewPrestartPipeline :: "PrestartConfig \<Rightarrow> string list \<Rightarrow> pipeline" where
  "NewPrestartPipeline conf stages =
     \<lparr>RestartOnError = conf_RestartOnError conf, RestartDelay = conf_RestartDelay conf,
      Stages = stages\<rparr>"

definition pipeline_Add :: "string \<Rightarrow> pipeline \<Rightarrow> pipeline" where
  "pipeline_Add stage p = p\<lparr>Stages := Stages p @ [stage]\<rparr>"

datatype pevent = StageRun string | Emit DaemonLog | TimerReset duration

datatype stage_input = StageCtxDone | StageReturns "go_error option"

datatype round = RoundCtxDone | RoundTimer "stage_input list"

datatype presult = PWaiting | PCancelled | PCompleted

definition failed_log :: "bool \<Rightarrow> go_error \<Rightarrow> string \<Rightarrow> DaemonLog" where
  "failed_log restart err stage =
     \<lparr>dl_Level = (if restart then LevelWarning else LevelError), dl_Message = ''prestart failed'',
      dl_Fields = [log_Error ''error'' (error_msg err), log_String ''stage'' stage]\<rparr>"

text \<open>
  The loop over the stages, with the variable \<open>err\<close>: \<open>Inl\<close> is a return, or a wait in a
  stage that has not returned; \<open>Inr\<close> is the value of \<open>err\<close> after the loop.
\<close>

fun run_stages ::
  "pipeline \<Rightarrow> string list \<Rightarrow> stage_input list \<Rightarrow> go_error option \<Rightarrow>
     pevent list \<times> (presult + go_error option)" where
  "run_stages p [] ins err = ([], Inr err)"
| "run_stages p (s # ss) [] err = ([], Inl PWaiting)"
| "run_stages p (s # ss) (StageCtxDone # ins) err = ([], Inl PCancelled)"
| "run_stages p (s # ss) (StageReturns None # ins) err =
     (let (evs, r) = run_stages p ss ins None in (StageRun s # evs, r))"
| "run_stages p (s # ss) (StageReturns (Some e) # ins) err =
     (if RestartOnError p
      then ([StageRun s, Emit (failed_log True e s), TimerReset (RestartDelay p)], Inr (Some e))
      else (let (evs, r) = run_stages p ss ins (Some e)
            in (StageRun s # Emit (failed_log False e s) # evs, r)))"

text \<open>
  \<open>for !done\<close>. \<open>armed\<close> is whether the timer is set; a round that takes the timer's
  channel while it is not cannot happen and is passed over.
\<close>

fun pipeline_loop :: "pipeline \<Rightarrow> bool \<Rightarrow> round list \<Rightarrow> pevent list \<times> presult" where
  "pipeline_loop p armed [] = ([], PWaiting)"
| "pipeline_loop p armed (RoundCtxDone # rs) = ([], PCancelled)"
| "pipeline_loop p armed (RoundTimer ins # rs) =
     (if \<not> armed then pipeline_loop p armed rs
      else case run_stages p (Stages p) ins None of
        (evs, Inl r) \<Rightarrow> (evs, r)
      | (evs, Inr None) \<Rightarrow> (evs, PCompleted)
      | (evs, Inr (Some e)) \<Rightarrow>
          (let (evs', r) = pipeline_loop p (RestartOnError p) rs in (evs @ evs', r)))"

text \<open>\<open>if p.RestartDelay == 0 { p.RestartDelay = 5 * time.Second }\<close>\<close>

definition with_delay :: "pipeline \<Rightarrow> pipeline" where
  "with_delay p = (if RestartDelay p = 0 then p\<lparr>RestartDelay := 5 * Second\<rparr> else p)"

definition pipeline_Run :: "pipeline \<Rightarrow> round list \<Rightarrow> pevent list \<times> presult" where
  "pipeline_Run p rounds =
     (if Stages p = [] then ([], PCompleted)
      else pipeline_loop (with_delay p) True rounds)"

definition delay_used :: "pipeline \<Rightarrow> duration" where
  "delay_used p = (if RestartDelay p = 0 then 5 * Second else RestartDelay p)"

lemma with_delay_fields [simp]:
  "RestartOnError (with_delay p) = RestartOnError p" "Stages (with_delay p) = Stages p"
  "RestartDelay (with_delay p) = delay_used p" "delay_used (with_delay p) = delay_used p"
  by (simp_all add: with_delay_def delay_used_def)

subsection \<open>One attempt\<close>

lemma run_stages_ok:
  "run_stages p ss (map (\<lambda>_. StageReturns None) ss @ rest) None = (map StageRun ss, Inr None)"
  by (induction ss) simp_all

lemma run_stages_restart:
  assumes "RestartOnError p"
  shows "run_stages p (pre @ s # post) (map (\<lambda>_. StageReturns None) pre @ StageReturns (Some e) # rest) err =
    (map StageRun (pre @ [s]) @ [Emit (failed_log True e s), TimerReset (RestartDelay p)], Inr (Some e))"
  using assms by (induction pre arbitrary: err) simp_all

text \<open>An attempt that fails at the stage after \<open>pre\<close> with the error \<open>e\<close>.\<close>

type_synonym failure = "string list \<times> string \<times> go_error \<times> string list"

definition failing_round :: "failure \<Rightarrow> round" where
  "failing_round f = (case f of (pre, s, e, post) \<Rightarrow>
     RoundTimer (map (\<lambda>_. StageReturns None) pre @ [StageReturns (Some e)]))"

definition failure_events :: "pipeline \<Rightarrow> failure \<Rightarrow> pevent list" where
  "failure_events p f = (case f of (pre, s, e, post) \<Rightarrow>
     map StageRun (pre @ [s]) @ [Emit (failed_log True e s), TimerReset (delay_used p)])"

definition splits_stages :: "pipeline \<Rightarrow> failure \<Rightarrow> bool" where
  "splits_stages p f \<longleftrightarrow> (case f of (pre, s, e, post) \<Rightarrow> Stages p = pre @ s # post)"

lemma pipeline_loop_failures:
  assumes "RestartOnError p" and "list_all (splits_stages p) fs" and "RestartDelay p \<noteq> 0"
  shows "pipeline_loop p True (map failing_round fs @ rs) =
    (let (evs, r) = pipeline_loop p True rs in (concat (map (failure_events p) fs) @ evs, r))"
  using assms
proof (induction fs)
  case (Cons f fs)
  obtain pre s e post where f: "f = (pre, s, e, post)" by (cases f) auto
  have "Stages p = pre @ s # post" using Cons.prems f by (simp add: splits_stages_def)
  then have "run_stages p (Stages p) (map (\<lambda>_. StageReturns None) pre @ [StageReturns (Some e)]) None =
      (failure_events p f, Inr (Some e))"
    using run_stages_restart [OF Cons.prems(1), of pre s post e "[]" None] Cons.prems(3)
    by (simp add: f failure_events_def delay_used_def)
  with Cons show ?case by (simp add: f failing_round_def split_def Let_def)
qed (simp add: split_def Let_def)

text \<open>
  C37: a pipeline that restarts on errors tries from the first stage again until an attempt
  goes through. Each failed attempt runs its stages up to the failing one and no further,
  reports one warning, and sets the timer to the delay (five seconds when none is
  configured); the attempt in which every stage returns nil runs them all, in order, and
  completes the pipeline.
\<close>

theorem prestart_retries_until_success:
  assumes "RestartOnError p" and "Stages p \<noteq> []" and "list_all (splits_stages p) fs"
  shows "pipeline_Run p (map failing_round fs @ RoundTimer (map (\<lambda>_. StageReturns None) (Stages p)) # rs) =
    (concat (map (failure_events p) fs) @ map StageRun (Stages p), PCompleted)"
proof -
  let ?p = "with_delay p"
  have "RestartDelay ?p \<noteq> 0" by (simp add: delay_used_def)
  moreover have "list_all (splits_stages ?p) fs" using assms(3) by (simp add: splits_stages_def list_all_iff)
  moreover have "failure_events ?p = failure_events p"
    by (simp add: failure_events_def fun_eq_iff)
  ultimately have "pipeline_loop ?p True (map failing_round fs @ rs') =
      (let (evs, r) = pipeline_loop ?p True rs' in (concat (map (failure_events p) fs) @ evs, r))" for rs'
    using pipeline_loop_failures [of ?p fs rs'] assms(1) by simp
  moreover have "run_stages ?p (Stages p) (map (\<lambda>_. StageReturns None) (Stages p)) None =
      (map StageRun (Stages p), Inr None)"
    using run_stages_ok [of ?p "Stages p" "[]"] by simp
  ultimately show ?thesis using assms(2) by (simp add: pipeline_Run_def split_def Let_def)
qed

theorem prestart_retries_until_success_witness:
  "\<exists>evs. pipeline_Run \<lparr>RestartOnError = True, RestartDelay = 0, Stages = [''db'', ''cache'']\<rparr>
     [RoundTimer [StageReturns None, StageReturns (Some CtxCanceled)],
      RoundTimer [StageReturns None, StageReturns None]] = (evs, PCompleted) \<and>
   TimerReset (5 * Second) \<in> set evs"
proof -
  let ?p = "\<lparr>RestartOnError = True, RestartDelay = 0, Stages = [''db'', ''cache'']\<rparr>"
  let ?f = "([''db''], ''cache'', CtxCanceled, []) :: failure"
  have a: "RestartOnError ?p" "Stages ?p \<noteq> []" "list_all (splits_stages ?p) [?f]"
    by (simp_all add: splits_stages_def)
  from prestart_retries_until_success [OF a, of "[]"]
  show ?thesis by (simp add: failing_round_def failure_events_def delay_used_def)
qed

subsection \<open>Without restarts\<close>

text \<open>A pass through the stages, each with what it returns.\<close>

lemma run_stages_no_restart:
  assumes "\<not> RestartOnError p" and "length outs = length ss"
  shows "snd (run_stages p ss (map StageReturns outs) err) =
    Inr (if outs = [] then err else last outs)"
  using assms
proof (induction ss arbitrary: outs err)
  case (Cons s ss)
  then obtain x xs where outs: "outs = x # xs" "length xs = length ss" by (cases outs) auto
  with Cons.IH [OF Cons.prems(1), of xs x] Cons.prems(1) show ?case
    by (cases x) (simp_all add: split_def Let_def)
qed simp

lemma pipeline_loop_unarmed:
  "\<not> RestartOnError p \<Longrightarrow> RoundCtxDone \<notin> set rs \<Longrightarrow> snd (pipeline_loop p False rs) = PWaiting"
proof (induction rs)
  case (Cons r rs)
  then show ?case by (cases r) simp_all
qed simp



end
