(* ===== verification/Rx_Daemon.thy ===== *)
theory Rx_Daemon
  imports Rx_Lifecycle Rx_Watch Rx_Prestart
begin

section \<open>The daemon (daemon.go, daemon\_options.go, service.go, service\_option.go)\<close>

text \<open>
  The daemon as a record, its options, the adding of services, the goroutines that watch
  signals and states and that run one service each, and \<open>Start\<close>, which puts them
  together. What other goroutines, the user's code and the operating system decide is an
  input of \<open>Start\<close>.
\<close>

subsection \<open>Services\<close>

text \<open>
  A runner is a number. The interface value \<open>Manager\<close> of a service is nil, a pointer that
  is nil, or a manager: one of the two of this package, or one of the user's. Of the type
  behind a nil pointer the code looks at how its method \<open>Manage\<close> is declared: on a
  struct, on another type, or on the pointer.
\<close>

datatype ServiceManager =
    RunContinuous RunContinuousManager
  | RunUntilSuccess RunUntilSuccessManager
  | CustomManager nat

datatype receiver = StructReceiver | OtherReceiver | PointerReceiver

datatype manager_value = NoManager | NilPointer string receiver | Manager ServiceManager

record Service =
  svc_Name :: string
  svc_Runner :: nat
  svc_Manager :: manager_value

text \<open>\<open>NewService\<close> with the options, each a \<open>WithManager\<close>.\<close>

fun WithManager :: "manager_value \<Rightarrow> Service \<Rightarrow> Service" where
  "WithManager manager s = s\<lparr>svc_Manager := manager\<rparr>"

definition NewService :: "string \<Rightarrow> nat \<Rightarrow> manager_value list \<Rightarrow> Service" where
  "NewService name runner opts =
     foldl (\<lambda>s manager. WithManager manager s)
       \<lparr>svc_Name = name, svc_Runner = runner,
        svc_Manager = Manager (RunContinuous
          \<lparr>DefaultDelay = 10 * Nanosecond, StartupDelay = 10 * Nanosecond,
           StateTimeouts = [StateInit \<mapsto> 5 * Second]\<rparr>)\<rparr> opts"

subsection \<open>State and options\<close>

record RPCConfig =
  Addr :: string
  Port :: "16 word"

datatype prestart_value = BuiltInPipeline pipeline | CustomPipeline nat

record daemon =
  d_name :: string
  d_signals :: "string list"
  d_services :: "string \<rightharpoonup> nat"
  d_managers :: "string \<rightharpoonup> manager_value"
  d_prestart :: prestart_value
  d_ic :: "ServiceStates intracom"
  reportAliveSecs :: "64 word"
  logWorkerCount :: nat
  serviceLogger :: nat
  internalLogger :: nat
  d_started :: bool
  rpcEnabled :: bool
  rpcConfig :: RPCConfig

datatype DaemonOption =
    WithPrestart PrestartConfig "string list"
  | WithCustomPrestartPipeline nat
  | WithServiceLogger nat
  | WithReportAlive "64 word"
  | WithSignals "string list"
  | WithInternalLogger nat
  | WithInternalLogging nat Level
  | WithRPC RPCConfig

text \<open>\<open>WithInternalLogging\<close> makes a logger around a new file handler, here a number.\<close>

fun daemon_option :: "daemon \<times> logs \<Rightarrow> DaemonOption \<Rightarrow> daemon \<times> logs" where
  "daemon_option (d, st) (WithPrestart conf stages) =
     (d\<lparr>d_prestart := BuiltInPipeline (NewPrestartPipeline conf stages)\<rparr>, st)"
| "daemon_option (d, st) (WithCustomPrestartPipeline p) = (d\<lparr>d_prestart := CustomPipeline p\<rparr>, st)"
| "daemon_option (d, st) (WithServiceLogger l) = (d\<lparr>serviceLogger := l\<rparr>, st)"
| "daemon_option (d, st) (WithReportAlive secs) = (d\<lparr>reportAliveSecs := secs\<rparr>, st)"
| "daemon_option (d, st) (WithSignals sigs) = (d\<lparr>d_signals := sigs\<rparr>, st)"
| "daemon_option (d, st) (WithInternalLogger l) = (d\<lparr>internalLogger := l\<rparr>, st)"
| "daemon_option (d, st) (WithInternalLogging h level) =
     (let (l, st') = NewLogger level h st in (d\<lparr>internalLogger := l\<rparr>, st'))"
| "daemon_option (d, st) (WithRPC cfg) =
     (d\<lparr>rpcEnabled := True,
        rpcConfig := \<lparr>Addr = (if Addr cfg = [] then ''127.0.0.1'' else Addr cfg),
                      Port = (if Port cfg = 0 then 1337 else Port cfg)\<rparr>\<rparr>, st)"

text \<open>\<open>sh\<close> and \<open>ih\<close> are the default handlers of the two loggers.\<close>

definition NewDaemon :: "nat \<Rightarrow> nat \<Rightarrow> string \<Rightarrow> DaemonOption list \<Rightarrow> logs \<Rightarrow> daemon \<times> logs" where
  "NewDaemon sh ih name options st =
     (let (sl, st1) = NewLogger LevelInfo sh st;
          (il, st2) = NewLogger LevelDebug ih st1
      in foldl daemon_option
        (\<lparr>d_name = name, d_signals = [''SIGINT'', ''SIGTERM''], d_services = Map.empty,
          d_managers = Map.empty,
          d_prestart = BuiltInPipeline
            \<lparr>RestartOnError = True, RestartDelay = 5 * Second, Stages = []\<rparr>,
          d_ic = intracom_New ''rxd-intracom'', reportAliveSecs = 0, logWorkerCount = 2,
          serviceLogger = sl, internalLogger = il, d_started = False, rpcEnabled = False,
          rpcConfig = \<lparr>Addr = [], Port = 0\<rparr>\<rparr>, st2) options)"

definition rpc_address :: "RPCConfig \<Rightarrow> string" where
  "rpc_address cfg = Addr cfg @ '':'' @ Itoa (uint (Port cfg))"

subsection \<open>Adding services\<close>

text \<open>
  \<open>checkNilStructPointer\<close>. When \<open>Manage\<close> is declared on the pointer, the type behind it has
  no such method and the lookup gives a zero \<open>reflect.Method\<close>; asking its nil \<open>Type\<close> for
  the number of arguments panics. \<open>Inl\<close> is a panic.
\<close>

fun checkNilStructPointer :: "manager_value \<Rightarrow> string \<Rightarrow> string + go_error option" where
  "checkNilStructPointer (NilPointer tname StructReceiver) meth =
     Inr (Some (ErrUninitialized tname meth))"
| "checkNilStructPointer (NilPointer tname OtherReceiver) meth = Inr None"
| "checkNilStructPointer (NilPointer tname PointerReceiver) meth =
     Inl ''invalid memory address or nil pointer dereference''"
| "checkNilStructPointer v meth = Inr None"

definition addService :: "Service \<Rightarrow> daemon \<Rightarrow> (string + go_error option) \<times> daemon" where
  "addService service d =
     (if d_started d then (Inr (Some ErrAddingServiceOnceStarted), d)
      else if svc_Name service = [] then (Inr (Some ErrNoServiceName), d)
      else
        (let m = (if svc_Manager service = NoManager
                  then Manager (RunContinuous (NewDefaultManager [])) else svc_Manager service)
         in case checkNilStructPointer m ''Manage'' of
              Inl p \<Rightarrow> (Inl p, d)
            | Inr (Some e) \<Rightarrow> (Inr (Some e), d)
            | Inr None \<Rightarrow>
                (Inr None,
                 d\<lparr>d_services := (d_services d)(svc_Name service \<mapsto> svc_Runner service),
                   d_managers := (d_managers d)(svc_Name service \<mapsto> m)\<rparr>)))"

definition AddService :: "Service \<Rightarrow> daemon \<Rightarrow> (string + go_error option) \<times> daemon" where
  "AddService service d = addService service d"

fun AddServices :: "Service list \<Rightarrow> daemon \<Rightarrow> (string + go_error option) \<times> daemon" where
  "AddServices [] d = (Inr None, d)"
| "AddServices (s # ss) d =
     (case addService s d of
        (Inr None, d') \<Rightarrow> AddServices ss d'
      | (r, d') \<Rightarrow> (r, d'))"

subsection \<open>The states watcher\<close>

text \<open>
  A Go map is a reference: \<open>mem\<close> holds the maps, and a snapshot that is published is the
  address of a map. The watcher's own map is at address 0. After each update it publishes
  the address of a copy. \<open>keys\<close> is the order in which the copy ranges over the map.
\<close>

record sw_state =
  mem :: "nat \<Rightarrow> ServiceStates"
  next_addr :: nat
  published :: "nat list"

definition sw_init :: "string set \<Rightarrow> sw_state" where
  "sw_init names =
     \<lparr>mem = (\<lambda>_. Map.empty)(0 := (\<lambda>n. if n \<in> names
        then Some (mk_update StateUnknown TransitionEntering) else None)),
      next_addr = 1, published = []\<rparr>"

definition sw_step :: "string list \<times> ServiceStateUpdate \<Rightarrow> sw_state \<Rightarrow> sw_state" where
  "sw_step ku s =
     (case ku of (keys, u) \<Rightarrow>
       (let own = (mem s 0)(Name u \<mapsto> mk_update (upd_State u) (upd_Transition u));
            a = next_addr s
        in \<lparr>mem = (mem s)(0 := own, a := states_copy keys own), next_addr = Suc a,
            published = published s @ [a]\<rparr>))"

definition statesWatcher :: "string set \<Rightarrow> (string list \<times> ServiceStateUpdate) list \<Rightarrow> sw_state" where
  "statesWatcher names kus = foldl (\<lambda>s ku. sw_step ku s) (sw_init names) kus"

text \<open>
  The specification of the watcher: the states after some updates, as a value. The orders
  of the copies fit if each visits the keys that the map has then.
\<close>

definition states_after :: "string set \<Rightarrow> ServiceStateUpdate list \<Rightarrow> ServiceStates" where
  "states_after names us =
     foldl (\<lambda>m u. m(Name u \<mapsto> mk_update (upd_State u) (upd_Transition u)))
       (\<lambda>n. if n \<in> names then Some (mk_update StateUnknown TransitionEntering) else None) us"

definition copies_fit :: "string set \<Rightarrow> (string list \<times> ServiceStateUpdate) list \<Rightarrow> bool" where
  "copies_fit names kus \<longleftrightarrow>
     (\<forall>k < length kus. set (fst (kus ! k)) = dom (states_after names (map snd (take (Suc k) kus))))"

subsection \<open>A service's goroutine\<close>

text \<open>
  What a manager's run is given: the choices of the built-in managers, or what a manager of
  the user's sends and how it ends. A panic that leaves \<open>Manage\<close> is recovered, and the
  update that the service enters the exit state is sent for it.
\<close>

datatype service_run =
    Choices outcome "choice list"
  | CustomRun "ServiceStateUpdate list" mexit

fun manage :: "string \<Rightarrow> manager_value \<Rightarrow> service_run \<Rightarrow> ServiceStateUpdate list \<times> mexit" where
  "manage nm (Manager (RunContinuous m)) (Choices fin cs) =
     (let (evs, x) = rc_Manage m nm fin cs in (updates evs, x))"
| "manage nm (Manager (RunUntilSuccess m)) (Choices fin cs) =
     (let (evs, x) = ru_Manage m nm fin cs in (updates evs, x))"
| "manage nm (Manager (CustomManager i)) (CustomRun us x) = (us, x)"
| "manage nm (NilPointer t r) run = ([], Panic_out ''nil pointer'')"
| "manage nm m run = ([], Still_running)"

definition service_goroutine ::
  "string \<Rightarrow> manager_value \<Rightarrow> service_run \<Rightarrow> ServiceStateUpdate list \<times> bool" where
  "service_goroutine nm m run =
     (case manage nm m run of
        (us, Panic_out p) \<Rightarrow> (us @ [final_update nm], True)
      | (us, Returned) \<Rightarrow> (us, True)
      | (us, Still_running) \<Rightarrow> (us, False))"

subsection \<open>The signal watcher\<close>

text \<open>
  The goroutine waits for the daemon's context or for one of the signals it asked to be
  notified of; others pass it by. It logs, and cancels the daemon's context on a signal
  (\<open>True\<close>). \<open>None\<close>: it still waits.
\<close>

datatype os_event = DaemonCtxDone | OsSignal string

fun signal_watcher :: "daemon \<Rightarrow> os_event list \<Rightarrow> ((Level \<times> string \<times> Field list) \<times> bool) option" where
  "signal_watcher d [] = None"
| "signal_watcher d (DaemonCtxDone # es) =
     Some ((LevelDebug, ''signal watcher received context done from parent context'',
            [log_String ''rxd'' (d_name d)]), False)"
| "signal_watcher d (OsSignal s # es) =
     (if s \<in> {''SIGINT'', ''SIGTERM''}
      then Some ((LevelNotice, ''signal watcher received an os signal'',
                  [log_String ''signal'' s, log_String ''rxd'' (d_name d)]), True)
      else signal_watcher d es)"

subsection \<open>Start\<close>

text \<open>
  What \<open>Start\<close> does not decide: the order in which it ranges over the services; what their
  managers' runs are given (the cancelled context among it); in which order their updates,
  each with the service whose goroutine sends it, arrive at the states watcher, the orders
  its copies use, and how many snapshots the topic takes from it; the rounds of the
  prestart pipeline (or whether a custom one ends); what the services do to the registry;
  whether the RPC server shuts down without an error; and the orders in which the registry
  closes its topics.
\<close>

record start_env =
  order :: "string list"
  runs :: "string \<Rightarrow> service_run"
  arrivals :: "(string \<times> ServiceStateUpdate) list"
  copies :: "string list list"
  snapshots_taken :: nat
  rounds :: "round list"
  custom_ends :: bool
  services_do :: "ServiceStates intracom \<Rightarrow> ServiceStates intracom"
  shutdown_err :: "go_error option"
  topic_orders :: "(string \<times> string list) list"

datatype start_result = StartFails go_error | TopicFails ic_error | StartBlocks | StartReturnsNil

definition launched :: "start_env \<Rightarrow> daemon \<Rightarrow> (string \<times> manager_value) list" where
  "launched env d =
     List.map_filter (\<lambda>n. map_option (Pair n) (d_managers d n)) (order env)"

definition states_conf :: TopicConfig where
  "states_conf =
     \<lparr>cfg_Name = internalServiceStates, cfg_ErrIfExists = True, cfg_SubscriberAware = False\<rparr>"

definition prestart_ends :: "start_env \<Rightarrow> daemon \<Rightarrow> bool" where
  "prestart_ends env d =
     (case d_prestart d of
        BuiltInPipeline p \<Rightarrow> snd (pipeline_Run p (rounds env)) \<noteq> PWaiting
      | CustomPipeline i \<Rightarrow> custom_ends env)"

definition watched :: "start_env \<Rightarrow> (string list \<times> ServiceStateUpdate) list" where
  "watched env = zip (copies env) (map snd (arrivals env))"

text \<open>
  \<open>Start\<close> waits for the services, shuts the RPC server down, waits for the states watcher,
  which ends when the topic has taken all its snapshots, and closes the registry, whose
  error it only logs.
\<close>

definition daemon_Start :: "start_env \<Rightarrow> daemon \<Rightarrow> start_result \<times> daemon \<times> sw_state option" where
  "daemon_Start env d0 =
     (if d_started d0 then (StartFails ErrDaemonStarted, d0, None)
      else
       (let d = d0\<lparr>d_started := True\<rparr> in
        if d_services d = Map.empty then (StartFails ErrNoServices, d, None)
        else if \<not> prestart_ends env d then (StartBlocks, d, None)
        else
          (case CreateTopic (NamedType ''ServiceStates'') (Some (d_ic d)) states_conf of
             (Inl e, _) \<Rightarrow> (TopicFails e, d, None)
           | (Inr r, None) \<Rightarrow> (StartBlocks, d, None)
           | (Inr r, Some ic) \<Rightarrow>
              (let ic1 = services_do env ic; d1 = d\<lparr>d_ic := ic1\<rparr>;
                   sw = statesWatcher (dom (d_services d)) (take (snapshots_taken env) (watched env))
               in if \<not> list_all (\<lambda>(n, m). snd (service_goroutine n m (runs env n))) (launched env d)
                  then (StartBlocks, d1, Some sw)
                  else if rpcEnabled d \<and> shutdown_err env \<noteq> None
                  then (StartFails (the (shutdown_err env)), d1, Some sw)
                  else if snapshots_taken env < length (watched env) then (StartBlocks, d1, Some sw)
                  else
                    (case intracom_Close (topic_orders env) (Some ic1) of
                       (None, Some ic2) \<Rightarrow> (StartBlocks, d1\<lparr>d_ic := ic2\<rparr>, Some sw)
                     | (Some e, Some ic2) \<Rightarrow> (StartReturnsNil, d1\<lparr>d_ic := ic2\<rparr>, Some sw)
                     | (_, None) \<Rightarrow> (StartReturnsNil, d1, Some sw))))))"

text \<open>
  The inputs fit the daemon: the order visits every service once; the arrivals are an
  interleaving of what the services' goroutines send; and each copy ranges over the keys its map has.
\<close>

definition sent_by :: "start_env \<Rightarrow> daemon \<Rightarrow> string \<Rightarrow> ServiceStateUpdate list" where
  "sent_by env d n =
     (case d_managers d n of None \<Rightarrow> [] | Some m \<Rightarrow> fst (service_goroutine n m (runs env n)))"

definition interleaves :: "start_env \<Rightarrow> daemon \<Rightarrow> bool" where
  "interleaves env d \<longleftrightarrow> distinct (order env) \<and> set (order env) = dom (d_services d) \<and>
     list_all (\<lambda>(n, u). n \<in> set (order env)) (arrivals env) \<and>
     list_all (\<lambda>n. map snd (filter (\<lambda>(k, u). k = n) (arrivals env)) = sent_by env d n) (order env) \<and>
     length (copies env) = length (arrivals env) \<and>
     copies_fit (dom (d_services d)) (watched env)"

end
