(* ===== verification/Rx_DaemonProps.thy ===== *)
theory Rx_DaemonProps
  imports Rx_Daemon
begin

section \<open>Properties of the daemon\<close>

text \<open>
  The snapshots of the states watcher, the contract by which services announce their end,
  the shutdown of a daemon whose services are cancelled, and what is refused when.
\<close>

subsection \<open>The snapshots\<close>

lemma states_after_snoc [simp]:
  "states_after names (us @ [u]) =
     (states_after names us)(Name u \<mapsto> mk_update (upd_State u) (upd_Transition u))"
  by (simp add: states_after_def)

lemma statesWatcher_snoc [simp]:
  "statesWatcher names (kus @ [ku]) = sw_step ku (statesWatcher names kus)"
  by (simp add: statesWatcher_def)

lemma copies_fit_snoc:
  "copies_fit names (kus @ [ku]) \<longleftrightarrow> copies_fit names kus \<and>
     set (fst ku) = dom (states_after names (map snd kus @ [snd ku]))"
proof -
  have "copies_fit names (kus @ [ku]) \<longleftrightarrow>
    (\<forall>k < length kus. set (fst ((kus @ [ku]) ! k)) =
       dom (states_after names (map snd (take (Suc k) (kus @ [ku]))))) \<and>
    set (fst ((kus @ [ku]) ! length kus)) =
       dom (states_after names (map snd (take (Suc (length kus)) (kus @ [ku]))))"
    by (simp only: copies_fit_def length_append_singleton All_less_Suc conj_commute)
  also have "(\<forall>k < length kus. set (fst ((kus @ [ku]) ! k)) =
       dom (states_after names (map snd (take (Suc k) (kus @ [ku]))))) \<longleftrightarrow> copies_fit names kus"
    by (simp add: copies_fit_def nth_append)
  also have "(kus @ [ku]) ! length kus = ku" by simp
  also have "map snd (take (Suc (length kus)) (kus @ [ku])) = map snd kus @ [snd ku]" by simp
  finally show ?thesis .
qed

lemma copies_fit_take: "copies_fit names kus \<Longrightarrow> copies_fit names (take n kus)"
  by (simp add: copies_fit_def min_def)

text \<open>The watcher's memory: its own map, and behind each published address what it was then.\<close>

lemma statesWatcher_memory:
  assumes "copies_fit names kus"
  shows "next_addr (statesWatcher names kus) = Suc (length kus) \<and>
    published (statesWatcher names kus) = map Suc [0..<length kus] \<and>
    mem (statesWatcher names kus) 0 = states_after names (map snd kus) \<and>
    (\<forall>k < length kus. mem (statesWatcher names kus) (Suc k) =
       states_after names (map snd (take (Suc k) kus)))"
  using assms
proof (induction kus rule: rev_induct)
  case Nil
  show ?case by (simp add: statesWatcher_def sw_init_def states_after_def fun_eq_iff)
next
  case (snoc ku kus)
  let ?s = "statesWatcher names kus"
  obtain keys u where ku: "ku = (keys, u)" by force
  have fit: "copies_fit names kus" "set keys = dom (states_after names (map snd kus @ [u]))"
    using snoc.prems by (simp_all add: copies_fit_snoc ku)
  have IH: "next_addr ?s = Suc (length kus)" "published ?s = map Suc [0..<length kus]"
    "mem ?s 0 = states_after names (map snd kus)"
    "\<And>k. k < length kus \<Longrightarrow> mem ?s (Suc k) = states_after names (map snd (take (Suc k) kus))"
    using snoc.IH [OF fit(1)] by auto
  show ?case
    using IH fit(2) by (auto simp: ku sw_step_def Let_def states_copy_id less_Suc_eq)
qed

lemma watched_memory:
  assumes "copies_fit names kus" and "k < j" and "j \<le> length kus"
  shows "published (statesWatcher names (take j kus)) = map Suc [0..<j] \<and>
    mem (statesWatcher names (take j kus)) (Suc k) = states_after names (map snd (take (Suc k) kus))"
  using statesWatcher_memory [OF copies_fit_take [OF assms(1), of j]] assms(2,3)
  by (simp add: min_def)

text \<open>
  A snapshot that was published never changes. Whatever updates come after it, the map
  that was published for the \<open>k\<close>-th update holds the states after the first updates up to
  that one, and one snapshot is published for each update. (The services watch these maps
  while the watcher goes on updating its own: the copy keeps them apart.)
\<close>

theorem snapshots_never_change:
  assumes "copies_fit names kus" and "k < j" and "j \<le> length kus"
  shows "length (published (statesWatcher names (take j kus))) = j \<and>
    mem (statesWatcher names (take j kus)) (published (statesWatcher names (take j kus)) ! k) =
      states_after names (map snd (take (Suc k) kus))"
  using watched_memory [OF assms] assms(2) by simp

theorem snapshots_never_change_witness:
  "let kus = [([''a''], mk_ssu ''a'' StateInit TransitionEntering),
              ([''a''], mk_ssu ''a'' StateInit TransitionExited)];
       s = statesWatcher {''a''} kus
   in mem s (published s ! 0) ''a'' = Some (mk_update StateInit TransitionEntering) \<and>
      mem s (published s ! 1) ''a'' = Some (mk_update StateInit TransitionExited)"
proof -
  let ?kus = "[([''a''], mk_ssu ''a'' StateInit TransitionEntering),
              ([''a''], mk_ssu ''a'' StateInit TransitionExited)]"
  have "dom (\<lambda>n. if n = x then Some v else None) = {x}" for x :: string and v :: StateUpdate
    by (auto split: if_splits)
  then have f: "copies_fit {''a''} ?kus"
    by (simp add: copies_fit_def All_less_Suc states_after_def)
  from snapshots_never_change [OF f, of 0 2] snapshots_never_change [OF f, of 1 2] show ?thesis
    by (simp add: states_after_def Let_def)
qed

subsection \<open>Services that announce their end\<close>

lemma states_after_apply:
  "states_after names us n =
     (let xs = filter (\<lambda>u. Name u = n) us in
      if xs = [] then if n \<in> names then Some (mk_update StateUnknown TransitionEntering) else None
      else Some (mk_update (upd_State (last xs)) (upd_Transition (last xs))))"
  by (induction us rule: rev_induct) (simp_all add: states_after_def Let_def)

text \<open>
  The contract between a service's goroutine and the states watcher: every update carries
  the service's own name, and a goroutine that ends has said last that the service enters
  the exit state. \<open>good\<close> are the runs for which that is promised.
\<close>

locale exit_announcer =
  fixes goroutine :: "string \<Rightarrow> 'i \<Rightarrow> ServiceStateUpdate list \<times> bool"
    and good :: "'i \<Rightarrow> bool"
  assumes own: "list_all (\<lambda>u. Name u = nm) (fst (goroutine nm i))"
    and announces: "good i \<Longrightarrow> snd (goroutine nm i) \<Longrightarrow>
      \<exists>us. fst (goroutine nm i) = us @ [final_update nm]"
begin

lemma ends_in_exit:
  assumes "filter (\<lambda>u. Name u = nm) us = fst (goroutine nm i)" and "good i" and "snd (goroutine nm i)"
  shows "states_after names us nm = Some (mk_update StateExit TransitionEntering)"
proof -
  from announces [OF assms(2,3)] obtain vs where "fst (goroutine nm i) = vs @ [final_update nm]" ..
  with assms(1) show ?thesis by (simp add: states_after_apply)
qed

end

lemma lc_updates_own: "list_all (\<lambda>u. Name u = nm) (lc_updates nm ks a)"
  by (induction nm ks a rule: lc_updates.induct) simp_all

lemma end_updates_own: "list_all (\<lambda>u. Name u = nm) (end_updates nm st fin a)"
  by (simp add: end_updates_def split: outcome.split)

lemma end_updates_final:
  "lc_exit st fin a = Returned \<Longrightarrow> \<exists>us. end_updates nm st fin a = us @ [final_update nm]"
  by (cases a) (auto simp: end_updates_def split: outcome.splits if_splits)

lemma rc_goroutine:
  fixes m nm fin cs
  defines "g \<equiv> service_goroutine nm (Manager (RunContinuous m)) (Choices fin cs)"
  shows "list_all (\<lambda>u. Name u = nm) (fst g)"
    and "snd g \<longleftrightarrow> snd (rc_Manage m nm fin cs) \<noteq> Still_running"
    and "snd g \<Longrightarrow> \<exists>vs. fst g = vs @ [final_update nm]"
proof -
  obtain ks a where "lc_run rc_next Init cs = (ks, a)" by force
  from rc_Manage_refines [OF this refl, of m nm fin] obtain evs where
    x: "rc_Manage m nm fin cs = (evs, lc_exit (ends_stopped False ks) fin a)"
    and u: "updates evs = lc_updates nm ks a @ end_updates nm (ends_stopped False ks) fin a" by blast
  show "snd g \<longleftrightarrow> snd (rc_Manage m nm fin cs) \<noteq> Still_running"
    by (simp add: g_def service_goroutine_def x split: mexit.split)
  show "list_all (\<lambda>u. Name u = nm) (fst g)"
    by (simp add: g_def service_goroutine_def x u lc_updates_own end_updates_own split: mexit.split)
  show "\<exists>vs. fst g = vs @ [final_update nm]" if "snd g"
  proof (cases "lc_exit (ends_stopped False ks) fin a")
    case Returned
    from end_updates_final [OF this, of nm] obtain vs where
      "end_updates nm (ends_stopped False ks) fin a = vs @ [final_update nm]" ..
    with Returned show ?thesis by (simp add: g_def service_goroutine_def x u)
  qed (use that in \<open>simp_all add: g_def service_goroutine_def x u\<close>)
qed

lemma ru_body_updates:
  "list_all (\<lambda>u. Name u = nm) (updates (fst (ru_body m nm fin cs))) \<and>
   (snd (ru_body m nm fin cs) = Returned \<longrightarrow>
      (\<exists>vs. updates (fst (ru_body m nm fin cs)) = vs @ [final_update nm]))"
proof (cases "0 < ru_StartupDelay m \<and> cs \<noteq> []")
  case True
  then obtain c cs' where c: "cs = c # cs'" by (cases cs) auto
  show ?thesis
  proof (cases "0 < ru_DefaultDelay m")
    case pos: True
    obtain ks a where "lc_run ru_next Init (c # cs') = (ks, a)" by force
    from ru_body_refines [OF _ pos this refl, of nm fin] True obtain evs where
      x: "ru_body m nm fin cs = (evs, lc_exit (ends_stopped True (tl ks)) fin a)"
      and u: "updates evs = (if ks = [] then [final_update nm]
        else lc_updates nm ks a @ end_updates nm (ends_stopped True (tl ks)) fin a)"
      using c by blast
    have "list_all (\<lambda>u. Name u = nm) (updates evs)"
      by (simp add: u lc_updates_own end_updates_own)
    moreover have "\<exists>vs. updates evs = vs @ [final_update nm]"
      if "lc_exit (ends_stopped True (tl ks)) fin a = Returned"
    proof -
      from end_updates_final [OF that, of nm] obtain vs where
        "end_updates nm (ends_stopped True (tl ks)) fin a = vs @ [final_update nm]" ..
      then show ?thesis by (simp add: u)
    qed
    ultimately show ?thesis by (simp add: x)
  next
    case False
    with True c show ?thesis
      by (cases c rule: returning.cases) (simp_all add: ru_body_def ru_start_def Let_def manager_end_def)
  qed
next
  case False
  then show ?thesis by (simp add: ru_body_def split: list.split)
qed

lemma ru_goroutine:
  "service_goroutine nm (Manager (RunUntilSuccess m)) (Choices fin cs) =
     (updates (fst (ru_body m nm fin cs)), snd (ru_body m nm fin cs) \<noteq> Still_running)"
  by (simp add: service_goroutine_def ru_Manage_def split: prod.split mexit.split)

text \<open>The two managers keep the contract, the second unless a method panics.\<close>

interpretation rc_service: exit_announcer
  "\<lambda>nm (m, fin, cs). service_goroutine nm (Manager (RunContinuous m)) (Choices fin cs)" "\<lambda>_. True"
  by unfold_locales (simp_all only: case_prod_unfold rc_goroutine(1,3))

interpretation ru_service: exit_announcer
  "\<lambda>nm (m, fin, cs). service_goroutine nm (Manager (RunUntilSuccess m)) (Choices fin cs)"
  "\<lambda>(m, fin, cs). \<forall>nm p. snd (ru_body m nm fin cs) \<noteq> Panic_out p"
proof
  fix nm and i :: "RunUntilSuccessManager \<times> outcome \<times> choice list"
  show "list_all (\<lambda>u. Name u = nm) (fst (case i of (m, fin, cs) \<Rightarrow>
       service_goroutine nm (Manager (RunUntilSuccess m)) (Choices fin cs)))"
    by (simp add: case_prod_unfold ru_goroutine ru_body_updates)
  assume "case i of (m, fin, cs) \<Rightarrow> \<forall>nm p. snd (ru_body m nm fin cs) \<noteq> Panic_out p"
    and "snd (case i of (m, fin, cs) \<Rightarrow>
       service_goroutine nm (Manager (RunUntilSuccess m)) (Choices fin cs))"
  then have "snd (ru_body (fst i) nm (fst (snd i)) (snd (snd i))) = Returned"
    by (cases "snd (ru_body (fst i) nm (fst (snd i)) (snd (snd i)))")
      (simp_all add: case_prod_unfold ru_goroutine)
  then show "\<exists>us. fst (case i of (m, fin, cs) \<Rightarrow>
       service_goroutine nm (Manager (RunUntilSuccess m)) (Choices fin cs)) = us @ [final_update nm]"
    by (simp add: case_prod_unfold ru_goroutine ru_body_updates)
qed

text \<open>What an update of a built-in manager may say.\<close>

definition known_update :: "string \<Rightarrow> ServiceStateUpdate \<Rightarrow> bool" where
  "known_update nm u \<longleftrightarrow> Name u = nm \<and>
     upd_State u \<in> {StateExit, StateInit, StateIdle, StateRun, StateStop} \<and>
     State_String (upd_State u) \<noteq> ''unknown'' \<and>
     (upd_Transition u = TransitionEntering \<or>
      upd_Transition u = TransitionExited \<and> upd_State u \<noteq> StateExit)"
lemma known_entering: "known_update nm (entering nm k)" "known_update nm (exited nm k)"
    "known_update nm (final_update nm)"
  by (cases k; simp add: known_update_def State_String_def)+

lemmas known_simps = known_entering known_entering(1,2) [where k = Init, simplified]
  known_entering(1,2) [where k = Stop, simplified]

lemma lc_updates_known: "list_all (known_update nm) (lc_updates nm ks a)"
  by (induction nm ks a rule: lc_updates.induct) (simp_all add: known_entering)

lemma end_updates_known: "list_all (known_update nm) (end_updates nm st fin a)"
  by (simp add: end_updates_def known_simps split: outcome.split)

lemma ru_body_known: "list_all (known_update nm) (updates (fst (ru_body m nm fin cs)))"
proof (cases "0 < ru_StartupDelay m \<and> 0 < ru_DefaultDelay m \<and> cs \<noteq> []")
  case True
  then obtain c cs' where c: "cs = c # cs'" by (cases cs) auto
  obtain ks a where "lc_run ru_next Init (c # cs') = (ks, a)" by force
  from ru_body_refines [OF _ _ this refl, of m nm fin] True c show ?thesis
    by (auto simp: lc_updates_known end_updates_known known_entering)
next
  case False
  then show ?thesis
    by (cases cs; cases "hd cs" rule: returning.cases)
      (auto simp: ru_body_def ru_start_def Let_def manager_end_def known_simps)
qed

text \<open>
  C36: what the built-in managers say is well-formed. Every update that the goroutine of a
  service under one of them sends names that service and one of the five states it can be
  in, never the unknown one, so that each has a text of its own; it is about entering the
  state or having left it; and of the exit state it is only said that it is entered. This
  holds for every configuration, however the methods return or panic.
\<close>

theorem manager_updates_are_known:
  "list_all (known_update nm) (fst (service_goroutine nm (Manager (RunContinuous m)) run)) \<and>
   list_all (known_update nm) (fst (service_goroutine nm (Manager (RunUntilSuccess m')) run))"
proof (cases run)
  case (Choices fin cs)
  obtain ks a where "lc_run rc_next Init cs = (ks, a)" by force
  from rc_Manage_refines [OF this refl, of m nm fin] obtain evs where
    "rc_Manage m nm fin cs = (evs, lc_exit (ends_stopped False ks) fin a)"
    "updates evs = lc_updates nm ks a @ end_updates nm (ends_stopped False ks) fin a" by blast
  then have "list_all (known_update nm) (fst (service_goroutine nm (Manager (RunContinuous m)) run))"
    by (simp add: Choices service_goroutine_def lc_updates_known end_updates_known known_entering
        split: mexit.split)
  then show ?thesis by (simp add: Choices ru_goroutine ru_body_known)
qed (simp add: service_goroutine_def)

text \<open>The runs after a cancellation that this file speaks of.\<close>

fun cancelled_run :: "manager_value \<Rightarrow> service_run \<Rightarrow> bool" where
  "cancelled_run (Manager (RunContinuous m)) (Choices fin cs) \<longleftrightarrow> CtxDone \<in> set cs"
| "cancelled_run (Manager (RunUntilSuccess m)) (Choices fin cs) \<longleftrightarrow>
     0 < ru_StartupDelay m \<and> 0 < ru_DefaultDelay m \<and> CtxDone \<in> set cs \<and>
     list_all (\<lambda>c. \<nexists>p. c = Fired (Panics p)) cs \<and> (\<exists>r. fin = Returns r)"
| "cancelled_run v run \<longleftrightarrow> False"

lemma ru_cancelled:
  assumes "0 < ru_StartupDelay m" and "0 < ru_DefaultDelay m" and "CtxDone \<in> set cs"
    and "list_all (\<lambda>c. \<nexists>p. c = Fired (Panics p)) cs"
  shows "snd (ru_body m nm (Returns r) cs) = Returned"
proof -
  obtain c cs' where c: "cs = c # cs'" using assms(3) by (cases cs) auto
  obtain ks a where run: "lc_run ru_next Init (c # cs') = (ks, a)" by force
  have "\<And>j. a \<noteq> Turn j" using lc_run_waits [of ru_next Init "c # cs'" ks] run assms(3) c by metis
  moreover have "\<And>p. a \<noteq> Panic p"
    using lc_run_no_panic [of ru_next Init "c # cs'" ks] run assms(4) c by (auto simp: list_all_iff)
  ultimately have "lc_exit st (Returns r) a = Returned" for st by (cases a) auto
  with ru_body_refines [OF assms(1,2) run refl, of nm "Returns r"] c show ?thesis by auto
qed

lemma cancelled_service:
  assumes "cancelled_run v run"
  shows "snd (service_goroutine nm v run)" and "list_all (\<lambda>u. Name u = nm) (fst (service_goroutine nm v run))"
    and "filter (\<lambda>u. Name u = nm) us = fst (service_goroutine nm v run) \<Longrightarrow>
      states_after names us nm = Some (mk_update StateExit TransitionEntering)"
proof -
  have "snd (service_goroutine nm v run) \<and> list_all (\<lambda>u. Name u = nm) (fst (service_goroutine nm v run)) \<and>
    (filter (\<lambda>u. Name u = nm) us = fst (service_goroutine nm v run) \<longrightarrow>
      states_after names us nm = Some (mk_update StateExit TransitionEntering))"
    using assms
  proof (cases rule: cancelled_run.cases [of "(v, run)"])
    case (1 m fin cs)
    then have "\<not> list_all returning cs" using assms by (auto simp: list_all_iff intro!: bexI [of _ CtxDone])
    then have f: "snd (service_goroutine nm v run)"
      using 1 by (simp add: rc_goroutine(2) rc_running_iff)
    from rc_service.ends_in_exit [of nm us "(m, fin, cs)" names] rc_service.own [of nm "(m, fin, cs)"] f 1
    show ?thesis by simp
  next
    case (2 m fin cs)
    then obtain r where r: "fin = Returns r" using assms by auto
    have b: "snd (ru_body m nm fin cs) = Returned" for nm using 2 r assms by (auto intro: ru_cancelled)
    then have f: "snd (service_goroutine nm v run)" using 2 by (simp add: ru_goroutine)
    from ru_service.ends_in_exit [of nm us "(m, fin, cs)" names] ru_service.own [of nm "(m, fin, cs)"] f 2 b
    show ?thesis by simp
  qed simp_all
  then show "snd (service_goroutine nm v run)"
    and "list_all (\<lambda>u. Name u = nm) (fst (service_goroutine nm v run))"
    and "filter (\<lambda>u. Name u = nm) us = fst (service_goroutine nm v run) \<Longrightarrow>
      states_after names us nm = Some (mk_update StateExit TransitionEntering)" by blast+
qed

text \<open>What a service sent is what arrives under its name, when all use their own name.\<close>

lemma arrivals_by_name:
  assumes "interleaves env d" and "n \<in> dom (d_services d)"
    and "\<And>k. k \<in> dom (d_services d) \<Longrightarrow> list_all (\<lambda>u. Name u = k) (sent_by env d k)"
  shows "filter (\<lambda>u. Name u = n) (map snd (arrivals env)) = sent_by env d n"
proof -
  have sent: "map snd (filter (\<lambda>(k, u). k = m) (arrivals env)) = sent_by env d m"
    if "m \<in> dom (d_services d)" for m
    using assms(1) that by (auto simp: interleaves_def list_all_iff)
  have named: "Name u = k" if "(k, u) \<in> set (arrivals env)" for k u
  proof -
    have k: "k \<in> dom (d_services d)" using assms(1) that by (auto simp: interleaves_def list_all_iff)
    have "u \<in> snd ` set (filter (\<lambda>(k', u). k' = k) (arrivals env))" using that by force
    then have "u \<in> set (map snd (filter (\<lambda>(k', u). k' = k) (arrivals env)))" by simp
    then have "u \<in> set (sent_by env d k)" using sent [OF k] by simp
    with assms(3) [OF k] show ?thesis by (simp add: list_all_iff)
  qed
  have "filter (\<lambda>u. Name u = n) (map snd (arrivals env)) =
      map snd (filter (\<lambda>(k, u). k = n) (arrivals env))"
    using named by (force simp: filter_map intro!: filter_cong arg_cong [where f = "map snd"])
  with sent [OF assms(2)] show ?thesis by simp
qed

lemma close_topics_typed_only:
  assumes "\<And>n r. topics ic n = Some r \<Longrightarrow> \<exists>T t. heap ic r = Some (NamedType T, t)"
  shows "close_topics orders ic = (True, ic)"
proof (induction orders)
  case (Cons no rest)
  obtain n order where no: "no = (n, order)" by force
  show ?case
  proof (cases "topics ic n")
    case (Some r)
    from assms [OF this] obtain T t where "heap ic r = Some (NamedType T, t)" by blast
    with Some Cons no show ?thesis by (simp add: close_topics.simps(2))
  qed (use Cons no in \<open>simp add: close_topics.simps(2)\<close>)
qed simp

text \<open>What \<open>Start\<close> finds before it launches the services.\<close>

definition startable :: "start_env \<Rightarrow> daemon \<Rightarrow> bool" where
  "startable env d \<longleftrightarrow> \<not> d_started d \<and> d_services d \<noteq> Map.empty \<and> prestart_ends env d \<and>
     \<not> ic_closed (d_ic d) \<and> topics (d_ic d) internalServiceStates = None"

definition registry_after :: "start_env \<Rightarrow> daemon \<Rightarrow> ServiceStates intracom" where
  "registry_after env d =
     services_do env
       (snd (create_commit (NamedType ''ServiceStates'') states_conf None (d_ic d)))"

text \<open>
  A start of a daemon whose services are all found cancelled: under one of the two
  managers; with every snapshot taken by the topic, an RPC server that shuts down without an
  error, and services that leave only topics of their own types in the registry.
\<close>

definition cancelled_start :: "start_env \<Rightarrow> daemon \<Rightarrow> bool" where
  "cancelled_start env d \<longleftrightarrow> startable env d \<and> interleaves env d \<and>
     snapshots_taken env = length (arrivals env) \<and> shutdown_err env = None \<and>
     (\<forall>n\<in>dom (d_services d). \<exists>v. d_managers d n = Some v \<and> cancelled_run v (runs env n)) \<and>
     (\<forall>n r. topics (registry_after env d) n = Some r \<longrightarrow>
        (\<exists>T t. heap (registry_after env d) r = Some (NamedType T, t)))"

lemma startable_cancel: "prestart_ends env (d\<lparr>d_started := b\<rparr>) = prestart_ends env d"
  by (simp add: prestart_ends_def split: prestart_value.split)

lemma launched_started [simp]: "launched env (d\<lparr>d_started := b\<rparr>) = launched env d"
  by (simp add: launched_def)

lemma Start_startable:
  assumes "startable env d"
  shows "daemon_Start env d =
    (let d1 = d\<lparr>d_started := True, d_ic := registry_after env d\<rparr>;
         sw = statesWatcher (dom (d_services d)) (take (snapshots_taken env) (watched env))
     in if \<not> list_all (\<lambda>(n, m). snd (service_goroutine n m (runs env n))) (launched env d)
        then (StartBlocks, d1, Some sw)
        else if rpcEnabled d \<and> shutdown_err env \<noteq> None
        then (StartFails (the (shutdown_err env)), d1, Some sw)
        else if snapshots_taken env < length (watched env) then (StartBlocks, d1, Some sw)
        else (case intracom_Close (topic_orders env) (Some (registry_after env d)) of
            (None, Some ic2) \<Rightarrow> (StartBlocks, d1\<lparr>d_ic := ic2\<rparr>, Some sw)
          | (Some e, Some ic2) \<Rightarrow> (StartReturnsNil, d1\<lparr>d_ic := ic2\<rparr>, Some sw)
          | (_, None) \<Rightarrow> (StartReturnsNil, d1, Some sw)))"
proof -
  have "CreateTopic (NamedType ''ServiceStates'') (Some (d_ic d)) states_conf =
      (Inr (next_topic (d_ic d)),
       Some (snd (create_commit (NamedType ''ServiceStates'') states_conf None (d_ic d))))"
    using assms by (simp add: startable_def CreateTopic_def states_conf_def create_commit_def)
  then show ?thesis
    using assms
    by (simp add: startable_def daemon_Start_def registry_after_def startable_cancel Let_def cong: if_cong)
qed

lemma cancelled_daemon_base:
  assumes "cancelled_start env d"
  shows "\<exists>d' sw. daemon_Start env d = (StartReturnsNil, d', Some sw) \<and>
    (\<forall>n. n \<in> dom (d_services d) \<longrightarrow>
       published sw \<noteq> [] \<and>
       mem sw (last (published sw)) n = Some (mk_update StateExit TransitionEntering))"
proof -
  note start = assms [unfolded cancelled_start_def]
  let ?names = "dom (d_services d)"
  let ?sw = "statesWatcher ?names (watched env)"
  have len: "length (watched env) = snapshots_taken env" "length (copies env) = length (arrivals env)"
    using start by (simp_all add: watched_def interleaves_def)
  have run: "cancelled_run v (runs env n)" if "n \<in> ?names" "d_managers d n = Some v" for n v
    using start that by (metis option.inject)
  have order: "set (order env) = ?names" using start by (simp add: interleaves_def)
  have all_done: "list_all (\<lambda>(n, m). snd (service_goroutine n m (runs env n))) (launched env d)"
    unfolding list_all_iff
  proof safe
    fix n m
    assume "(n, m) \<in> set (launched env d)"
    then have "n \<in> ?names" "d_managers d n = Some m"
      using order by (auto simp: launched_def List.map_filter_def)
    with run show "snd (service_goroutine n m (runs env n))" by (intro cancelled_service(1)) auto
  qed
  obtain e ic2 where close:
    "intracom_Close (topic_orders env) (Some (registry_after env d)) = (Some e, Some ic2)"
    using close_topics_typed_only [of "(registry_after env d)\<lparr>ic_closed := True\<rparr>" "topic_orders env"] start
    by (cases "ic_closed (registry_after env d)") (auto simp: intracom_Close_def)
  have nil: "\<exists>d'. daemon_Start env d = (StartReturnsNil, d', Some ?sw)"
    using all_done close len start by (simp add: Start_startable Let_def)
  have own: "list_all (\<lambda>u. Name u = n) (sent_by env d n)" if "n \<in> ?names" for n
    using run [OF that] cancelled_service(2) by (auto simp: sent_by_def split: option.split)
  have snaps: "map snd (watched env) = map snd (arrivals env)"
    using len by (simp add: watched_def)
  have exits: "published ?sw \<noteq> [] \<and>
      mem ?sw (last (published ?sw)) n = Some (mk_update StateExit TransitionEntering)"
    if n: "n \<in> ?names" for n
  proof -
    obtain v where v: "d_managers d n = Some v" "cancelled_run v (runs env n)" using start n by blast
    have "filter (\<lambda>u. Name u = n) (map snd (arrivals env)) = fst (service_goroutine n v (runs env n))"
      using arrivals_by_name [OF _ n own] start v by (simp add: sent_by_def)
    from cancelled_service(3) [OF v(2) this, of ?names]
    have fin: "states_after ?names (map snd (watched env)) n = Some (mk_update StateExit TransitionEntering)"
      by (simp add: snaps)
    have "watched env \<noteq> []"
    proof
      assume "watched env = []"
      with fin show False by (simp add: states_after_def split: if_splits)
    qed
    then obtain k where k: "length (watched env) = Suc k" by (cases "watched env") auto
    have "copies_fit ?names (watched env)" using start by (simp add: interleaves_def)
    from watched_memory [OF this, of k "Suc k"] k have
      "published ?sw = map Suc [0..<Suc k]" "mem ?sw (Suc k) = states_after ?names (map snd (watched env))"
      by simp_all
    with fin show ?thesis by simp
  qed
  from nil exits show ?thesis by blast
qed

text \<open>
  The daemon shuts down. When every service runs under one of the two managers and the
  context of each is found cancelled, then whatever the methods did until then, and in
  whatever order the services' updates arrived at the states watcher, \<open>Start\<close> returns nil
  and the last snapshot that the watcher published says of every service that it enters the
  exit state. (Under \<open>RunUntilSuccessManager\<close> the methods are given not to panic and the
  delays to be positive; under \<open>RunContinuousManager\<close> they may do anything.)
\<close>

theorem cancelled_daemon_shuts_down:
  assumes "cancelled_start env d"
  shows "\<exists>d' sw. daemon_Start env d = (StartReturnsNil, d', Some sw) \<and>
    (\<forall>n. n \<in> dom (d_services d) \<longrightarrow>
       published sw \<noteq> [] \<and>
       mem sw (last (published sw)) n = Some (mk_update StateExit TransitionEntering))"
  using assms by (rule cancelled_daemon_base)

definition demo_daemon :: "(string \<times> manager_value) list \<Rightarrow> daemon" where
  "demo_daemon ms =
     snd (AddServices (map (\<lambda>(n, m). \<lparr>svc_Name = n, svc_Runner = 0, svc_Manager = m\<rparr>) ms)
       (fst (NewDaemon 0 0 ''demo'' [] no_logs)))"

definition demo_env :: "string list \<Rightarrow> (string \<Rightarrow> service_run) \<Rightarrow> (string \<times> ServiceStateUpdate) list \<Rightarrow> start_env" where
  "demo_env names rs ars =
     \<lparr>order = names, runs = rs, arrivals = ars, copies = map (\<lambda>_. names) ars, snapshots_taken = length ars,
      rounds = [], custom_ends = True, services_do = id, shutdown_err = None, topic_orders = []\<rparr>"

lemmas demo_daemon_simps = demo_daemon_def NewDaemon_def NewLogger_def addService_def Let_def

text \<open>One service, whose context is found cancelled at once.\<close>

abbreviation "demo_manager \<equiv> Manager (RunContinuous (NewDefaultManager []))"
abbreviation "one_service \<equiv> demo_daemon [(''a'', demo_manager)]"
abbreviation "one_updates \<equiv>
  [entering ''a'' Init, entering ''a'' Stop, exited ''a'' Stop, final_update ''a'']"
abbreviation "one_env \<equiv>
  demo_env [''a''] (\<lambda>_. Choices (Returns None) [CtxDone]) (map (Pair ''a'') one_updates)"

lemma one_service_fields:
  "d_services one_service = [''a'' \<mapsto> 0]" "d_managers one_service = [''a'' \<mapsto> demo_manager]"
  "\<not> d_started one_service" "d_ic one_service = intracom_New ''rxd-intracom''"
  "d_prestart one_service =
     BuiltInPipeline \<lparr>RestartOnError = True, RestartDelay = 5 * Second, Stages = []\<rparr>"
  by (simp_all add: demo_daemon_simps)

lemma one_service_shuts_down: "cancelled_start one_env one_service"
proof -
  have sent: "sent_by one_env one_service ''a'' = one_updates"
    by (simp add: sent_by_def one_service_fields demo_env_def service_goroutine_def rc_Manage_def
        rc_iter_def manager_end_def log_unless_cancelled_def Let_def)
  have dom1: "dom (\<lambda>n. if n = ''a'' then Some (v n) else None) = {''a''}" for v :: "string \<Rightarrow> StateUpdate"
    by (auto split: if_splits)
  have fit: "copies_fit {''a''} (watched one_env)"
    by (simp add: watched_def demo_env_def copies_fit_def All_less_Suc states_after_def dom1)
  have "startable one_env one_service"
    by (simp add: startable_def one_service_fields prestart_ends_def pipeline_Run_def intracom_New_def)
  moreover have "interleaves one_env one_service"
    using sent fit by (simp add: interleaves_def one_service_fields) (simp add: demo_env_def)
  moreover have "snapshots_taken one_env = length (arrivals one_env)" "shutdown_err one_env = None"
    by (simp_all add: demo_env_def)
  moreover have "\<forall>n\<in>dom (d_services one_service).
      \<exists>v. d_managers one_service n = Some v \<and> cancelled_run v (runs one_env n)"
    by (simp add: one_service_fields demo_env_def)
  moreover have "topics (registry_after one_env one_service) n = Some r \<Longrightarrow>
      \<exists>T t. heap (registry_after one_env one_service) r = Some (NamedType T, t)" for n r
    by (auto simp: registry_after_def demo_env_def create_commit_def one_service_fields intracom_New_def
        split: if_splits)
  ultimately show ?thesis unfolding cancelled_start_def by blast
qed

theorem cancelled_daemon_shuts_down_witness:
  "\<exists>d' sw. daemon_Start one_env one_service = (StartReturnsNil, d', Some sw) \<and>
    mem sw (last (published sw)) ''a'' = Some (mk_update StateExit TransitionEntering)"
  using cancelled_daemon_shuts_down [OF one_service_shuts_down] one_service_fields(1) by fastforce

subsection \<open>Adding services and starting\<close>

definition valid_service :: "Service \<Rightarrow> bool" where
  "valid_service s \<longleftrightarrow> svc_Name s \<noteq> [] \<and> (\<forall>t r. svc_Manager s \<noteq> NilPointer t r)"

definition manager_used :: "Service \<Rightarrow> manager_value" where
  "manager_used s = (if svc_Manager s = NoManager then Manager (RunContinuous (NewDefaultManager []))
     else svc_Manager s)"

lemma addService_valid:
  assumes "\<not> d_started d" and "valid_service s"
  shows "addService s d = (Inr None,
    d\<lparr>d_services := (d_services d)(svc_Name s \<mapsto> svc_Runner s),
      d_managers := (d_managers d)(svc_Name s \<mapsto> manager_used s)\<rparr>)"
  using assms by (cases "svc_Manager s") (auto simp: addService_def valid_service_def manager_used_def)

lemma AddServices_append:
  "AddServices ss d = (Inr None, d1) \<Longrightarrow> AddServices (ss @ rest) d = AddServices rest d1"
  by (induction ss arbitrary: d) (auto split: prod.splits sum.splits option.splits)

lemma AddServices_valid:
  "\<not> d_started d \<Longrightarrow> list_all valid_service ss \<Longrightarrow>
     \<exists>d'. AddServices ss d = (Inr None, d') \<and> \<not> d_started d' \<and>
       d_services d' = d_services d ++ map_of (rev (map (\<lambda>s. (svc_Name s, svc_Runner s)) ss)) \<and>
       d_managers d' = d_managers d ++ map_of (rev (map (\<lambda>s. (svc_Name s, manager_used s)) ss))"
proof (induction ss arbitrary: d)
  case (Cons s ss)
  from Cons.prems have v: "valid_service s" "list_all valid_service ss" by simp_all
  let ?d = "d\<lparr>d_services := (d_services d)(svc_Name s \<mapsto> svc_Runner s),
      d_managers := (d_managers d)(svc_Name s \<mapsto> manager_used s)\<rparr>"
  have "\<not> d_started ?d" using Cons.prems by simp
  from Cons.IH [OF this v(2)] addService_valid [OF Cons.prems(1) v(1)] show ?case
    by (auto simp: map_add_def fun_eq_iff split: option.split)
qed simp

text \<open>
  \<open>AddServices\<close> before the start. Services with a name and a manager that is no nil
  pointer are all added, each with its manager or the default one; of two with the same
  name the later one replaces the earlier without an error. The first service that is
  refused ends the call: those after it are not added, although they are valid. (The
  comment says that the next service is attempted, and that a service whose name is taken
  fails.)
\<close>

theorem add_services_stops_at_refused:
  assumes "\<not> d_started d" and "list_all valid_service ss" and "svc_Name bad = []"
  shows "\<exists>d1. AddServices ss d = (Inr None, d1) \<and>
    d_services d1 = d_services d ++ map_of (rev (map (\<lambda>s. (svc_Name s, svc_Runner s)) ss)) \<and>
    d_managers d1 = d_managers d ++ map_of (rev (map (\<lambda>s. (svc_Name s, manager_used s)) ss)) \<and>
    AddServices (ss @ bad # rest) d = (Inr (Some ErrNoServiceName), d1)"
proof -
  from AddServices_valid [OF assms(1,2)] obtain d1 where
    d1: "AddServices ss d = (Inr None, d1)" "\<not> d_started d1"
    "d_services d1 = d_services d ++ map_of (rev (map (\<lambda>s. (svc_Name s, svc_Runner s)) ss))"
    "d_managers d1 = d_managers d ++ map_of (rev (map (\<lambda>s. (svc_Name s, manager_used s)) ss))" by blast
  moreover have "AddServices (ss @ bad # rest) d = (Inr (Some ErrNoServiceName), d1)"
    using AddServices_append [OF d1(1)] d1(2) assms(3) by (simp add: addService_def)
  ultimately show ?thesis by blast
qed

abbreviation "demo_service n i \<equiv> \<lparr>svc_Name = n, svc_Runner = i, svc_Manager = NoManager\<rparr>"

theorem add_services_stops_at_refused_witness:
  "\<exists>d1. AddServices [demo_service ''a'' 1, demo_service ''a'' 2, demo_service [] 3, demo_service ''b'' 4]
      (demo_daemon []) = (Inr (Some ErrNoServiceName), d1) \<and>
    d_services d1 = [''a'' \<mapsto> 2]"
proof -
  have 1: "\<not> d_started (demo_daemon [])" "d_services (demo_daemon []) = Map.empty"
    by (simp_all add: demo_daemon_simps)
  have 2: "list_all valid_service [demo_service ''a'' 1, demo_service ''a'' 2]"
    by (simp add: valid_service_def)
  from add_services_stops_at_refused [OF 1(1) 2, of "demo_service [] 3" "[demo_service ''b'' 4]"] 1(2)
  show ?thesis by auto
qed

text \<open>
  A manager that is a nil pointer. If \<open>Manage\<close> is declared on a struct, the service is
  refused with an error that names the type. If it is declared on another type, the
  service is accepted, and its goroutine panics before any method is called. If it is
  declared on the pointer, for which nil may be a usable manager, adding the service
  panics: the method is looked up in the type behind the pointer, which does not have it.
\<close>

theorem nil_pointer_manager:
  assumes "\<not> d_started d" and "svc_Name s \<noteq> []" and "svc_Manager s = NilPointer t r"
  shows "fst (addService s d) = (case r of
      StructReceiver \<Rightarrow> Inr (Some (ErrUninitialized t ''Manage''))
    | OtherReceiver \<Rightarrow> Inr None
    | PointerReceiver \<Rightarrow> Inl ''invalid memory address or nil pointer dereference'') \<and>
    (r = OtherReceiver \<or> snd (addService s d) = d) \<and>
    service_goroutine (svc_Name s) (svc_Manager s) run = ([final_update (svc_Name s)], True)"
  using assms by (cases r) (simp_all add: addService_def service_goroutine_def)

theorem nil_pointer_manager_witness:
  "fst (addService \<lparr>svc_Name = ''a'', svc_Runner = 0, svc_Manager = NilPointer ''*T'' PointerReceiver\<rparr>
     (demo_daemon [])) = Inl ''invalid memory address or nil pointer dereference''"
proof -
  have "\<not> d_started (demo_daemon [])" by (simp add: demo_daemon_simps)
  from nil_pointer_manager [OF this, of
      "\<lparr>svc_Name = ''a'', svc_Runner = 0, svc_Manager = NilPointer ''*T'' PointerReceiver\<rparr>"]
  show ?thesis by simp
qed

text \<open>
  A daemon starts once, even when it does not. After any call of \<open>Start\<close>, one that
  failed for want of services included, every further \<open>Start\<close> fails with the error that
  the daemon has started, and every \<open>AddService\<close> is refused and changes nothing. So a
  daemon that was started before its services were added can never run them.
\<close>

theorem start_is_final:
  assumes "daemon_Start env d = (r, d', sw)"
  shows "daemon_Start env' d' = (StartFails ErrDaemonStarted, d', None) \<and>
    AddService s d' = (Inr (Some ErrAddingServiceOnceStarted), d') \<and>
    (\<not> d_started d \<longrightarrow> d_services d = Map.empty \<longrightarrow>
       r = StartFails ErrNoServices \<and> d_services d' = Map.empty)"
proof -
  have "d_started d'"
    using assms by (auto simp: daemon_Start_def Let_def split: if_splits prod.splits sum.splits option.splits)
  moreover have "\<not> d_started d \<longrightarrow> d_services d = Map.empty \<longrightarrow>
      r = StartFails ErrNoServices \<and> d_services d' = Map.empty"
    using assms by (auto simp: daemon_Start_def Let_def)
  ultimately show ?thesis by (simp add: daemon_Start_def AddService_def addService_def)
qed

theorem start_is_final_witness:
  "fst (AddService (demo_service ''a'' 1)
     (fst (snd (daemon_Start (demo_env [] (\<lambda>_. CustomRun [] Returned) []) (demo_daemon []))))) =
   Inr (Some ErrAddingServiceOnceStarted)"
proof -
  let ?env = "demo_env [] (\<lambda>_. CustomRun [] Returned) []"
  obtain r d' sw where "daemon_Start ?env (demo_daemon []) = (r, d', sw)" by (cases rule: prod_cases3)
  from start_is_final [OF this, of ?env "demo_service ''a'' 1"] this show ?thesis by simp
qed

text \<open>
  \<open>WithSignals\<close> has no effect. The signal watcher asks for SIGINT and SIGTERM whatever
  signals the option was given.
\<close>

theorem with_signals_is_ignored:
  "signal_watcher (fst (daemon_option (d, st) (WithSignals sigs))) es = signal_watcher d es \<and>
   (signal_watcher d es = None \<longleftrightarrow>
      DaemonCtxDone \<notin> set es \<and> OsSignal ''SIGINT'' \<notin> set es \<and> OsSignal ''SIGTERM'' \<notin> set es)"
proof (induction es)
  case (Cons e es)
  then show ?case by (cases e) auto
qed simp

end
