(* ===== verification/Rx_Rpc.thy ===== *)
theory Rx_Rpc
  imports Rx_DaemonProps Rx_Loggers
begin

section \<open>Remote procedure calls (daemon\_rpc.go, pkg/rpc)\<close>

text \<open>
  The command that changes the log level: the handler in the daemon, the HTTP servers it is
  or is not mounted on, and the client's call. HTTP and \<open>net/rpc\<close> appear by what the code
  asks of them: a server with a table of routes, and a call that has been answered or not.
\<close>

subsection \<open>The handler\<close>

text \<open>A logger may be nil, and a method call on it panics (\<open>Inl\<close>).\<close>

record CommandHandler =
  sLogger :: "nat option"
  iLogger :: "nat option"

definition SetLevel_opt :: "nat option \<Rightarrow> Level \<Rightarrow> logs \<Rightarrow> string + logs" where
  "SetLevel_opt l level st =
     (case l of
        None \<Rightarrow> Inl ''invalid memory address or nil pointer dereference''
      | Some i \<Rightarrow> Inr (logger_SetLevel i level st))"

definition ChangeLogLevel :: "CommandHandler \<Rightarrow> Level \<Rightarrow> logs \<Rightarrow> string + logs" where
  "ChangeLogLevel h level st =
     (case SetLevel_opt (sLogger h) level st of
        Inl p \<Rightarrow> Inl p
      | Inr st' \<Rightarrow> SetLevel_opt (iLogger h) level st')"

subsection \<open>The servers\<close>

record rpc_server =
  srv_Addr :: string
  srv_routes :: "(string \<times> CommandHandler) list"

text \<open>
  The server that \<open>Start\<close> makes, and the one of \<open>NewRPCHandler\<close>, which registers the
  command handler with an RPC server that its HTTP server does not know of.
  \<open>register_err\<close> is what registering answers.
\<close>

definition start_server :: "go_error option \<Rightarrow> daemon \<Rightarrow> rpc_server option" where
  "start_server register_err d =
     (if \<not> rpcEnabled d \<or> register_err \<noteq> None then None
      else Some \<lparr>srv_Addr = rpc_address (rpcConfig d),
                 srv_routes = [(''/rpc'', \<lparr>sLogger = Some (serviceLogger d),
                                          iLogger = Some (internalLogger d)\<rparr>)]\<rparr>)"

definition NewRPCHandler :: "go_error option \<Rightarrow> RPCConfig \<Rightarrow> go_error + rpc_server" where
  "NewRPCHandler register_err cfg =
     (case register_err of
        Some e \<Rightarrow> Inl e
      | None \<Rightarrow> Inr \<lparr>srv_Addr = Addr cfg @ '':'' @ Itoa (uint (Port cfg)), srv_routes = []\<rparr>)"

subsection \<open>The client\<close>

text \<open>
  \<open>ChangeLogLevel\<close> of the client: its \<open>select\<close> finds the context done or takes the answer.
  \<open>doneC\<close> holds one call; when the context is done the client puts its call there itself,
  which blocks if the answer is already in it. It then returns \<open>resp\<close>, which nothing has
  set: the handler never sets its reply.
\<close>

datatype client_event = CtxDoneFirst bool | Answered "go_error option" | NoAnswerYet

datatype client_result = ClientWaits | ClientReturns "go_error option"

fun client_ChangeLogLevel :: "client_event \<Rightarrow> client_result" where
  "client_ChangeLogLevel NoAnswerYet = ClientWaits"
| "client_ChangeLogLevel (Answered (Some e)) = ClientReturns (Some e)"
| "client_ChangeLogLevel (Answered None) = ClientReturns None"
| "client_ChangeLogLevel (CtxDoneFirst answer_in_doneC) =
     (if answer_in_doneC then ClientWaits else ClientReturns None)"

datatype Command = Command "8 word"

definition Command_String :: "Command \<Rightarrow> string" where
  "Command_String c = (if c = Command 1 then ''SetLevel'' else ''Unknown'')"

subsection \<open>What the command reaches\<close>

lemma SetLevel_other:
  assumes "log_inv st" and "loggers st c = Some lg" and "c \<noteq> p"
  shows "logger_Log c lvl msg ys (logger_SetLevel p level st) = logger_Log c lvl msg ys st"
proof -
  have "l_level lg \<noteq> next_id st"
    using log_invD [OF assms(1,2)] log_inv_fresh(3) [OF assms(1)] by auto
  with assms(2,3) show ?thesis
    by (auto simp: logger_Log_def logger_SetLevel_def slice_get_def split: option.split)
qed

lemma SetLevel_own:
  "loggers st p = Some lg \<Longrightarrow>
     logger_Log p lvl msg ys (logger_SetLevel p level st) = None \<longleftrightarrow> level < lvl"
  by (simp add: logger_Log_def logger_SetLevel_def)

lemma SetLevel_loggers:
  "loggers (logger_SetLevel p level st) c = None \<longleftrightarrow> loggers st c = None"
  "c \<noteq> p \<Longrightarrow> loggers (logger_SetLevel p level st) c = loggers st c"
  by (auto simp: logger_SetLevel_def split: option.split)



text \<open>
  The client cannot tell. A call whose context is done before the answer is there
  returns nil, as if the level had been changed; one that is done when the answer has just
  arrived never returns; otherwise it returns what the daemon answered. And the server of
  \<open>NewRPCHandler\<close> answers no path at all, while that of \<open>Start\<close> answers \<open>/rpc\<close>.
\<close>

theorem rpc_client_and_servers:
  "client_ChangeLogLevel (CtxDoneFirst False) = client_ChangeLogLevel (Answered None) \<and>
   client_ChangeLogLevel (CtxDoneFirst True) = client_ChangeLogLevel NoAnswerYet \<and>
   client_ChangeLogLevel (Answered r) = ClientReturns r \<and>
   (case NewRPCHandler None cfg of Inl e \<Rightarrow> False | Inr srv \<Rightarrow> map_of (srv_routes srv) path = None) \<and>
   (case start_server None (d\<lparr>rpcEnabled := True\<rparr>) of
      None \<Rightarrow> False | Some srv \<Rightarrow> map_of (srv_routes srv) path \<noteq> None \<longleftrightarrow> path = ''/rpc'')"
  by (cases r) (simp_all add: NewRPCHandler_def start_server_def)

end
