(* ===== verification/Rx_RpcServer.thy ===== *)
theory Rx_RpcServer
  imports Rx_Rpc
begin

section \<open>The life of an RPC server and of a client (daemon\_rpc.go, pkg/rpc)\<close>

text \<open>
  \<open>RPCServer\<close> wraps an HTTP server, \<open>Client\<close> a connection of \<open>net/rpc\<close>. Of these the
  documentation says: \<open>ListenAndServe\<close> returns \<open>ErrServerClosed\<close> at once when the server
  has been closed, an error if it cannot listen, and otherwise serves until the server is
  closed, when it returns \<open>ErrServerClosed\<close>; \<open>Close\<close> closes the server for good. A closed
  connection answers pending and new calls with \<open>ErrShutdown\<close>, and so does its second
  \<open>Close\<close>.
\<close>

abbreviation ErrServerClosed :: go_error where
  "ErrServerClosed \<equiv> UserError ''http: Server closed'' False False"

abbreviation ErrShutdown :: go_error where
  "ErrShutdown \<equiv> UserError ''connection is shut down'' False False"

subsection \<open>The server\<close>

text \<open>\<open>rs_serving\<close> are the calls of \<open>Start\<close> that have not returned.\<close>

record RPCServer =
  rs_server :: rpc_server
  rs_closed :: bool
  rs_serving :: "nat list"

definition new_RPCServer :: "go_error option \<Rightarrow> RPCConfig \<Rightarrow> go_error + RPCServer" where
  "new_RPCServer register_err cfg =
     (case NewRPCHandler register_err cfg of
        Inl e \<Rightarrow> Inl e
      | Inr srv \<Rightarrow> Inr \<lparr>rs_server = srv, rs_closed = False, rs_serving = []\<rparr>)"

text \<open>
  A call \<open>i\<close> of \<open>Start\<close>, with what listening answers, and one of \<open>Stop\<close>, with what closing
  the listeners answers: the results of the calls of \<open>Start\<close> that return, and the server.
\<close>

definition RPCServer_Start ::
  "nat \<Rightarrow> go_error option \<Rightarrow> RPCServer \<Rightarrow> (nat \<times> go_error option) list \<times> RPCServer" where
  "RPCServer_Start i listen_err s =
     (if rs_closed s then ([(i, Some ErrServerClosed)], s)
      else case listen_err of
        Some e \<Rightarrow> ([(i, Some e)], s)
      | None \<Rightarrow> ([], s\<lparr>rs_serving := i # rs_serving s\<rparr>))"

definition RPCServer_Stop ::
  "go_error option \<Rightarrow> RPCServer \<Rightarrow> go_error option \<times> (nat \<times> go_error option) list \<times> RPCServer" where
  "RPCServer_Stop close_err s =
     (close_err, map (\<lambda>i. (i, Some ErrServerClosed)) (rs_serving s),
      s\<lparr>rs_closed := True, rs_serving := []\<rparr>)"

text \<open>Whether a request for a path reaches the command handler.\<close>

definition reaches_handler :: "RPCServer \<Rightarrow> string \<Rightarrow> bool" where
  "reaches_handler s path \<longleftrightarrow> rs_serving s \<noteq> [] \<and> map_of (srv_routes (rs_server s)) path \<noteq> None"

datatype server_call = CallStart "go_error option" | CallStop "go_error option"

text \<open>Calls one after the other, numbered from \<open>k\<close>: all results of \<open>Start\<close>, and the server.\<close>

fun server_calls ::
  "nat \<Rightarrow> server_call list \<Rightarrow> RPCServer \<Rightarrow> (nat \<times> go_error option) list \<times> RPCServer" where
  "server_calls k [] s = ([], s)"
| "server_calls k (CallStart e # cs) s =
     (let (rs, s') = RPCServer_Start k e s; (rs', s'') = server_calls (Suc k) cs s' in (rs @ rs', s''))"
| "server_calls k (CallStop e # cs) s =
     (let (r, rs, s') = RPCServer_Stop e s; (rs', s'') = server_calls (Suc k) cs s' in (rs @ rs', s''))"

text \<open>One call after the other, without the pairs.\<close>

definition server_call :: "nat \<Rightarrow> server_call \<Rightarrow> RPCServer \<Rightarrow> (nat \<times> go_error option) list \<times> RPCServer" where
  "server_call k c s = (case c of CallStart e \<Rightarrow> RPCServer_Start k e s | CallStop e \<Rightarrow> snd (RPCServer_Stop e s))"

lemma server_calls_Cons:
  "fst (server_calls k (c # cs) s) = fst (server_call k c s) @ fst (server_calls (Suc k) cs (snd (server_call k c s)))"
  "snd (server_calls k (c # cs) s) = snd (server_calls (Suc k) cs (snd (server_call k c s)))"
  by (cases c; simp add: server_call_def Let_def split_def)+

lemmas server_call_defs = server_call_def RPCServer_Start_def RPCServer_Stop_def

lemma server_call_closed:
  "rs_closed s \<Longrightarrow> rs_serving s = [] \<Longrightarrow> snd (server_call k c s) = s"
  by (cases s) (simp add: server_call_defs split: server_call.split)

lemma server_call_server: "rs_server (snd (server_call k c s)) = rs_server s"
  by (simp add: server_call_defs split: server_call.split option.split)

lemma server_call_errors: "(i, r) \<in> set (fst (server_call k c s)) \<Longrightarrow> r \<noteq> None"
  by (auto simp: server_call_defs split: server_call.splits option.splits if_splits)

lemma server_calls_closed:
  "rs_closed s \<Longrightarrow> rs_serving s = [] \<Longrightarrow> snd (server_calls k cs s) = s"
  by (induction cs arbitrary: k) (simp_all add: server_calls_Cons server_call_closed del: server_calls.simps(2,3))

lemma server_calls_server: "rs_server (snd (server_calls k cs s)) = rs_server s"
  by (induction cs arbitrary: k s) (simp_all add: server_calls_Cons server_call_server del: server_calls.simps(2,3))

lemma server_calls_errors: "(i, r) \<in> set (fst (server_calls k cs s)) \<Longrightarrow> r \<noteq> None"
proof (induction cs arbitrary: k s)
  case (Cons c cs)
  from Cons.prems Cons.IH server_call_errors [of i r k c s] show ?case
    by (auto simp: server_calls_Cons simp del: server_calls.simps(2,3))
qed simp

lemma server_calls_append:
  "snd (server_calls k (cs @ ds) s) = snd (server_calls (k + length cs) ds (snd (server_calls k cs s)))"
  by (induction cs arbitrary: k s) (simp_all add: server_calls_Cons del: server_calls.simps(2,3))

text \<open>
  An RPC server lives once, and for nothing. \<open>Start\<close> never returns nil. \<open>Stop\<close> ends every
  call of \<open>Start\<close> that serves, and after it every \<open>Start\<close> returns \<open>ErrServerClosed\<close> at
  once: the server cannot be started again. And as long as it serves, no request reaches
  the command handler that \<open>NewRPCHandler\<close> registered, whatever its path.
\<close>

theorem rpc_server_lives_once:
  assumes "new_RPCServer register_err cfg = Inr s0"
  shows "(\<forall>(i, r) \<in> set (fst (server_calls k cs s0)). r \<noteq> None) \<and>
    \<not> reaches_handler (snd (server_calls k cs s0)) path \<and>
    (let s = snd (server_calls k (cs @ [CallStop e]) s0)
     in rs_serving s = [] \<and> fst (RPCServer_Start i listen_err s) = [(i, Some ErrServerClosed)] \<and>
        snd (server_calls k (cs @ CallStop e # ds) s0) = s)"
proof -
  have r: "srv_routes (rs_server s0) = []"
    using assms by (auto simp: new_RPCServer_def NewRPCHandler_def split: option.splits)
  have st: "snd (server_calls k (cs @ CallStop e # ds) s0) =
      snd (server_calls (Suc (k + length cs)) ds
        ((snd (server_calls k cs s0))\<lparr>rs_closed := True, rs_serving := []\<rparr>))" for ds
    by (simp add: server_calls_append server_calls_Cons server_call_defs del: server_calls.simps(2,3))
  show ?thesis
    using server_calls_errors [of _ _ k cs s0] server_calls_server [of k cs s0] r
    by (auto simp: st server_calls_closed Let_def reaches_handler_def RPCServer_Start_def)
qed

theorem rpc_server_lives_once_witness:
  "\<exists>s0. new_RPCServer None \<lparr>Addr = ''h'', Port = 1\<rparr> = Inr s0 \<and>
     reaches_handler (snd (server_calls 0 [CallStart None] s0)) ''/rpc'' = False \<and>
     rs_serving (snd (server_calls 0 [CallStart None] s0)) = [0] \<and>
     rs_serving (snd (server_calls 0 ([CallStart None] @ [CallStop None]) s0)) = []"
proof -
  obtain s0 where s0: "new_RPCServer None \<lparr>Addr = ''h'', Port = 1\<rparr> = Inr s0"
    by (simp add: new_RPCServer_def NewRPCHandler_def)
  have "rs_serving (snd (server_calls 0 [CallStart None] s0)) = [0]"
    using s0 by (auto simp: new_RPCServer_def NewRPCHandler_def RPCServer_Start_def)
  with s0 rpc_server_lives_once [OF s0, of 0 "[CallStart None]" "''/rpc''" None] show ?thesis
    by (auto simp: Let_def)
qed

subsection \<open>The client\<close>

record Client =
  conn_closed :: bool

definition Client_Close :: "go_error option \<Rightarrow> Client \<Rightarrow> go_error option \<times> Client" where
  "Client_Close close_err c =
     (if conn_closed c then (Some ErrShutdown, c) else (close_err, c\<lparr>conn_closed := True\<rparr>))"

text \<open>
  What the \<open>select\<close> of \<open>ChangeLogLevel\<close> can find: on a closed connection the call has been
  answered when \<open>Go\<close> returns.
\<close>

fun client_finds :: "Client \<Rightarrow> client_event \<Rightarrow> bool" where
  "client_finds c NoAnswerYet \<longleftrightarrow> \<not> conn_closed c"
| "client_finds c (Answered r) \<longleftrightarrow> (conn_closed c \<longrightarrow> r = Some ErrShutdown)"
| "client_finds c (CtxDoneFirst answer_in_doneC) \<longleftrightarrow> (conn_closed c \<longrightarrow> answer_in_doneC)"

text \<open>
  After \<open>Close\<close>, a second \<open>Close\<close> fails and changes nothing; and a call of
  \<open>ChangeLogLevel\<close> returns \<open>ErrShutdown\<close> or, if its context is done as well and the
  \<open>select\<close> takes that case, does not return: it never pretends that the level was changed.
\<close>

theorem closed_client:
  assumes "snd (Client_Close e c) = c'" and "client_finds c' ev"
  shows "Client_Close e' c' = (Some ErrShutdown, c') \<and>
    client_ChangeLogLevel ev = (if \<exists>r. ev = Answered r then ClientReturns (Some ErrShutdown) else ClientWaits)"
proof -
  have "conn_closed c'" using assms(1) by (auto simp: Client_Close_def split: if_splits)
  with assms(2) show ?thesis by (cases ev) (simp_all add: Client_Close_def)
qed

theorem closed_client_witness:
  "client_ChangeLogLevel (Answered (Some ErrShutdown)) = ClientReturns (Some ErrShutdown) \<and>
   Client_Close None (snd (Client_Close None \<lparr>conn_closed = False\<rparr>)) =
     (Some ErrShutdown, snd (Client_Close None \<lparr>conn_closed = False\<rparr>))"
proof -
  have "client_finds (snd (Client_Close None \<lparr>conn_closed = False\<rparr>)) (Answered (Some ErrShutdown))"
    by simp
  from closed_client [OF refl this] show ?thesis by simp
qed

end
