(* ===== verification/Rx_StatesTopic.thy ===== *)
theory Rx_StatesTopic
  imports Rx_BroadcastOps Rx_Watchers
begin

section \<open>The topic of the service states\<close>

text \<open>
  How the states watcher, the topic's broadcaster and the watchers of the services work
  together: the states watcher publishes a snapshot for each update, the broadcaster sends
  it to the watchers' subscriptions, which have the policy \<open>BufferPolicyDropOldest\<close> and a
  buffer of one, and each watcher signals its caller.
\<close>

subsection \<open>Consumers that drop the oldest are up to date\<close>

text \<open>
  A consumer that is up to date: the last message that was broadcast is the last it has
  received or, if it did not receive it yet, the last in its buffer.
\<close>

definition up_to_date :: "'v bcast \<Rightarrow> 'v subscriber \<Rightarrow> bool" where
  "up_to_date b s \<longleftrightarrow>
     (\<not> sub_closed s \<and> bufferPolicy s = Some BufferPolicyDropOldest \<and> 0 < cap (ch s) \<longrightarrow>
        (\<forall>m. lastMessage b = Some m \<longrightarrow> contents (ch s) \<noteq> [] \<and> last (contents (ch s)) = m))"

definition all_up_to_date :: "'v bcast \<Rightarrow> bool" where
  "all_up_to_date b \<longleftrightarrow> (\<forall>i s. store b i = Some s \<longrightarrow> up_to_date b s)"

lemma sub_Send_DropOldest:
  assumes "sub_inv s" and "\<not> sub_closed s" and "bufferPolicy s = Some BufferPolicyDropOldest"
    and "sub_Send ob s x = Ret e c" and "0 < cap c"
  shows "contents c \<noteq> [] \<and> last (contents c) = x"
proof -
  have ok: "chan_ok (ch s)" and stop: "\<not> stopC_closed s"
    using assms(1,2) by (auto simp: sub_inv_def chan_ok_def)
  have h: "handle_DropOldest (with_stop (stopC_closed s) ob) (ch s) x = Ret e c"
    using assms(2-4) by (simp add: sub_Send_def)
  have "cap c = cap (ch s)"
    using DropOldest_keeps [OF ok, of "with_stop (stopC_closed s) ob" x] h
    by (simp add: keeps_def steps_to_def)
  with drop_oldest_pushes [OF ok, of "with_stop (stopC_closed s) ob" x] h assms(5) stop
  show ?thesis by (auto simp: with_stop_def contents_def)
qed

lemma bc_step_last_other:
  "(\<And>msg order ob. e \<noteq> Publish msg order ob) \<Longrightarrow> lastMessage (bc_step e b) = lastMessage b"
  by (cases e)
    (auto simp: bc_request_def bc_subscribe_def bc_unsubscribe_def bc_close_def bc_consume_def Let_def
      split: request.splits option.splits sum.splits prod.splits)

lemma cap_frame [simp]:
  "cap (chan_recv c) = cap c" "cap (offer_last prev c) = cap c" "cap (make_chan k) = k"
  "cap (ch (snd (sub_Close s))) = cap (ch s)"
  by (auto simp: chan_recv_def offer_last_def chan_put_def make_chan_def sub_Close_def chan_close_def
      split: list.split option.split)

lemma all_up_to_date_step:
  assumes inv: "bc_inv b" and fair: "fair_order e b" and cur: "all_up_to_date b"
    and run: "status (bc_step e b) = Running"
  shows "all_up_to_date (bc_step e b)"
  unfolding all_up_to_date_def
proof (intro allI impI)
  fix i s'
  assume s': "store (bc_step e b) i = Some s'"
  have r: "status b = Running" using run bc_step_status [of b e] by fastforce
  show "up_to_date (bc_step e b) s'"
  proof (cases "store b i")
    case None
    from bc_step_new [OF None s'] newSubscriber_fields obtain k where
      ch: "ch s' = offer_last (lastMessage b) (make_chan k)" by fastforce
    have "e \<noteq> Publish msg order ob" for msg order ob
      using s' send_each_None [OF None, of ob msg order] None by (auto split: if_splits)
    then have "lastMessage (bc_step e b) = lastMessage b" by (rule bc_step_last_other)
    with ch show ?thesis by (auto simp: up_to_date_def offer_last_contents)
  next
    case (Some s)
    have u: "up_to_date b s" using cur Some by (simp add: all_up_to_date_def)
    have inv_s: "sub_inv s" using inv storedD [OF _ Some] by (auto simp: bc_inv_def)
    from bc_step_lossy [OF inv fair Some] s' have same: "same_sub s s'" by auto
    show ?thesis
    proof (cases e)
      case (Publish msg order ob)
      show ?thesis
      proof (cases "recv_on b \<and> \<not> sub_closed s'")
        case True
        then have open_s: "\<not> sub_closed s" using same by (auto simp: same_sub_def)
        have sub: "subscribers b (consumerGroup s) = Some i"
          using inv storedD [OF _ Some] open_s by (auto simp: bc_inv_def)
        have order: "distinct order" "consumerGroup s \<in> set order" using fair Publish sub by auto
        have all: "status (send_each ob msg order b) = Running"
          using run r True Publish by (simp add: bc_publish_def Let_def split: if_splits)
        from send_each_all [OF inv order(1) Some order(2) sub r this] obtain z c where
          h: "sub_Send (ob (consumerGroup s)) s msg = Ret z c" and
          c: "store (send_each ob msg order b) i = Some (s\<lparr>ch := c\<rparr>)" by blast
        have "lastMessage (bc_step e b) = Some msg" using Publish r True all by (simp add: bc_publish_def Let_def)
        with sub_Send_DropOldest [OF inv_s open_s _ h] s' c Publish r True show ?thesis
          by (auto simp: up_to_date_def)
      next
        case False
        with s' Some r Publish u show ?thesis by (auto simp: up_to_date_def)
      qed
    next
      case (Request q order)
      with s' r have "store (snd (bc_request order q b)) i = Some s'" by simp
      with bc_request_store [OF inv Some, of order q] have "s' \<in> {s, snd (sub_Close s)}" by auto
      moreover have "lastMessage (bc_step e b) = lastMessage b"
        using Request by (intro bc_step_last_other) simp
      ultimately show ?thesis using u same
        by (auto simp: up_to_date_def sub_Close_contents same_sub_def)
    next
      case (Consume j)
      have "lastMessage (bc_step e b) = lastMessage b" using Consume by (intro bc_step_last_other) simp
      with Consume Some s' u show ?thesis
        by (cases "j = i") (auto simp: bc_consume_def up_to_date_def split: option.splits)
    qed (use Some s' r run in \<open>simp_all split: if_splits add: u\<close>)
  qed
qed

lemma all_up_to_date_run:
  "bc_inv b \<Longrightarrow> fair_run es b \<Longrightarrow> all_up_to_date b \<Longrightarrow> status (bc_run es b) = Running \<Longrightarrow>
     all_up_to_date (bc_run es b)"
proof (induction es arbitrary: b)
  case (Cons e es)
  have fair: "fair_order e b" "fair_run es (bc_step e b)" using Cons.prems by auto
  have "status (bc_step e b) = Running"
    using Cons.prems(4) bc_run_status [of "bc_step e b" es] by fastforce
  with Cons.IH [OF bc_step_inv [OF Cons.prems(1) fair(1)] fair(2)] Cons.prems fair show ?case
    by (simp add: all_up_to_date_step)
qed simp

lemma all_up_to_date_init: "all_up_to_date (bc_init aware)"
  by (simp add: all_up_to_date_def bc_init_def)

text \<open>
  C17: consumers that drop the oldest are up to date. In every run of a topic that is still
  going, an open consumer with the policy \<open>BufferPolicyDropOldest\<close> and a place in its
  buffer has the last message that was broadcast as the last one it received, or else as
  the last one in its buffer, also when it subscribed after that message.
\<close>

theorem drop_oldest_consumers_up_to_date:
  assumes "fair_run es (bc_init aware)" and "status (bc_run es (bc_init aware)) = Running"
    and "store (bc_run es (bc_init aware)) i = Some s"
    and "\<not> sub_closed s" and "bufferPolicy s = Some BufferPolicyDropOldest" and "0 < cap (ch s)"
    and "lastMessage (bc_run es (bc_init aware)) = Some m"
  shows "delivered (ch s) @ buf (ch s) \<noteq> [] \<and> last (delivered (ch s) @ buf (ch s)) = m"
  using all_up_to_date_run [OF bc_inv_init assms(1) all_up_to_date_init assms(2)] assms(3-7)
  unfolding all_up_to_date_def up_to_date_def contents_def by blast

theorem drop_oldest_consumers_up_to_date_witness:
  "let b = bc_run [Publish ''x'' [] (\<lambda>_ _. calm),
        Request (SubscribeRequest (demo_conf ''g'' 1 (Some BufferPolicyDropOldest))) [],
        Publish ''y'' [''g''] (\<lambda>_ _. calm)] (bc_init False)
   in \<exists>s. store b 0 = Some s \<and> last (delivered (ch s) @ buf (ch s)) = ''y''"
proof -
  let ?es = "[Publish ''x'' [] (\<lambda>_ _. calm),
        Request (SubscribeRequest (demo_conf ''g'' 1 (Some BufferPolicyDropOldest))) [],
        Publish ''y'' [''g''] (\<lambda>_ _. calm)]"
  let ?b = "bc_run ?es (bc_init False)"
  have f: "fair_run ?es (bc_init False)" by (simp add: demo_simps bc_publish_def handle_DropOldest_def case_drop_def chan_drop_def)
  have "\<exists>s. status ?b = Running \<and> store ?b 0 = Some s \<and> \<not> sub_closed s \<and>
      bufferPolicy s = Some BufferPolicyDropOldest \<and> 0 < cap (ch s) \<and> lastMessage ?b = Some ''y''"
    by (simp add: demo_simps bc_publish_def handle_DropOldest_def case_drop_def chan_drop_def)
  then obtain s where "status ?b = Running" "store ?b 0 = Some s" "\<not> sub_closed s"
    "bufferPolicy s = Some BufferPolicyDropOldest" "0 < cap (ch s)" "lastMessage ?b = Some ''y''" by blast
  with drop_oldest_consumers_up_to_date [OF f] show ?thesis by (auto simp: Let_def)
qed

subsection \<open>From the services to the watchers\<close>

lemma bc_step_taken:
  "status (bc_step e b) = Running \<Longrightarrow>
     lastMessage (bc_step e b) = (if taken e b = [] then lastMessage b else Some (last (taken e b)))"
proof (cases e)
  case (Publish msg order ob)
  moreover assume "status (bc_step e b) = Running"
  ultimately show ?thesis by (auto simp: bc_publish_def Let_def split: if_splits)
qed (use bc_step_last_other [of e b] in simp_all)

lemma bc_run_history:
  "status (bc_run es b) = Running \<Longrightarrow>
     lastMessage (bc_run es b) = (if history es b = [] then lastMessage b else Some (last (history es b)))"
proof (induction es arbitrary: b)
  case (Cons e es)
  have "status (bc_step e b) = Running"
    using Cons.prems bc_run_status [of "bc_step e b" es] by fastforce
  with Cons bc_step_taken [of e b] show ?case by simp
qed simp

lemma watch_all_last:
  assumes "distinct services" and "sts \<noteq> []" and "list_all (reached a t (last sts)) services"
  shows "let r = watch_goroutine (WatchAllServices a t services sc) (Some c) (map (\<lambda>st. GotStates st True) sts)
         in sent r \<noteq> [] \<and> last (sent r) = last sts |` set services"
proof -
  obtain xs y where sts: "sts = xs @ [y]" using assms(2) by (cases sts rule: rev_cases) auto
  have "sent (watch_goroutine (WatchAllServices a t services sc) (Some c) (map (\<lambda>st. GotStates st True) sts)) =
      List.map_filter (\<lambda>st. snd (all_turn a t services st)) sts"
    by (simp add: watch_goroutine_def WatchAllServices_def watch_loop_snapshots)
  also have "\<dots> = List.map_filter (\<lambda>st. snd (all_turn a t services st)) xs @ [y |` set services]"
    using assms(1,3) by (simp add: sts all_turn_eq List.map_filter_def)
  finally show ?thesis by (simp add: Let_def sts)
qed

lemma watcher_sees_last:
  assumes "fair_run es (bc_init aware)" and "status (bc_run es (bc_init aware)) = Running"
    and "store (bc_run es (bc_init aware)) i = Some s"
    and "\<not> sub_closed s" and "bufferPolicy s = Some BufferPolicyDropOldest" and "0 < cap (ch s)"
    and "buf (ch s) = []" and "history es (bc_init aware) \<noteq> []"
    and "distinct services"
    and "list_all (reached a t (last (history es (bc_init aware)))) services"
  shows "let r = watch_goroutine (WatchAllServices a t services sc) (Some i)
            (map (\<lambda>st. GotStates st True) (delivered (ch s)))
         in sent r \<noteq> [] \<and> last (sent r) = last (history es (bc_init aware)) |` set services"
proof -
  let ?b = "bc_run es (bc_init aware)"
  have "lastMessage ?b = Some (last (history es (bc_init aware)))"
    using bc_run_history [OF assms(2)] assms(8) by simp
  with all_up_to_date_run [OF bc_inv_init assms(1) all_up_to_date_init assms(2)] assms(3-7)
  have d: "delivered (ch s) \<noteq> []" "last (delivered (ch s)) = last (history es (bc_init aware))"
    unfolding all_up_to_date_def up_to_date_def contents_def by fastforce+
  from watch_all_last [OF assms(9) d(1), of a t sc i] assms(10) d(2) show ?thesis by simp
qed


text \<open>A watcher that subscribes after the snapshots \<open>ms\<close> were published, and receives.\<close>

definition late_run :: "string \<Rightarrow> 'v list \<Rightarrow> 'v event list" where
  "late_run g ms =
     map (\<lambda>m. Publish m [] (\<lambda>_ _. calm)) ms @
       [Request (SubscribeRequest (watch_conf g)) [], Consume 0]"

lemma publish_nobody:
  fixes b :: "'v bcast"
  assumes "ms \<noteq> []" and "status b = Running" and "recv_on b" and "subscribers b = Map.empty"
  shows "bc_run (map (\<lambda>m. Publish m [] (\<lambda>_ _. calm)) ms) b = b\<lparr>lastMessage := Some (last ms)\<rparr> \<and>
    history (map (\<lambda>m. Publish m [] (\<lambda>_ _. calm)) ms) b = ms \<and>
    fair_run (map (\<lambda>m. Publish m [] (\<lambda>_ _. calm)) ms) b"
  using assms
proof (induction ms arbitrary: b)
  case (Cons m ms)
  let ?b = "b\<lparr>lastMessage := Some m\<rparr>"
  from Cons show ?case
  proof (cases "ms = []")
    case False
    with Cons.IH [of ?b] Cons.prems show ?thesis by (simp add: bc_publish_def)
  qed (simp add: bc_publish_def)
qed simp

lemma history_append: "history (es @ fs) b = history es b @ history fs (bc_run es b)"
  by (induction es arbitrary: b) simp_all

lemma late_run_facts:
  fixes ms :: "'v list"
  assumes "ms \<noteq> []"
  shows "fair_run (late_run g ms) (bc_init False)"
    and "status (bc_run (late_run g ms) (bc_init False)) = Running"
    and "history (late_run g ms) (bc_init False) = ms"
    and "\<exists>s. store (bc_run (late_run g ms) (bc_init False)) 0 = Some s \<and> \<not> sub_closed s \<and>
      bufferPolicy s = Some BufferPolicyDropOldest \<and> 0 < cap (ch s) \<and> buf (ch s) = [] \<and>
      delivered (ch s) = [last ms]"
  using publish_nobody [OF assms, of "bc_init False"]
  by (simp_all add: late_run_def bc_run_append fair_run_append history_append demo_simps watch_conf_def
      bc_consume_def chan_recv_def)


end
