(* ===== verification/Rx_Snapshots.thy ===== *)
theory Rx_Snapshots
  imports Rx_StatesTopic Rx_DaemonProps
begin

section \<open>Who holds which map of states\<close>

text \<open>
  A map of states is a reference, and it is a reference that the states watcher publishes,
  the topic keeps as its last message, the subscriptions buffer, and a watch hands to its
  caller. \<open>WatchAllServices\<close>, \<open>WatchAnyServices\<close> and a \<open>WatchAllStates\<close> with a filter make a
  map of their own for each signal; a \<open>WatchAllStates\<close> without a filter sends on the
  reference it received. Here these parts work on one memory, with callers that write to
  the maps they hold.
\<close>

subsection \<open>What a watch hands out\<close>

datatype snap_watch =
    AllServices ServiceAction State "string list"
  | AnyServices ServiceAction State "string list"
  | AllStates ServiceFilter "string list"

fun turn_of :: "snap_watch \<Rightarrow> turn" where
  "turn_of (AllServices action target services) = all_turn action target services"
| "turn_of (AnyServices action target services) = any_turn action target services"
| "turn_of (AllStates flt keys) = filter_turn flt keys"

fun unfiltered :: "snap_watch \<Rightarrow> bool" where
  "unfiltered (AllStates flt keys) \<longleftrightarrow> Names flt = {} \<or> Mode flt = FilterNone"
| "unfiltered w \<longleftrightarrow> False"

definition new_map :: "ServiceStates \<Rightarrow> sw_state \<Rightarrow> nat \<times> sw_state" where
  "new_map m s = (next_addr s, s\<lparr>mem := (mem s)(next_addr s := m), next_addr := Suc (next_addr s)\<rparr>)"

text \<open>The turn of a watch that received the map at \<open>a\<close>: the address it sends, if it sends.\<close>

definition turn_at :: "snap_watch \<Rightarrow> nat \<Rightarrow> sw_state \<Rightarrow> nat option \<times> sw_state" where
  "turn_at w a s =
     (if unfiltered w then (Some a, s)
      else case snd (turn_of w (mem s a)) of
        None \<Rightarrow> (None, s)
      | Some m \<Rightarrow> (let (x, s') = new_map m s in (Some x, s')))"

text \<open>The maps that are handed out hold what the turn as a function of values says.\<close>

lemma turn_at_value:
  assumes "turn_at w a s = (r, s')"
  shows "map_option (mem s') r = snd (turn_of w (mem s a))"
  using assms
  by (cases w) (auto simp: turn_at_def new_map_def filter_turn_def Let_def split: option.splits if_splits)

subsection \<open>The system\<close>

text \<open>
  \<open>Snapshot\<close> is an update that the states watcher receives, with the send of the copy, which
  goes through; \<open>Turn\<close> a watch for a caller, on the channel of its subscription, that sends
  for a map it received; \<open>Writes\<close> a caller's assignment to a key of a map it was handed.
\<close>

datatype sn_event =
    Snapshot "string list" ServiceStateUpdate "string list" "string \<Rightarrow> nat \<Rightarrow> obs"
  | TopicDoes "nat event"
  | Turn nat snap_watch nat nat
  | Writes nat nat string StateUpdate

record snaps =
  sn_sw :: sw_state
  sn_bc :: "nat bcast"
  sn_held :: "(nat \<times> nat) list"

definition sn_init :: "string set \<Rightarrow> snaps" where
  "sn_init names = \<lparr>sn_sw = sw_init names, sn_bc = bc_init False, sn_held = []\<rparr>"

fun sn_step :: "sn_event \<Rightarrow> snaps \<Rightarrow> snaps" where
  "sn_step (Snapshot keys u ns ob) s =
     s\<lparr>sn_sw := sw_step (keys, u) (sn_sw s),
       sn_bc := bc_step (Publish (next_addr (sn_sw s)) ns ob) (sn_bc s)\<rparr>"
| "sn_step (TopicDoes e) s = s\<lparr>sn_bc := bc_step e (sn_bc s)\<rparr>"
| "sn_step (Turn caller w i a) s =
     (case turn_at w a (sn_sw s) of
        (None, sw) \<Rightarrow> s\<lparr>sn_sw := sw\<rparr>
      | (Some x, sw) \<Rightarrow> s\<lparr>sn_sw := sw, sn_held := (caller, x) # sn_held s\<rparr>)"
| "sn_step (Writes caller a n v) s =
     s\<lparr>sn_sw := (sn_sw s)\<lparr>mem := (mem (sn_sw s))(a := (mem (sn_sw s) a)(n \<mapsto> v))\<rparr>\<rparr>"

text \<open>
  When an event can happen. The copy ranges over the keys of the watcher's map; a watch has
  received the map from its channel; a caller writes to what it holds.
\<close>

fun sn_ok :: "sn_event \<Rightarrow> snaps \<Rightarrow> bool" where
  "sn_ok (Snapshot keys u ns ob) s \<longleftrightarrow>
     set keys = insert (Name u) (dom (mem (sn_sw s) 0)) \<and>
     status (sn_bc s) = Running \<and> recv_on (sn_bc s) \<and>
     distinct ns \<and> set ns = dom (subscribers (sn_bc s))"
| "sn_ok (TopicDoes e) s \<longleftrightarrow> fair_order e (sn_bc s) \<and>
     (case e of Request r ns \<Rightarrow> True | Consume i \<Rightarrow> True | _ \<Rightarrow> False)"
| "sn_ok (Turn caller w i a) s \<longleftrightarrow>
     (case store (sn_bc s) i of None \<Rightarrow> False | Some t \<Rightarrow> a \<in> set (delivered (ch t)))"
| "sn_ok (Writes caller a n v) s \<longleftrightarrow> (caller, a) \<in> set (sn_held s)"

fun sn_run :: "sn_event list \<Rightarrow> snaps \<Rightarrow> snaps" where
  "sn_run [] s = s"
| "sn_run (e # es) s = sn_run es (sn_step e s)"

fun sn_oks :: "sn_event list \<Rightarrow> snaps \<Rightarrow> bool" where
  "sn_oks [] s \<longleftrightarrow> True"
| "sn_oks (e # es) s \<longleftrightarrow> sn_ok e s \<and> sn_oks es (sn_step e s)"

fun sn_updates :: "sn_event list \<Rightarrow> ServiceStateUpdate list" where
  "sn_updates [] = []"
| "sn_updates (Snapshot keys u ns ob # es) = u # sn_updates es"
| "sn_updates (_ # es) = sn_updates es"

lemma sn_run_append [simp]:
  "sn_run (es @ fs) s = sn_run fs (sn_run es s)"
  "sn_oks (es @ fs) s \<longleftrightarrow> sn_oks es s \<and> sn_oks fs (sn_run es s)"
  by (induction es arbitrary: s) auto

lemma sn_oks_before: "sn_oks (es @ fs) s \<Longrightarrow> sn_oks es s"
  by simp

lemma sn_updates_append [simp]: "sn_updates (es @ fs) = sn_updates es @ sn_updates fs"
  by (induction es rule: sn_updates.induct) auto

subsection \<open>Which messages are about\<close>

definition bc_messages :: "'v bcast \<Rightarrow> 'v set" where
  "bc_messages b = {m. lastMessage b = Some m} \<union> {m. \<exists>i t. store b i = Some t \<and> m \<in> set (contents (ch t))}"

lemma newSubscriber_empty: "newSubscriber conf = Inr t \<Longrightarrow> contents (ch t) = []"
  by (auto simp: newSubscriber_def make_chan_def contents_def split: if_splits)

lemma bc_messages_step:
  assumes "bc_inv b" and "fair_order e b"
  shows "bc_messages (bc_step e b) \<subseteq> bc_messages b \<union> set (taken e b)"
proof
  fix m assume "m \<in> bc_messages (bc_step e b)"
  then consider "lastMessage (bc_step e b) = Some m"
    | i t where "store (bc_step e b) i = Some t" "m \<in> set (contents (ch t))"
    by (auto simp: bc_messages_def)
  then show "m \<in> bc_messages b \<union> set (taken e b)"
  proof cases
    case 1
    with bc_step_last [of e b m] show ?thesis by (auto simp: bc_messages_def)
  next
    case (2 i t)
    show ?thesis
    proof (cases "store b i")
      case None
      from bc_step_new [OF None 2(1)] obtain conf t0 where
        "newSubscriber conf = Inr t0" "t = t0\<lparr>ch := offer_last (lastMessage b) (ch t0)\<rparr>" by blast
      with 2(2) newSubscriber_empty [of conf t0] show ?thesis
        by (auto simp: bc_messages_def offer_last_def contents_def chan_put_def split: option.splits if_splits)
    next
      case (Some t0)
      from bc_step_lossy [OF assms Some] obtain t' where "store (bc_step e b) i = Some t'"
        "lossy (2 * length (taken e b)) (ch t0) (taken e b) (ch t')" by blast
      with 2(1) have "subseq (contents (ch t)) (contents (ch t0) @ taken e b)"
        using lossy_contents by fastforce
      then have "m \<in> set (contents (ch t0) @ taken e b)" using 2(2) by (auto elim!: list_emb_set)
      with Some show ?thesis by (auto simp: bc_messages_def)
    qed
  qed
qed

lemma bc_messages_init [simp]: "bc_messages (bc_init aware) = {}"
  by (simp add: bc_messages_def bc_init_def)

subsection \<open>Invariants\<close>

text \<open>
  The states watcher's own map, at address 0, is in nobody's hands: what is published, on
  its way or held is some other map.
\<close>

definition sn_inv :: "ServiceStates \<Rightarrow> snaps \<Rightarrow> bool" where
  "sn_inv own s \<longleftrightarrow> bc_inv (sn_bc s) \<and> bc_messages (sn_bc s) \<subseteq> set (published (sn_sw s)) \<and>
     0 < next_addr (sn_sw s) \<and>
     set (published (sn_sw s)) \<union> snd ` set (sn_held s) \<subseteq> {0<..<next_addr (sn_sw s)} \<and>
     mem (sn_sw s) 0 = own"

lemma sn_inv_init: "sn_inv (states_after names []) (sn_init names)"
  by (simp add: sn_inv_def sn_init_def sw_init_def states_after_def bc_inv_init fun_eq_iff)

lemma sw_step_fields:
  "0 < next_addr s \<Longrightarrow> mem (sw_step (keys, u) s) 0 =
     (mem s 0)(Name u \<mapsto> mk_update (upd_State u) (upd_Transition u))"
  "next_addr (sw_step (keys, u) s) = Suc (next_addr s)"
  "published (sw_step (keys, u) s) = published s @ [next_addr s]"
  by (simp_all add: sw_step_def Let_def)

lemma turn_at_cases:
  obtains "turn_at w a s = (None, s)" "\<not> unfiltered w"
  | "turn_at w a s = (Some a, s)" "unfiltered w"
  | m where "turn_at w a s = (Some (next_addr s), snd (new_map m s))" "\<not> unfiltered w"
  by (cases "unfiltered w"; cases "snd (turn_of w (mem s a))") (auto simp: turn_at_def new_map_def)

lemma received_published:
  assumes "sn_inv own s" and "sn_ok (Turn caller w i a) s"
  shows "a \<in> set (published (sn_sw s))"
proof -
  from assms(2) obtain t where "store (sn_bc s) i = Some t" "a \<in> set (delivered (ch t))"
    by (auto split: option.splits)
  then have "a \<in> bc_messages (sn_bc s)" by (auto simp: bc_messages_def contents_def)
  with assms(1) show ?thesis by (auto simp: sn_inv_def)
qed

lemma sn_inv_step:
  assumes inv: "sn_inv own s" and ok: "sn_ok e s"
  shows "sn_inv (case e of
      Snapshot keys u ns ob \<Rightarrow> own(Name u \<mapsto> mk_update (upd_State u) (upd_Transition u))
    | _ \<Rightarrow> own) (sn_step e s)"
proof (cases e)
  case (Snapshot keys u ns ob)
  let ?e = "Publish (next_addr (sn_sw s)) ns ob"
  have f: "fair_order ?e (sn_bc s)" "taken ?e (sn_bc s) = [next_addr (sn_sw s)]" using ok Snapshot by simp_all
  have b: "bc_inv (sn_bc s)" "0 < next_addr (sn_sw s)" using inv by (simp_all add: sn_inv_def)
  have "bc_inv (bc_step ?e (sn_bc s))" using bc_step_inv [OF b(1) f(1)] .
  moreover have "bc_messages (bc_step ?e (sn_bc s)) \<subseteq> insert (next_addr (sn_sw s)) (set (published (sn_sw s)))"
    using bc_messages_step [OF b(1) f(1)] f(2) inv by (auto simp: sn_inv_def simp del: bc_step.simps)
  ultimately show ?thesis
    using inv Snapshot b(2) by (auto simp: sn_inv_def sw_step_fields simp del: bc_step.simps)
next
  case (TopicDoes e')
  then have f: "fair_order e' (sn_bc s)" "taken e' (sn_bc s) = []" using ok by (auto split: event.splits)
  have "bc_inv (sn_bc s)" using inv by (simp add: sn_inv_def)
  from bc_step_inv [OF this f(1)] bc_messages_step [OF this f(1)] f(2) inv TopicDoes show ?thesis
    by (auto simp: sn_inv_def)
next
  case (Turn caller w i a)
  have "a \<in> set (published (sn_sw s))" using received_published [OF inv] ok Turn by blast
  then show ?thesis using inv Turn
    by (cases rule: turn_at_cases [of w a "sn_sw s"]) (auto simp: sn_inv_def new_map_def)
next
  case (Writes caller a n v)
  then have "a \<in> snd ` set (sn_held s)" using ok by force
  then have "a \<noteq> 0" using inv by (auto simp: sn_inv_def)
  then show ?thesis using inv Writes by (auto simp: sn_inv_def)
qed

lemma sn_inv_run:
  "sn_oks es (sn_init names) \<Longrightarrow> sn_inv (states_after names (sn_updates es)) (sn_run es (sn_init names))"
proof (induction es rule: rev_induct)
  case (snoc e es)
  then have "sn_inv (states_after names (sn_updates es)) (sn_run es (sn_init names))"
    "sn_ok e (sn_run es (sn_init names))" by simp_all
  from sn_inv_step [OF this] show ?case by (cases e) (simp_all add: fun_upd_def del: sn_step.simps)
qed (simp add: sn_inv_init)

text \<open>
  C11: Callers cannot corrupt the daemon's states. Whatever callers write to the maps that
  watches handed them, the states watcher's own map holds the states after all updates, and
  so does the next snapshot, at the moment it is published.
\<close>

theorem callers_cannot_corrupt_states:
  assumes "sn_oks (es @ [Snapshot keys u ns ob]) (sn_init names)"
  shows "let s = sn_run es (sn_init names); s' = sn_step (Snapshot keys u ns ob) s
    in mem (sn_sw s) 0 = states_after names (sn_updates es) \<and>
       mem (sn_sw s') (last (published (sn_sw s'))) = states_after names (sn_updates es @ [u]) \<and>
       last (published (sn_sw s')) \<notin> snd ` set (sn_held s')"
proof -
  let ?s = "sn_run es (sn_init names)"
  have inv: "sn_inv (states_after names (sn_updates es)) ?s"
    and ok: "set keys = insert (Name u) (dom (mem (sn_sw ?s) 0))"
    using assms sn_inv_run [of es names] by simp_all
  let ?own = "(mem (sn_sw ?s) 0)(Name u \<mapsto> mk_update (upd_State u) (upd_Transition u))"
  have "states_copy keys ?own = ?own" using ok by (intro states_copy_id) simp
  moreover have "next_addr (sn_sw ?s) \<notin> snd ` set (sn_held ?s)" using inv by (auto simp: sn_inv_def)
  ultimately show ?thesis using inv
    by (simp add: Let_def sn_inv_def sw_step_def)
qed

subsection \<open>Maps of one's own\<close>

text \<open>
  C10: As long as no watch is unfiltered, no caller holds a published map, and every snapshot
  stays what it was.
\<close>

definition sn_private :: "string set \<Rightarrow> ServiceStateUpdate list \<Rightarrow> snaps \<Rightarrow> bool" where
  "sn_private names us s \<longleftrightarrow> set (published (sn_sw s)) \<inter> snd ` set (sn_held s) = {} \<and>
     length (published (sn_sw s)) = length us \<and>
     (\<forall>k < length us. mem (sn_sw s) (published (sn_sw s) ! k) = states_after names (take (Suc k) us))"

fun makes_map :: "sn_event \<Rightarrow> bool" where
  "makes_map (Turn caller w i a) \<longleftrightarrow> \<not> unfiltered w"
| "makes_map _ \<longleftrightarrow> True"

lemma sn_private_frame:
  assumes "sn_private names us s" and "sn_inv own s"
    and "published (sn_sw s') = published (sn_sw s)"
    and "\<And>a. a \<in> set (published (sn_sw s)) \<Longrightarrow> mem (sn_sw s') a = mem (sn_sw s) a"
    and "set (published (sn_sw s)) \<inter> snd ` set (sn_held s') = {}"
  shows "sn_private names us s'"
  using assms by (auto simp: sn_private_def)

lemma sn_private_step:
  assumes inv: "sn_inv (states_after names us) s" and priv: "sn_private names us s"
    and ok: "sn_ok e s" and mk: "makes_map e"
  shows "sn_private names (us @ sn_updates [e]) (sn_step e s)"
proof (cases e)
  case (Snapshot keys u ns ob)
  let ?sw = "sn_sw s"
  let ?own = "(mem ?sw 0)(Name u \<mapsto> mk_update (upd_State u) (upd_Transition u))"
  have "states_copy keys ?own = ?own" using ok Snapshot by (intro states_copy_id) simp
  then have own: "states_copy keys ?own = states_after names (us @ [u])" using inv by (simp add: sn_inv_def)
  have lt: "a \<noteq> 0 \<and> a \<noteq> next_addr ?sw" if "a \<in> set (published ?sw) \<union> snd ` set (sn_held s)" for a
    using inv that unfolding sn_inv_def by fastforce
  have len: "length (published ?sw) = length us" using priv by (simp add: sn_private_def)
  have "mem (sn_sw (sn_step e s)) (published (sn_sw (sn_step e s)) ! k) =
      states_after names (take (Suc k) (us @ [u]))" if "k < Suc (length us)" for k
  proof (cases "k < length us")
    case True
    then have "published ?sw ! k \<in> set (published ?sw)" using len by simp
    with lt have "published ?sw ! k \<noteq> 0" "published ?sw ! k \<noteq> next_addr ?sw" by blast+
    moreover have "mem ?sw (published ?sw ! k) = states_after names (take (Suc k) us)"
      using priv True by (simp add: sn_private_def)
    ultimately show ?thesis using True len Snapshot by (simp add: sw_step_def Let_def nth_append)
  next
    case False
    then have "k = length us" using that by simp
    then show ?thesis using len Snapshot own by (simp add: sw_step_def Let_def nth_append)
  qed
  moreover have "set (published ?sw) \<inter> snd ` set (sn_held s) = {}" using priv by (simp add: sn_private_def)
  moreover have "next_addr ?sw \<notin> snd ` set (sn_held s)" using lt by blast
  ultimately show ?thesis using Snapshot len by (simp add: sn_private_def sw_step_def Let_def)
next
  case (TopicDoes e')
  then show ?thesis using priv by (simp add: sn_private_def)
next
  case (Turn caller w i a)
  have n: "next_addr (sn_sw s) \<notin> set (published (sn_sw s))" using inv by (auto simp: sn_inv_def)
  have d: "set (published (sn_sw s)) \<inter> snd ` set (sn_held s) = {}" using priv by (simp add: sn_private_def)
  have "sn_private names us (sn_step e s)"
    by (rule sn_private_frame [OF priv inv]; cases rule: turn_at_cases [of w a "sn_sw s"])
      (use mk Turn n d in \<open>auto simp: new_map_def\<close>)
  then show ?thesis using Turn by simp
next
  case (Writes caller a n v)
  then have "a \<in> snd ` set (sn_held s)" using ok by force
  then have "a \<notin> set (published (sn_sw s))" using priv by (auto simp: sn_private_def)
  then have "sn_private names us (sn_step e s)"
    using Writes priv by (intro sn_private_frame [OF priv inv]) (auto simp: sn_private_def)
  then show ?thesis using Writes by simp
qed

lemma sn_private_run:
  "sn_oks es (sn_init names) \<Longrightarrow> list_all makes_map es \<Longrightarrow>
     sn_private names (sn_updates es) (sn_run es (sn_init names))"
proof (induction es rule: rev_induct)
  case Nil
  show ?case by (simp add: sn_private_def sn_init_def sw_init_def)
next
  case (snoc e es)
  then have "sn_private names (sn_updates es @ sn_updates [e]) (sn_step e (sn_run es (sn_init names)))"
    by (intro sn_private_step sn_inv_run) simp_all
  then show ?case by simp
qed

theorem own_maps_keep_snapshots:
  assumes "sn_oks es (sn_init names)" and "list_all makes_map es" and "k < length (sn_updates es)"
  shows "let sw = sn_sw (sn_run es (sn_init names))
    in mem sw (published sw ! k) = states_after names (take (Suc k) (sn_updates es))"
  using sn_private_run [OF assms(1,2)] assms(3) by (simp add: sn_private_def Let_def)

subsection \<open>The shared map\<close>

text \<open>
  C12: A watch without a filter shares. Every other watch hands its caller a map that nobody
  else has; but the callers of two watches of all states without a filter are handed the
  same map for the same snapshot, the one that was published: what one writes to it, the
  other reads, and so does whoever subscribes while it is the topic's last message.
\<close>

theorem unfiltered_watches_share:
  assumes "sn_oks (es @ [Turn c1 w1 i1 a, Turn c2 w2 i2 a]) (sn_init names)"
    and "s = sn_run (es @ [Turn c1 w1 i1 a, Turn c2 w2 i2 a]) (sn_init names)"
    and "unfiltered w1" and "unfiltered w2"
  shows "sn_held s = (c2, a) # (c1, a) # sn_held (sn_run es (sn_init names)) \<and>
    sn_ok (Writes c1 a n v) s \<and> mem (sn_sw (sn_step (Writes c1 a n v) s)) a n = Some v \<and>
    a \<in> set (published (sn_sw s)) \<and>
    (lastMessage (sn_bc s) = Some a \<longrightarrow> status (sn_bc s) = Running \<longrightarrow>
       subscribers (sn_bc s) g = None \<longrightarrow>
       (\<exists>i t. store (bc_step (Request (SubscribeRequest (watch_conf g)) ns) (sn_bc s)) i = Some t \<and>
          buf (ch t) = [a]))"
proof -
  let ?s = "sn_run es (sn_init names)"
  have s: "s = ?s\<lparr>sn_held := (c2, a) # (c1, a) # sn_held ?s\<rparr>"
    using assms(2-4) by (simp add: turn_at_def)
  have "sn_inv (states_after names (sn_updates es)) ?s" "sn_ok (Turn c1 w1 i1 a) ?s"
    using assms(1) sn_inv_run [of es names] by simp_all
  from received_published [OF this] have "a \<in> set (published (sn_sw s))" by (simp add: s)
  moreover have "\<exists>i t. store (bc_step (Request (SubscribeRequest (watch_conf g)) ns) (sn_bc s)) i = Some t \<and>
      buf (ch t) = [a]"
    if "lastMessage (sn_bc s) = Some a" "status (sn_bc s) = Running" "subscribers (sn_bc s) g = None"
    using that
    by (intro exI [of _ "next_ref (sn_bc s)"])
      (simp add: bc_request_def bc_subscribe_def newSubscriber_def watch_conf_def Let_def
        offer_last_def enable_broadcast_def make_chan_def can_send_def chan_put_def)
  ultimately show ?thesis by (simp add: s)
qed


subsection \<open>A run\<close>

text \<open>Two services watch all states, and both receive the first snapshot.\<close>

definition sn_demo :: "sn_event list" where
  "sn_demo =
     [TopicDoes (Request (SubscribeRequest (watch_conf ''v'')) []),
      TopicDoes (Request (SubscribeRequest (watch_conf ''w'')) [''v'']),
      Snapshot [''a''] (entering ''a'' Init) [''v'', ''w''] (\<lambda>_ _. calm),
      TopicDoes (Consume 0), TopicDoes (Consume 1)]"

abbreviation "sn_turns \<equiv>
  [Turn 1 (AllStates NoFilter [''a'']) 0 1, Turn 2 (AllStates NoFilter [''a'']) 1 1]"

lemma dom_two: "dom (\<lambda>n. if n = x then Some u else if n = y then Some v else None) = {x, y}"
  "dom (\<lambda>n. if n = x then Some u else None) = {x}"
  by (auto split: if_splits)

lemma sn_demo_ok: "sn_oks (sn_demo @ sn_turns) (sn_init {''a''})"
  by (simp add: sn_demo_def sn_init_def demo_simps watch_conf_def bc_publish_def
      handle_DropOldest_def case_drop_def chan_drop_def bc_consume_def chan_recv_def sw_step_def sw_init_def
      turn_at_def NoFilter_def dom_two insert_commute)

theorem unfiltered_watches_share_witness:
  "sn_ok (Writes 1 1 ''a'' (mk_update StateExit TransitionEntering))
     (sn_run (sn_demo @ sn_turns) (sn_init {''a''}))"
proof -
  have "unfiltered (AllStates NoFilter [''a''])" by (simp add: NoFilter_def)
  from unfiltered_watches_share [OF sn_demo_ok refl this this] show ?thesis by blast
qed

abbreviation "sn_writes flt x v \<equiv>
  sn_demo @ [Turn 1 (AllStates flt [''a'']) 0 1, Writes 1 x ''a'' v]"

lemma sn_writes_ok:
  assumes "x = (if Names flt = {} \<or> Mode flt = FilterNone then 1 else 2)"
  shows "sn_oks (sn_writes flt x v @ [Snapshot [''a''] (entering ''a'' Stop) [''v'', ''w''] (\<lambda>_ _. calm)])
    (sn_init {''a''})"
  by (auto simp add: assms sn_demo_def sn_init_def demo_simps watch_conf_def bc_publish_def
      handle_DropOldest_def case_drop_def chan_drop_def bc_consume_def chan_recv_def sw_step_def sw_init_def
      turn_at_def new_map_def filter_turn_def dom_two)

lemma sn_demo_updates: "sn_updates (sn_writes flt x v) = [entering ''a'' Init]"
  by (simp add: sn_demo_def)

theorem callers_cannot_corrupt_states_witness:
  "mem (sn_sw (sn_run (sn_writes NoFilter 1 (mk_update StateExit TransitionEntering)) (sn_init {''a''}))) 0 ''a'' =
     Some (mk_update StateInit TransitionEntering)"
proof -
  have "1 = (if Names NoFilter = {} \<or> Mode NoFilter = FilterNone then 1 else 2 :: nat)"
    by (simp add: NoFilter_def)
  from callers_cannot_corrupt_states [OF sn_writes_ok [OF this]] show ?thesis
    by (simp only: Let_def sn_demo_updates) (simp add: states_after_def)
qed

theorem own_maps_keep_snapshots_witness:
  "let sw = sn_sw (sn_run (sn_writes (NewServiceFilter Include [''a'']) 2
       (mk_update StateExit TransitionEntering)) (sn_init {''a''}))
   in mem sw (published sw ! 0) ''a'' = Some (mk_update StateInit TransitionEntering)"
proof -
  let ?f = "NewServiceFilter Include [''a'']"
  have "2 = (if Names ?f = {} \<or> Mode ?f = FilterNone then 1 else 2 :: nat)"
    by (simp add: NewServiceFilter_def)
  note ok = sn_oks_before [OF sn_writes_ok [OF this]]
  have "list_all makes_map (sn_writes ?f 2 (mk_update StateExit TransitionEntering))"
    by (simp add: sn_demo_def NewServiceFilter_def)
  from own_maps_keep_snapshots [OF ok this, of 0] show ?thesis
    by (simp only: Let_def sn_demo_updates) (simp add: states_after_def)
qed

end
