(* ===== verification/Rx_Backpressure.thy ===== *)
theory Rx_Backpressure
  imports Rx_StatesTopic Rx_DaemonProps
begin

section \<open>Who waits for whom: services, states watcher, topic, subscribers\<close>

text \<open>
  The updates of the services go through a channel with four places for each service to the
  states watcher, which publishes a snapshot for each on the topic of the states; the topic's
  broadcaster sends it to every subscriber, with the policy that each asked for. A service
  waits for room in the channel, the states watcher for the topic, the broadcaster for a
  subscriber whose policy does not drop. Here the three are put together, to see when that
  chain blocks. (The steps of \<open>Rx_StartSystem\<close> have the channel without its bound.)
\<close>

subsection \<open>The chain\<close>

record bp =
  pend :: "ServiceStateUpdate list list"
  upd_cap :: nat
  upd_q :: "ServiceStateUpdate list"
  sw_own :: ServiceStates
  sw_sends :: "ServiceStates option"
  states_bc :: "ServiceStates bcast"

text \<open>Each service with the updates that its goroutine has still to send.\<close>

definition bp_init :: "string set \<Rightarrow> ServiceStateUpdate list list \<Rightarrow> bp" where
  "bp_init names uss =
     \<lparr>pend = uss, upd_cap = length uss * 4, upd_q = [],
      sw_own = (\<lambda>n. if n \<in> names then Some (mk_update StateUnknown TransitionEntering) else None),
      sw_sends = None, states_bc = bc_init False\<rparr>"

text \<open>
  What subscribers do: they subscribe with a configuration that fulfils \<open>P\<close>, unsubscribe, and
  receive.
\<close>

fun user_event :: "(SubscriberConfig \<Rightarrow> bool) \<Rightarrow> 'v event \<Rightarrow> bool" where
  "user_event P (Request (SubscribeRequest conf) ns) \<longleftrightarrow> P conf"
| "user_event P (Request (UnsubscribeRequest g i) ns) \<longleftrightarrow> True"
| "user_event P (Consume i) \<longleftrightarrow> True"
| "user_event P e \<longleftrightarrow> False"

inductive bp_step :: "(SubscriberConfig \<Rightarrow> bool) \<Rightarrow> bp \<Rightarrow> bp \<Rightarrow> bool" for P where
  service_sends: "i < length (pend s) \<Longrightarrow> pend s ! i = u # us \<Longrightarrow> length (upd_q s) < upd_cap s \<Longrightarrow>
    bp_step P s (s\<lparr>pend := (pend s)[i := us], upd_q := upd_q s @ [u]\<rparr>)"
| watcher_takes: "sw_sends s = None \<Longrightarrow> upd_q s = u # q \<Longrightarrow>
    own = (sw_own s)(Name u \<mapsto> mk_update (upd_State u) (upd_Transition u)) \<Longrightarrow>
    bp_step P s (s\<lparr>upd_q := q, sw_own := own, sw_sends := Some own\<rparr>)"
| topic_takes: "sw_sends s = Some m \<Longrightarrow> status (states_bc s) = Running \<Longrightarrow> recv_on (states_bc s) \<Longrightarrow>
    fair_order (Publish m ns ob) (states_bc s) \<Longrightarrow>
    bp_step P s (s\<lparr>sw_sends := None, states_bc := bc_step (Publish m ns ob) (states_bc s)\<rparr>)"
| topic_serves: "user_event P e \<Longrightarrow> fair_order e (states_bc s) \<Longrightarrow>
    bp_step P s (s\<lparr>states_bc := bc_step e (states_bc s)\<rparr>)"

definition bp_reach :: "(SubscriberConfig \<Rightarrow> bool) \<Rightarrow> bp \<Rightarrow> bp \<Rightarrow> bool" where
  "bp_reach P = (bp_step P)\<^sup>*\<^sup>*"

lemma bp_reach_induct [consumes 1, case_names base step]:
  assumes "bp_reach P s t" and "Q s" and "\<And>u v. Q u \<Longrightarrow> bp_step P u v \<Longrightarrow> Q v"
  shows "Q t"
  using assms(1) unfolding bp_reach_def by (induction rule: rtranclp_induct) (use assms(2,3) in blast)+

text \<open>How many updates the services have left, and what is to be done until all is published.\<close>

definition left :: "bp \<Rightarrow> nat" where
  "left s = sum_list (map length (pend s))"

definition held :: "bp \<Rightarrow> nat" where
  "held s = (if sw_sends s = None then 0 else 1)"

definition work :: "bp \<Rightarrow> nat" where
  "work s = 3 * left s + 2 * length (upd_q s) + held s"

lemma left_update:
  assumes "i < length (pend s)" and "pend s ! i = u # us"
  shows "left s = Suc (left (s\<lparr>pend := (pend s)[i := us], upd_q := q\<rparr>))"
  using sum_update [OF assms(1), of length us] assms(2) by (simp add: left_def)

subsection \<open>Subscribers that drop the oldest block nobody\<close>

definition all_oldest :: "'v bcast \<Rightarrow> bool" where
  "all_oldest b \<longleftrightarrow> (\<forall>i t. store b i = Some t \<longrightarrow> sub_closed t \<or> bufferPolicy t = Some BufferPolicyDropOldest)"

lemma sub_Send_oldest:
  assumes "sub_inv t" and "\<not> sub_closed t" and "bufferPolicy t = Some BufferPolicyDropOldest"
  shows "\<exists>e c. sub_Send ob t m = Ret e c"
proof -
  have "chan_ok (ch t)" "\<not> stopC_closed t" using assms(1,2) by (auto simp: sub_inv_def chan_ok_def)
  then show ?thesis
    using drop_oldest_pushes [of "ch t" "with_stop (stopC_closed t) ob" m] assms(2,3)
    by (auto simp: sub_Send_def with_stop_def)
qed

lemma send_to_oldest:
  assumes "bc_inv b" and "all_oldest b" and "status b = Running"
  shows "status (send_to ob m n b) = Running \<and> all_oldest (send_to ob m n b)"
proof (cases "subscribers b n")
  case None
  then show ?thesis using assms(2,3) by (simp add: send_to_def)
next
  case (Some i)
  from bc_inv_stored [OF assms(1) Some] obtain t where t: "store b i = Some t" "\<not> sub_closed t" .
  have inv: "sub_inv t" using assms(1) storedD [OF _ t(1)] by (auto simp: bc_inv_def)
  have old: "bufferPolicy t = Some BufferPolicyDropOldest" using assms(2) t by (auto simp: all_oldest_def)
  from sub_Send_oldest [OF inv t(2) old] obtain e c where "sub_Send (ob n) t m = Ret e c" by metis
  then have "send_to ob m n b = b\<lparr>store := (store b)(i \<mapsto> t\<lparr>ch := c\<rparr>), status := status b\<rparr>"
    by (simp add: send_to_def Some t Let_def)
  with assms(2,3) old show ?thesis by (simp add: all_oldest_def)
qed

lemma send_each_oldest:
  "bc_inv b \<Longrightarrow> all_oldest b \<Longrightarrow> status b = Running \<Longrightarrow>
     status (send_each ob m ns b) = Running \<and> all_oldest (send_each ob m ns b)"
  by (induction ns arbitrary: b) (simp_all add: send_to_oldest send_to_inv Let_def)

lemma send_each_flags [simp]:
  "recv_on (send_each ob m ns b) = recv_on b" "SubscriberAware (send_each ob m ns b) = SubscriberAware b"
  by (induction ns arbitrary: b) (auto simp: Let_def send_to_def split: option.split)

text \<open>A topic that always broadcasts, all of whose subscribers drop the oldest.\<close>

definition open_topic :: "'v bcast \<Rightarrow> bool" where
  "open_topic b \<longleftrightarrow> bc_inv b \<and> all_oldest b \<and> status b = Running \<and> recv_on b \<and> \<not> SubscriberAware b"

abbreviation drops_oldest :: "SubscriberConfig \<Rightarrow> bool" where
  "drops_oldest conf \<equiv> conf_BufferPolicy conf = Some BufferPolicyDropOldest \<and> 0 \<le> BufferSize conf"

lemma open_topic_init: "open_topic (bc_init False)"
  by (simp add: open_topic_def bc_inv_init) (simp add: bc_init_def all_oldest_def)

lemma open_topic_publish:
  assumes "open_topic b" and "fair_order (Publish m ns ob) b"
  shows "open_topic (bc_step (Publish m ns ob) b) \<and> lastMessage (bc_step (Publish m ns ob) b) = Some m"
proof -
  have b: "bc_inv b" "all_oldest b" "status b = Running" "recv_on b" "\<not> SubscriberAware b"
    using assms(1) by (simp_all add: open_topic_def)
  note s = send_each_oldest [OF b(1-3), of ob m ns]
  have "bc_step (Publish m ns ob) b = (send_each ob m ns b)\<lparr>lastMessage := Some m\<rparr>"
    using s b(3,4) by (simp add: bc_publish_def Let_def)
  with s b(4,5) bc_step_inv [OF b(1) assms(2)] show ?thesis by (simp add: open_topic_def all_oldest_def)
qed

lemma oldest_subscribe:
  assumes "open_topic b" and "drops_oldest conf"
  shows "status (snd (bc_subscribe conf b)) = Running \<and> all_oldest (snd (bc_subscribe conf b)) \<and>
    recv_on (snd (bc_subscribe conf b))"
  using assms
  by (auto simp: open_topic_def bc_subscribe_def newSubscriber_def all_oldest_def enable_broadcast_def
      Let_def split: option.splits)

lemma oldest_unsubscribe:
  assumes "open_topic b"
  shows "status (snd (bc_unsubscribe g i b)) = Running \<and> all_oldest (snd (bc_unsubscribe g i b)) \<and>
    recv_on (snd (bc_unsubscribe g i b))"
  using assms
  by (auto simp: open_topic_def bc_unsubscribe_def all_oldest_def disable_broadcast_def sub_Close_def
      Let_def split: option.splits prod.splits)

lemma open_topic_user:
  assumes "open_topic b" and "fair_order e b" and "user_event drops_oldest e"
  shows "open_topic (bc_step e b) \<and> lastMessage (bc_step e b) = lastMessage b"
proof -
  have inv: "bc_inv (bc_step e b)" using assms(1,2) by (simp add: open_topic_def bc_step_inv)
  have r: "status b = Running" using assms(1) by (simp add: open_topic_def)
  have l: "lastMessage (bc_step e b) = lastMessage b"
    using assms(3) by (intro bc_step_last_other) auto
  show ?thesis
  proof (cases e)
    case (Request q ns)
    have aware: "SubscriberAware (bc_step e b) = SubscriberAware b"
      using Request r by (simp add: bc_request_aware)
    from assms(3) Request consider conf where "q = SubscribeRequest conf" "drops_oldest conf"
      | g i where "q = UnsubscribeRequest g i" by (cases q) auto
    then show ?thesis
    proof cases
      case (1 conf)
      with oldest_subscribe [OF assms(1) 1(2)] inv aware l Request r assms(1) show ?thesis
        by (simp add: open_topic_def bc_request_def)
    next
      case (2 g i)
      with oldest_unsubscribe [OF assms(1), of g i] inv aware l Request r assms(1) show ?thesis
        by (simp add: open_topic_def bc_request_def)
    qed
  next
    case (Consume i)
    with assms(1) inv l show ?thesis
      by (auto simp: open_topic_def bc_consume_def all_oldest_def split: option.splits)
  qed (use assms(3) in simp_all)
qed

subsection \<open>All updates get through\<close>

definition bp_inv :: "string set \<Rightarrow> nat \<Rightarrow> bp \<Rightarrow> bool" where
  "bp_inv names tot s \<longleftrightarrow> open_topic (states_bc s) \<and> 0 < upd_cap s \<and> 
     left s + length (upd_q s) \<le> tot \<and>
     (sw_sends s = None \<or> sw_sends s = Some (sw_own s)) \<and>
     (sw_sends s = None \<longrightarrow> left s + length (upd_q s) < tot \<longrightarrow> lastMessage (states_bc s) = Some (sw_own s))"

lemma bp_inv_step:
  assumes "bp_step drops_oldest s s'" and "bp_inv names tot s"
  shows "bp_inv names tot s'"
  using assms(1)
proof (cases rule: bp_step.cases)
  case (service_sends i u us)
  with left_update [OF service_sends(2,3)] assms(2) show ?thesis by (simp add: bp_inv_def left_def)
next
  case (watcher_takes u q own)
  with assms(2) show ?thesis by (simp add: bp_inv_def left_def)
next
  case (topic_takes m ns ob)
  have "open_topic (states_bc s)" using assms(2) by (simp add: bp_inv_def)
  from open_topic_publish [OF this topic_takes(5)] topic_takes assms(2) show ?thesis
    by (simp add: bp_inv_def left_def del: bc_step.simps)
next
  case (topic_serves e)
  have "open_topic (states_bc s)" using assms(2) by (simp add: bp_inv_def)
  from open_topic_user [OF this topic_serves(3,2)] topic_serves(1) assms(2) show ?thesis
    by (simp add: bp_inv_def left_def del: bc_step.simps)
qed

lemma finite_subscribers:
  assumes "bc_inv b"
  shows "finite (dom (subscribers b))"
proof -
  have "dom (subscribers b) \<subseteq> (\<lambda>i. consumerGroup (the (store b i))) ` {..<next_ref b}"
  proof
    fix n assume "n \<in> dom (subscribers b)"
    then obtain i where i: "subscribers b n = Some i" by auto
    then obtain t where "store b i = Some t" "consumerGroup t = n"
      using assms registeredD by (fastforce simp: bc_inv_def)
    moreover from this have "i < next_ref b" using assms storedD by (fastforce simp: bc_inv_def)
    ultimately show "n \<in> (\<lambda>i. consumerGroup (the (store b i))) ` {..<next_ref b}" by force
  qed
  then show ?thesis by (rule finite_subset) simp
qed

lemma progressI: "bp_step P s s' \<Longrightarrow> work s = Suc (work s') \<Longrightarrow>
    \<exists>s'. bp_step P s s' \<and> work s = Suc (work s')"
  by blast

text \<open>As long as there is something to do, somebody can do it.\<close>

lemma bp_progress:
  assumes "bp_inv names tot s" and "work s \<noteq> 0"
  shows "\<exists>s'. bp_step P s s' \<and> work s = Suc (work s')"
proof (cases "sw_sends s")
  case (Some m)
  let ?b = "states_bc s"
  have b: "open_topic ?b" using assms(1) by (simp add: bp_inv_def)
  have "finite (dom (subscribers ?b))" using b by (intro finite_subscribers) (simp add: open_topic_def)
  from finite_distinct_list [OF this] obtain ns where "set ns = dom (subscribers ?b)" "distinct ns" by metis
  then have "fair_order (Publish m ns (\<lambda>_ _. calm)) ?b" by simp
  then have "bp_step P s (s\<lparr>sw_sends := None, states_bc := bc_step (Publish m ns (\<lambda>_ _. calm)) ?b\<rparr>)"
    using Some b by (intro bp_step.topic_takes) (simp_all add: open_topic_def)
  then show ?thesis by (rule progressI) (simp add: work_def left_def held_def Some)
next
  case None
  show ?thesis
  proof (cases "upd_q s")
    case (Cons u q)
    show ?thesis
      by (rule progressI [OF bp_step.watcher_takes [OF None Cons refl]])
        (simp add: work_def left_def held_def None Cons)
  next
    case Nil
    then have "left s \<noteq> 0" using assms(2) None by (simp add: work_def held_def)
    then obtain i where "i < length (pend s)" "pend s ! i \<noteq> []"
      by (auto simp: left_def in_set_conv_nth)
    then obtain u us where i: "i < length (pend s)" "pend s ! i = u # us" by (cases "pend s ! i") auto
    have room: "length (upd_q s) < upd_cap s" using Nil assms(1) by (simp add: bp_inv_def)
    show ?thesis
      by (rule progressI [OF bp_step.service_sends [OF i room]])
        (use left_update [OF i, of "upd_q s @ [u]"] Nil in \<open>simp add: work_def held_def\<close>)
  qed
qed

text \<open>Everything that is a step towards publishing is one unit of work less.\<close>

lemma bp_step_work:
  assumes "bp_step P s s'"
  shows "work s' = work s \<or> work s = Suc (work s')"
  using assms
proof (cases rule: bp_step.cases)
  case (service_sends i u us)
  with left_update [OF service_sends(2,3), of "upd_q s @ [u]"] show ?thesis by (simp add: work_def held_def)
qed (auto simp: work_def left_def held_def)

lemma bp_inv_reach:
  assumes "bp_reach drops_oldest (bp_init names uss) s" and "uss \<noteq> []"
  shows "bp_inv names (sum_list (map length uss)) s"
  using assms(1)
proof (induction rule: bp_reach_induct)
  case base
  show ?case using assms(2) by (simp add: bp_inv_def bp_init_def left_def open_topic_init)
qed (rule bp_inv_step)

text \<open>
  C8: Watchers hold nobody up. When every subscriber of the states topic drops the oldest snapshot,
  as all watches of the services do, then whatever they receive or leave and however many they
  are: as long as some update has not been published, a service, the states watcher or the
  topic can take a step that brings that nearer, and each update takes three such steps; and
  when all is published, the last message of the topic is the states watcher's map.
\<close>

theorem watchers_hold_nobody_up:
  assumes "bp_reach drops_oldest (bp_init names uss) s" and "uss \<noteq> []"
  shows "status (states_bc s) = Running \<and> work s \<le> 3 * length (concat uss) \<and>
    (work s \<noteq> 0 \<longrightarrow> (\<exists>s'. bp_step drops_oldest s s' \<and> work s = Suc (work s'))) \<and>
    (work s = 0 \<longrightarrow> concat uss \<noteq> [] \<longrightarrow> lastMessage (states_bc s) = Some (sw_own s))"
proof -
  note inv = bp_inv_reach [OF assms]
  have "work s \<le> work (bp_init names uss)" using assms(1)
    by (induction rule: bp_reach_induct) (use bp_step_work in fastforce)+
  then have "work s \<le> 3 * length (concat uss)"
    by (simp add: work_def left_def held_def bp_init_def length_concat)
  moreover have "lastMessage (states_bc s) = Some (sw_own s)" if "work s = 0" "concat uss \<noteq> []"
  proof -
    have "0 < length (concat uss)" using that(2) by blast
    then have "0 < sum_list (map length uss)" by (simp only: length_concat)
    with inv that(1) show ?thesis by (auto simp: bp_inv_def work_def held_def split: if_splits)
  qed
  ultimately show ?thesis using inv bp_progress [OF inv] by (auto simp: bp_inv_def open_topic_def)
qed

subsection \<open>A subscriber that does not receive\<close>

lemma hung_step:
  assumes "bp_step P s s'" and "status (states_bc s) \<noteq> Running" and "length (upd_q s) \<le> upd_cap s"
  shows "status (states_bc s') = status (states_bc s) \<and> upd_cap s' = upd_cap s \<and>
    length (upd_q s') \<le> upd_cap s' \<and> length (pend s') = length (pend s) \<and>
    left s' + length (upd_q s') + held s' = left s + length (upd_q s) + held s"
  using assms(1)
proof (cases rule: bp_step.cases)
  case (service_sends i u us)
  with left_update [OF service_sends(2,3), of "upd_q s @ [u]"] assms(2,3) show ?thesis by (simp add: held_def)
next
  case (topic_serves e)
  with assms(2,3) show ?thesis by (simp add: bc_step_status left_def held_def del: bc_step.simps)
qed (use assms(2,3) in \<open>auto simp: left_def held_def\<close>)


subsection \<open>A run\<close>

text \<open>
  A service that subscribes with the default policy and no buffer, and does not receive; the
  first snapshot is sent to it.
\<close>

definition bp_demo :: "ServiceStateUpdate list list" where
  "bp_demo = [replicate 8 (entering ''a'' Init)]"

lemma bp_reach_step: "bp_reach P s t \<Longrightarrow> bp_step P t u \<Longrightarrow> bp_reach P s u"
  unfolding bp_reach_def by (rule rtranclp.rtrancl_into_rtrancl)

lemma hung_demo:
  "\<exists>s. bp_reach (\<lambda>_. True) (bp_init {''a''} bp_demo) s \<and> status (states_bc s) = Hung 0 \<and>
     upd_q s = [] \<and> upd_cap s = 4 \<and> left s = 7"
proof -
  let ?P = "\<lambda>_ :: SubscriberConfig. True"
  let ?s0 = "bp_init {''a''} bp_demo"
  let ?e = "Request (SubscribeRequest (demo_conf ''x'' 0 None)) [] :: ServiceStates event"
  let ?s1 = "?s0\<lparr>states_bc := bc_step ?e (states_bc ?s0)\<rparr>"
  have 0: "bp_reach ?P ?s0 ?s0" by (simp add: bp_reach_def)
  have 1: "bp_step ?P ?s0 ?s1"
    by (rule bp_step.topic_serves) (simp_all add: bp_init_def demo_simps del: bc_step.simps)
  let ?s2 = "?s1\<lparr>pend := (pend ?s1)[0 := replicate 7 (entering ''a'' Init)], upd_q := upd_q ?s1 @ [entering ''a'' Init]\<rparr>"
  have 2: "bp_step ?P ?s1 ?s2"
    by (rule bp_step.service_sends) (simp_all add: bp_init_def bp_demo_def eval_nat_numeral del: bc_step.simps)
  let ?own = "(sw_own ?s2)(''a'' \<mapsto> mk_update StateInit TransitionEntering)"
  let ?s3 = "?s2\<lparr>upd_q := [], sw_own := ?own, sw_sends := Some ?own\<rparr>"
  have 3: "bp_step ?P ?s2 ?s3"
    by (rule bp_step.watcher_takes [where u = "entering ''a'' Init"]) (simp_all add: bp_init_def del: bc_step.simps)
  let ?s4 = "?s3\<lparr>sw_sends := None, states_bc := bc_step (Publish ?own [''x''] (\<lambda>_ _. calm)) (states_bc ?s3)\<rparr>"
  have 4: "bp_step ?P ?s3 ?s4"
    by (rule bp_step.topic_takes) (simp_all add: bp_init_def demo_simps)
  have "bp_reach ?P ?s0 ?s4"
    using bp_reach_step [OF bp_reach_step [OF bp_reach_step [OF bp_reach_step [OF 0 1] 2] 3] 4] .
  moreover have "status (states_bc ?s4) = Hung 0"
    by (simp add: bp_init_def demo_simps bc_publish_def handle_DropNone_def)
  moreover have "upd_q ?s4 = []" "upd_cap ?s4 = 4" "left ?s4 = 7"
    by (simp_all add: bp_init_def bp_demo_def left_def del: bc_step.simps)
  ultimately show ?thesis by blast
qed


theorem watchers_hold_nobody_up_witness:
  "\<exists>s. bp_step drops_oldest (bp_init {''a''} bp_demo) s \<and> work (bp_init {''a''} bp_demo) = Suc (work s)"
proof -
  have "bp_reach drops_oldest (bp_init {''a''} bp_demo) (bp_init {''a''} bp_demo)" "bp_demo \<noteq> []"
    by (simp_all add: bp_reach_def bp_demo_def)
  note w = watchers_hold_nobody_up [OF this]
  have "work (bp_init {''a''} bp_demo) \<noteq> 0" by (simp add: work_def left_def bp_init_def bp_demo_def)
  with w show ?thesis by blast
qed

end
