(* ===== verification/Rx_PublishRaces.thy ===== *)
theory Rx_PublishRaces
  imports Rx_TopicRaces
begin

section \<open>Publishers and the closing of a topic (intracom/topic.go)\<close>

text \<open>
  \<open>PublishChannel\<close> hands out \<open>publishC\<close> itself, on which publishers send without asking the
  topic. The channel has no buffer: a send waits until the broadcaster takes the message,
  which it does while it runs and \<open>recv\<close> is not nil, and it panics if the channel is closed,
  also when it is closed during the wait. The publishers here send a list of messages each
  with plain sends, as the states watcher of the daemon does; they are interleaved with the
  callers of \<open>Subscribe\<close>, \<open>Unsubscribe\<close> and \<open>Close\<close>, the broadcaster and the consumers (and
  with further publishers, the messages in \<open>tstep\<close>).
\<close>

definition topic_Name :: "'v topic \<Rightarrow> string" where
  "topic_Name t = t_name t"

datatype 'v sending = SendWaits | SendPanics | SendTaken "'v tsys"

definition PublishChannel_send ::
  "'v \<Rightarrow> string list \<Rightarrow> (string \<Rightarrow> nat \<Rightarrow> obs) \<Rightarrow> 'v tsys \<Rightarrow> 'v sending" where
  "PublishChannel_send m order ob s =
     (if s_pub_closed s then SendPanics
      else if status (s_bc s) = Running \<and> recv_on (s_bc s)
      then SendTaken (s\<lparr>s_bc := bc_step (Publish m order ob) (s_bc s)\<rparr>)
      else SendWaits)"

datatype 'v publisher = Publishing "'v list" | Pub_panicked

record 'v psys =
  p_topic :: "'v tsys"
  p_pubs :: "nat \<rightharpoonup> 'v publisher"

inductive pstep :: "'v psys \<Rightarrow> 'v psys \<Rightarrow> bool" where
  topic: "tstep (p_topic s) t \<Longrightarrow> pstep s (s\<lparr>p_topic := t\<rparr>)"
| taken: "p_pubs s i = Some (Publishing (m # ms)) \<Longrightarrow>
    fair_order (Publish m order ob) (s_bc (p_topic s)) \<Longrightarrow>
    PublishChannel_send m order ob (p_topic s) = SendTaken t \<Longrightarrow>
    pstep s (s\<lparr>p_topic := t, p_pubs := (p_pubs s)(i \<mapsto> Publishing ms)\<rparr>)"
| panic: "p_pubs s i = Some (Publishing (m # ms)) \<Longrightarrow>
    PublishChannel_send m order ob (p_topic s) = SendPanics \<Longrightarrow>
    pstep s (s\<lparr>p_pubs := (p_pubs s)(i \<mapsto> Pub_panicked)\<rparr>)"

definition psys_init :: "bool \<Rightarrow> (nat \<rightharpoonup> pc) \<Rightarrow> (nat \<Rightarrow> 'v list) \<Rightarrow> 'v psys" where
  "psys_init aware ths msgs =
     \<lparr>p_topic = tsys_init aware ths, p_pubs = (\<lambda>i. Some (Publishing (msgs i)))\<rparr>"

definition preach :: "'v psys \<Rightarrow> 'v psys \<Rightarrow> bool" where
  "preach = pstep\<^sup>*\<^sup>*"

lemma preach_induct [consumes 1, case_names base step]:
  assumes "preach s t" and "P s"
    and "\<And>u v. P u \<Longrightarrow> pstep u v \<Longrightarrow> P v"
  shows "P t"
  using assms(1) unfolding preach_def by (induction rule: rtranclp_induct) (use assms(2,3) in blast)+

subsection \<open>What the topic guarantees its publishers\<close>

text \<open>A message that is taken changes the broadcaster only.\<close>

lemma SendTakenD:
  "PublishChannel_send m order ob s = SendTaken t \<Longrightarrow>
     \<not> s_pub_closed s \<and> status (s_bc s) = Running \<and> recv_on (s_bc s) \<and>
     t = s\<lparr>s_bc := bc_step (Publish m order ob) (s_bc s)\<rparr>"
  by (simp add: PublishChannel_send_def split: if_splits)

lemma SendPanicsD: "PublishChannel_send m order ob s = SendPanics \<longleftrightarrow> s_pub_closed s"
  by (simp add: PublishChannel_send_def)

text \<open>So a system with publishers does with its topic what the topic does by itself.\<close>

lemma pstep_topic:
  assumes "pstep s s'"
  shows "tstep (p_topic s) (p_topic s') \<or> p_topic s' = p_topic s"
  using assms
proof (cases rule: pstep.cases)
  case (taken i m ms order ob t)
  from SendTakenD [OF taken(4)] taken(3) have "tstep (p_topic s) t"
    using tstep.moved [of "Publish m order ob" "p_topic s"] by (simp del: bc_step.simps)
  with taken(1) show ?thesis by simp
qed simp_all

lemma preach_topic: "preach s s' \<Longrightarrow> treach (p_topic s) (p_topic s')"
proof (induction rule: preach_induct)
  case (step u v)
  with pstep_topic [OF step(2)] show ?case
    unfolding treach_def by (metis rtranclp.rtrancl_into_rtrancl)
qed (simp add: treach_def)

lemma caller_step_pub_closed:
  "caller_step i p s = Some s' \<Longrightarrow> s_pub_closed s \<Longrightarrow> s_pub_closed s'"
  by (induction i p s rule: caller_step.induct)
    (auto split: if_splits option.splits response.splits)

lemma tstep_pub_closed: "tstep s s' \<Longrightarrow> s_pub_closed s \<Longrightarrow> s_pub_closed s'"
  by (erule tstep_elim) (auto dest: caller_step_pub_closed)

lemma pstep_pub_closed: "pstep s s' \<Longrightarrow> s_pub_closed (p_topic s) \<Longrightarrow> s_pub_closed (p_topic s')"
  using pstep_topic tstep_pub_closed by metis

text \<open>A publisher has panicked only if the channel is closed.\<close>

lemma panicked_late:
  assumes "preach (psys_init aware ths msgs) s" and "p_pubs s i = Some Pub_panicked"
  shows "s_pub_closed (p_topic s)"
proof -
  have "\<forall>i. p_pubs s i = Some Pub_panicked \<longrightarrow> s_pub_closed (p_topic s)"
    using assms(1)
  proof (induction rule: preach_induct)
    case (step u v)
    from step(2) show ?case
    proof (cases rule: pstep.cases)
      case (panic j m ms order ob)
      with step(1) show ?thesis by (simp add: SendPanicsD)
    qed (use step pstep_pub_closed [OF step(2)] in \<open>auto split: if_splits\<close>)
  qed (simp add: psys_init_def)
  with assms(2) show ?thesis by blast
qed

text \<open>A closed publish channel has been closed by a call of \<open>Close\<close> that returned nil.\<close>

lemma pub_closed_by_close:
  assumes "all_start ths" and "treach (tsys_init aware ths) s" and "s_pub_closed s"
  obtains k where "s_threads s k = Some (CloDone None)"
proof -
  have "close_inv s"
    using treach_inv [OF assms(2) close_inv_init [OF assms(1)] start_no_panic [OF assms(1)]] by simp
  then show thesis
  proof (cases rule: close_invE)
    case (owned k p)
    with assms(3) have "p = CloDone None" by (cases p rule: closed_at.cases) auto
    with owned that show thesis by blast
  qed (use assms(3) in simp)
qed

text \<open>Nobody publishes on a closed channel: who has something left keeps it or panics.\<close>

lemma late_publisher:
  assumes "preach s s'" and "s_pub_closed (p_topic s)" and "p_pubs s i = Some (Publishing (m # ms))"
  shows "p_pubs s' i = Some (Publishing (m # ms)) \<or> p_pubs s' i = Some Pub_panicked"
proof -
  have "s_pub_closed (p_topic s') \<and>
      (p_pubs s' i = Some (Publishing (m # ms)) \<or> p_pubs s' i = Some Pub_panicked)"
    using assms(1)
  proof (induction rule: preach_induct)
    case (step u v)
    from step(2) show ?case
    proof (cases rule: pstep.cases)
      case (taken j m' ms' order ob t)
      with step(1) SendTakenD [OF taken(4)] show ?thesis by simp
    qed (use step pstep_pub_closed [OF step(2)] in auto)
  qed (use assms in simp)
  then show ?thesis ..
qed

lemma done_publisher:
  assumes "preach s s'" and "p_pubs s i = Some (Publishing [])"
  shows "p_pubs s' i = Some (Publishing [])"
  using assms(1)
proof (induction rule: preach_induct)
  case (step u v)
  from step(2) show ?case by (cases rule: pstep.cases) (use step(1) in auto)
qed (rule assms(2))

lemma can_panic:
  assumes "s_pub_closed (p_topic s)" and "p_pubs s i = Some (Publishing (m # ms))"
  shows "pstep s (s\<lparr>p_pubs := (p_pubs s)(i \<mapsto> Pub_panicked)\<rparr>)"
  by (rule pstep.panic [where m = m and order = "[]" and ob = "\<lambda>_ _. calm"])
    (use assms in \<open>simp_all add: SendPanicsD\<close>)

text \<open>
  C27: Closing a topic kills who still publishes. However publishers, callers, the broadcaster and
  consumers interleave: a publisher that has sent its last message never panics. One that
  panics did so after a call of \<open>Close\<close> closed the channel and returned nil; and once that has
  happened, every publisher with something left, the one that waits in its send included,
  has no way on but the panic, which it can take at once.
\<close>

theorem close_panics_publishers:
  assumes "all_start ths" and "preach (psys_init aware ths msgs) s" and "preach s s'"
  shows "(p_pubs s i = Some (Publishing []) \<longrightarrow> p_pubs s' i = Some (Publishing [])) \<and>
    (p_pubs s i = Some Pub_panicked \<longrightarrow> (\<exists>k. s_threads (p_topic s) k = Some (CloDone None))) \<and>
    ((\<exists>k. s_threads (p_topic s) k = Some (CloDone None)) \<longrightarrow> p_pubs s i = Some (Publishing (m # ms)) \<longrightarrow>
       p_pubs s' i \<in> {Some (Publishing (m # ms)), Some Pub_panicked} \<and>
       pstep s (s\<lparr>p_pubs := (p_pubs s)(i \<mapsto> Pub_panicked)\<rparr>))"
proof -
  have r: "treach (tsys_init aware ths) (p_topic s)"
    using preach_topic [OF assms(2)] by (simp add: psys_init_def)
  have "s_pub_closed (p_topic s)" if "s_threads (p_topic s) k = Some (CloDone None)" for k
    using close_inv_flags [OF _ that] treach_inv [OF r close_inv_init [OF assms(1)] start_no_panic [OF assms(1)]]
    by simp
  then have late: "s_pub_closed (p_topic s)" if "\<exists>k. s_threads (p_topic s) k = Some (CloDone None)"
    using that by blast
  have "\<exists>k. s_threads (p_topic s) k = Some (CloDone None)" if "p_pubs s i = Some Pub_panicked"
    using pub_closed_by_close [OF assms(1) r panicked_late [OF assms(2) that]] by metis
  with done_publisher [OF assms(3)] late_publisher [OF assms(3) late] can_panic [OF late]
  show ?thesis by simp
qed

subsection \<open>A topic without subscribers\<close>

text \<open>
  A subscriber-aware topic takes no message before somebody subscribes: no request but those
  of \<open>Unsubscribe\<close> and \<open>Close\<close> reaches the broadcaster, and it stays off.
\<close>

definition no_subscribers :: "(nat \<rightharpoonup> pc) \<Rightarrow> bool" where
  "no_subscribers ths \<longleftrightarrow> (\<forall>i c. ths i \<noteq> Some (SubCheck c))"

fun sub_pc :: "pc \<Rightarrow> bool" where
  "sub_pc (SubCheck c) = True"
| "sub_pc (SubSend c) = True"
| "sub_pc SubWait = True"
| "sub_pc (SubDone r e) = True"
| "sub_pc _ = False"

definition off_inv :: "'v tsys \<Rightarrow> bool" where
  "off_inv s \<longleftrightarrow> \<not> recv_on (s_bc s) \<and> (\<forall>i p. s_threads s i = Some p \<longrightarrow> \<not> sub_pc p) \<and>
     (\<forall>i c. (i, SubscribeRequest c) \<notin> set (s_queue s))"

lemma caller_step_bc: "caller_step i p s = Some s' \<Longrightarrow> s_bc s' = s_bc s"
  by (induction i p s rule: caller_step.induct)
    (auto split: if_splits option.splits response.splits)

lemma caller_step_sub:
  assumes "caller_step i p s = Some s'" and "\<not> sub_pc p"
  shows "\<exists>q. s_threads s' i = Some q \<and> \<not> sub_pc q"
  using assms by (cases p) (auto split: if_splits option.splits response.splits)

lemma caller_step_queue:
  assumes "caller_step i p s = Some s'" and "\<not> sub_pc p" and "(j, SubscribeRequest c) \<in> set (s_queue s')"
  shows "(j, SubscribeRequest c) \<in> set (s_queue s)"
  using assms by (cases p) (auto split: if_splits option.splits response.splits)

lemma give_up_off: "give_up p = Some q \<Longrightarrow> \<not> sub_pc p \<Longrightarrow> \<not> sub_pc q"
  by (induction p rule: give_up.induct) auto

lemma disable_off: "\<not> recv_on b \<Longrightarrow> \<not> recv_on (disable_broadcast b)"
  by (simp add: disable_broadcast_def)

lemma close_each_recv_on [simp]: "recv_on (close_each order b) = recv_on b"
  by (induction order arbitrary: b) (simp_all add: close_one_def split: option.split)

lemma bc_request_off:
  assumes "\<not> recv_on b" and "\<forall>c. r \<noteq> SubscribeRequest c"
  shows "\<not> recv_on (snd (bc_request order r b))"
  using assms
  by (cases r) (simp_all add: bc_request_def bc_unsubscribe_def bc_close_def disable_off Let_def
      split: option.split prod.split)

lemma off_inv_step:
  assumes "tstep s s'" and "off_inv s"
  shows "off_inv s'"
  using assms(1)
proof (cases rule: tstep.cases)
  case (caller i p)
  have "\<not> sub_pc p" using assms(2) caller(1) by (simp add: off_inv_def)
  note st = caller_step_bc [OF caller(2)] caller_step_sub [OF caller(2) this]
    caller_step_queue [OF caller(2) this]
  have "\<not> sub_pc q" if "s_threads s' j = Some q" for j q
    using that st(2) caller_step_other [OF caller(2)] assms(2) by (cases "j = i") (auto simp: off_inv_def)
  with st(1,3) assms(2) show ?thesis by (auto simp: off_inv_def)
next
  case (gave_up i p q)
  have "\<not> sub_pc p" using assms(2) gave_up(2) by (simp add: off_inv_def)
  with give_up_off [OF gave_up(3)] assms(2) gave_up(1) show ?thesis by (simp add: off_inv_def)
next
  case (served i r order resp b)
  have "\<forall>c. r \<noteq> SubscribeRequest c" using assms(2) served(2) by (auto simp: off_inv_def)
  with bc_request_off [of "s_bc s" r order] assms(2) served show ?thesis by (simp add: off_inv_def)
next
  case (moved e)
  then show ?thesis using assms(2)
    by (cases e) (auto simp: off_inv_def bc_consume_def split: option.split)
qed (use assms(2) in \<open>simp add: off_inv_def\<close>)

lemma off_publishers:
  assumes "preach s s'" and "off_inv (p_topic s)" and "p_pubs s i = Some (Publishing (m # ms))"
  shows "off_inv (p_topic s') \<and>
    (p_pubs s' i = Some (Publishing (m # ms)) \<or> p_pubs s' i = Some Pub_panicked)"
  using assms(1)
proof (induction rule: preach_induct)
  case (step u v)
  have "off_inv (p_topic v)" using pstep_topic [OF step(2)] off_inv_step step(1) by metis
  moreover from step(2) have
    "p_pubs v i = Some (Publishing (m # ms)) \<or> p_pubs v i = Some Pub_panicked"
  proof (cases rule: pstep.cases)
    case (taken j m' ms' order ob t)
    with step(1) SendTakenD [OF taken(4)] show ?thesis by (simp add: off_inv_def)
  qed (use step(1) in auto)
  ultimately show ?case by blast
qed (use assms in simp)

text \<open>
  In particular: on a subscriber-aware topic that nobody subscribes to, no publisher ever gets
  a message off, and the first call of \<open>Close\<close> turns every one of them into a panic.
\<close>

theorem unheard_publishers_panic:
  assumes "all_start ths" and "no_subscribers ths"
    and "preach (psys_init True ths msgs) s" and "msgs i = m # ms"
  shows "p_pubs s i \<in> {Some (Publishing (msgs i)), Some Pub_panicked} \<and>
    (p_pubs s i = Some Pub_panicked \<longrightarrow> s_pub_closed (p_topic s)) \<and>
    (s_pub_closed (p_topic s) \<longrightarrow> p_pubs s i = Some (Publishing (msgs i)) \<longrightarrow>
       pstep s (s\<lparr>p_pubs := (p_pubs s)(i \<mapsto> Pub_panicked)\<rparr>))"
proof -
  have "\<not> sub_pc p" if "ths j = Some p" for j p
    using assms(1,2) that unfolding all_start_def no_subscribers_def
    by (cases p) auto
  then have "off_inv (p_topic (psys_init True ths msgs))"
    by (auto simp: off_inv_def psys_init_def tsys_init_def bc_init_def)
  from off_publishers [OF assms(3) this, of i m ms] panicked_late [OF assms(3)] can_panic [of s i m ms]
    assms(4)
  show ?thesis by (simp add: psys_init_def)
qed

subsection \<open>A run\<close>

lemma preach_of_treach: "treach t t' \<Longrightarrow> p_topic s = t \<Longrightarrow> preach s (s\<lparr>p_topic := t'\<rparr>)"
  unfolding treach_def
proof (induction rule: rtranclp_induct)
  case base
  then have "s\<lparr>p_topic := t\<rparr> = s" by (cases s) simp
  then show ?case by (simp add: preach_def)
next
  case (step u v)
  have "pstep (s\<lparr>p_topic := u\<rparr>) (s\<lparr>p_topic := v\<rparr>)"
    using pstep.topic [of "s\<lparr>p_topic := u\<rparr>" v] step.hyps by simp
  with step show ?case by (auto simp: preach_def)
qed

text \<open>Somebody closes the topic while publisher \<open>0\<close> waits to send.\<close>

lemma closed_while_waiting:
  "\<exists>s :: string psys. preach (psys_init True [0 \<mapsto> CloSwap] (\<lambda>_. [''x''])) s \<and>
     s_threads (p_topic s) 0 = Some (CloDone None) \<and> p_pubs s 0 = Some (Publishing [''x''])"
proof -
  let ?ms = "[Caller 0, Caller 0, Serve [], Caller 0, Caller 0, Caller 0]"
  let ?t = "tsys_init True [0 \<mapsto> CloSwap] :: string tsys"
  have "\<exists>t. play ?ms ?t = Some t \<and> s_threads t 0 = Some (CloDone None)"
    by (simp add: tsys_init_def goto_def bc_init_def bc_request_def bc_close_def)
  then obtain t where t: "play ?ms ?t = Some t" "s_threads t 0 = Some (CloDone None)" by blast
  from preach_of_treach [OF play_treach [OF t(1)], of "psys_init True [0 \<mapsto> CloSwap] (\<lambda>_. [''x''])"] t(2)
  show ?thesis by (auto simp: psys_init_def)
qed

theorem close_panics_publishers_witness:
  "\<exists>s s' :: string psys. preach (psys_init True [0 \<mapsto> CloSwap] (\<lambda>_. [''x''])) s \<and> pstep s s' \<and>
     p_pubs s 0 = Some (Publishing [''x'']) \<and> p_pubs s' 0 = Some Pub_panicked"
proof -
  have st: "all_start [0 \<mapsto> CloSwap]" by (simp add: all_start_def)
  obtain s :: "string psys" where s: "preach (psys_init True [0 \<mapsto> CloSwap] (\<lambda>_. [''x''])) s"
    "s_threads (p_topic s) 0 = Some (CloDone None)" "p_pubs s 0 = Some (Publishing [''x''])"
    using closed_while_waiting by blast
  have "preach s s" by (simp add: preach_def)
  from close_panics_publishers [OF st s(1) this, of 0 "''x''" "[]"] s
  have "pstep s (s\<lparr>p_pubs := (p_pubs s)(0 \<mapsto> Pub_panicked)\<rparr>)" by blast
  moreover have "p_pubs (s\<lparr>p_pubs := (p_pubs s)(0 \<mapsto> Pub_panicked)\<rparr>) 0 = Some Pub_panicked" by simp
  ultimately show ?thesis using s by blast
qed

theorem unheard_publishers_panic_witness:
  "\<exists>s :: string psys. preach (psys_init True [0 \<mapsto> CloSwap] (\<lambda>_. [''x''])) s \<and>
     s_pub_closed (p_topic s) \<and> p_pubs s 7 \<in> {Some (Publishing [''x'']), Some Pub_panicked}"
proof -
  have st: "all_start [0 \<mapsto> CloSwap]" "no_subscribers [0 \<mapsto> CloSwap]"
    by (simp_all add: all_start_def no_subscribers_def)
  obtain s :: "string psys" where s: "preach (psys_init True [0 \<mapsto> CloSwap] (\<lambda>_. [''x''])) s"
    "s_threads (p_topic s) 0 = Some (CloDone None)"
    using closed_while_waiting by blast
  have r: "treach (tsys_init True [0 \<mapsto> CloSwap]) (p_topic s)"
    using preach_topic [OF s(1)] by (simp add: psys_init_def)
  have "s_pub_closed (p_topic s)"
    using close_inv_flags [OF _ s(2)] treach_inv [OF r close_inv_init [OF st(1)] start_no_panic [OF st(1)]]
    by simp
  with unheard_publishers_panic [OF st s(1) refl] s(1) show ?thesis by blast
qed

end
