(* ===== verification/Rx_StartSystem.thy ===== *)
theory Rx_StartSystem
  imports Rx_DaemonProps Rx_Rpc
begin

section \<open>The goroutines of Start and what they log (daemon.go)\<close>

text \<open>
  \<open>daemon_Start\<close> takes the order in which the updates of the services arrive as an input.
  Here is where it comes from: the goroutine of \<open>Start\<close> itself, those of the services, of
  the signal watcher and of the RPC server, as lists of events that are interleaved freely,
  apart from the wait group and the closing of the update channel. With them comes what
  \<open>Start\<close> writes to the internal log and, after a panic, to the services' log.
\<close>

type_synonym log_entry = "Level \<times> string \<times> Field list"

text \<open>
  \<open>Sends n u\<close> is a send of the goroutine of service \<open>n\<close> on the update channel, which waits
  until there is room; \<open>Go\<close> starts a goroutine; \<open>Runs_on\<close> is never over.
\<close>

datatype dev = ILog log_entry | SLog log_entry | Sends string ServiceStateUpdate | WgAdd | WgDone
  | WgWait | CloseUpdates | Go "dev list" | Runs_on

subsection \<open>The goroutines\<close>

definition nameField :: "daemon \<Rightarrow> Field" where
  "nameField d = log_String ''rxd'' (d_name d)"

definition service_events :: "daemon \<Rightarrow> string \<Rightarrow> manager_value \<Rightarrow> service_run \<Rightarrow> dev list" where
  "service_events d nm m run =
     (case manage nm m run of (us, x) \<Rightarrow>
       (let svc = log_String ''service_name'' nm;
            exited = [WgDone, ILog (LevelInfo, ''service has exited'', [svc, nameField d])]
        in ILog (LevelInfo, ''starting service'', [svc, nameField d]) # map (Sends nm) us @
             (case x of
                Still_running \<Rightarrow> [Runs_on]
              | Returned \<Rightarrow> exited
              | Panic_out p \<Rightarrow>
                  SLog (LevelError, ''recovered from panic'',
                        [log_String ''service'' nm, log_Any id ''error'' p]) #
                  ILog (LevelError, ''recovered from panic'',
                        [svc, log_Any id ''error'' p, nameField d]) #
                  Sends nm (final_update nm) # exited)))"

text \<open>
  What else \<open>Start\<close> does not decide: the messages of a custom prestart pipeline, the signals,
  what registering the RPC handler answers, and whether the RPC server ends, by \<open>Shutdown\<close>
  (\<open>True\<close>) or with another error.
\<close>

record start_inputs =
  prestart_msgs :: "string list"
  os_events :: "os_event list"
  register_err :: "go_error option"
  serve_end :: "bool option"

definition signal_events :: "start_inputs \<Rightarrow> daemon \<Rightarrow> dev list" where
  "signal_events x d =
     (case signal_watcher d (os_events x) of None \<Rightarrow> [] | Some (e, cancels) \<Rightarrow> [ILog e])"

definition rpc_events :: "start_inputs \<Rightarrow> daemon \<Rightarrow> rpc_server \<Rightarrow> dev list" where
  "rpc_events x d srv =
     ILog (LevelInfo, ''starting rpc server at '' @ srv_Addr srv, [nameField d]) #
     (case serve_end x of
        None \<Rightarrow> []
      | Some False \<Rightarrow> [ILog (LevelError, ''error starting rpc server'', [nameField d])]
      | Some True \<Rightarrow>
          [ILog (LevelInfo, ''stopped running rpc server and exited successfully'', [nameField d])])"

subsection \<open>Start\<close>

fun emitted :: "pevent list \<Rightarrow> string list" where
  "emitted [] = []"
| "emitted (Emit l # es) = dl_Message l # emitted es"
| "emitted (_ # es) = emitted es"

definition prestart_events :: "start_env \<Rightarrow> start_inputs \<Rightarrow> daemon \<Rightarrow> dev list" where
  "prestart_events env x d =
     map (\<lambda>msg. ILog (LevelError, ''error in prestart pipeline'', [log_String ''error'' msg, nameField d]))
       (case d_prestart d of
          BuiltInPipeline p \<Rightarrow> emitted (fst (pipeline_Run p (rounds env)))
        | CustomPipeline i \<Rightarrow> prestart_msgs x)"

definition launch :: "start_env \<Rightarrow> daemon \<Rightarrow> string \<Rightarrow> dev list" where
  "launch env d n =
     (case d_managers d n of
        None \<Rightarrow> [ILog (LevelError, ''error getting manager for service'',
                       [log_String ''service_name'' n, nameField d])]
      | Some m \<Rightarrow> [WgAdd, Go (service_events d n m (runs env n))])"

definition launch_rpc :: "start_inputs \<Rightarrow> daemon \<Rightarrow> dev list" where
  "launch_rpc x d =
     (if rpcEnabled d
      then (case start_server (register_err x) d of
              None \<Rightarrow> [ILog (LevelError, ''error registering rpc handler'', [nameField d])]
            | Some srv \<Rightarrow> [Go (rpc_events x d srv)])
      else [])"

text \<open>
  After the services have exited. The internal logger is closed if it is an \<open>io.Closer\<close>;
  no logger of the package is one, so nothing is closed here.
\<close>

definition clean_up :: "start_env \<Rightarrow> start_inputs \<Rightarrow> daemon \<Rightarrow> ServiceStates intracom \<Rightarrow> dev list" where
  "clean_up env x d ic =
     (if rpcEnabled d \<and> register_err x = None \<and> shutdown_err env \<noteq> None then []
      else
        ILog (LevelDebug, ''closing states watcher'', [nameField d]) # CloseUpdates #
        (if snapshots_taken env < length (watched env) then [Runs_on]
         else
           ILog (LevelDebug, ''states watcher closed'', [nameField d]) #
           ILog (LevelDebug, ''closing intracom'', [nameField d]) #
           (case fst (intracom_Close (topic_orders env) (Some ic)) of
              None \<Rightarrow> [Runs_on]
            | Some r \<Rightarrow>
               [case r of
                  Some e \<Rightarrow> ILog (LevelError, ''error closing intracom'',
                              [log_Error ''error'' (ic_error_msg e), nameField d])
                | None \<Rightarrow> ILog (LevelDebug, ''intracom closed'', [nameField d]),
                ILog (LevelDebug, ''services log channel closed'', [nameField d])])))"

definition start_events :: "start_env \<Rightarrow> start_inputs \<Rightarrow> daemon \<Rightarrow> dev list" where
  "start_events env x d =
     (if d_started d \<or> d_services d = Map.empty then []
      else
        Go (signal_events x d) # prestart_events env x d @
        (if \<not> prestart_ends env d then [Runs_on]
         else
           ILog (LevelDebug, ''creating intracom topic'',
                 [log_String ''topic'' internalServiceStates, nameField d]) #
           (case CreateTopic (NamedType ''ServiceStates'') (Some (d_ic d)) states_conf of
              (Inl e, _) \<Rightarrow>
                [ILog (LevelError, ''error creating intracom topic'',
                       [log_Error ''error'' (ic_error_msg e), nameField d])]
            | (Inr r, None) \<Rightarrow> [Runs_on]
            | (Inr r, Some ic) \<Rightarrow>
                ILog (LevelInfo, ''starting service states watcher'', [nameField d]) #
                ILog (LevelInfo, ''starting '' @ Itoa (int (card (dom (d_services d)))) @ '' services'',
                      [nameField d]) #
                concat (map (launch env d) (order env)) @ launch_rpc x d @
                WgWait # clean_up env x d (services_do env ic))))"

text \<open>
  What the goroutine of the states watcher logs: an entry for each update it receives, the
  one included whose snapshot the topic has not taken; and its end, once the channel is
  closed and all snapshots are taken.
\<close>

definition update_entry :: "ServiceStateUpdate \<Rightarrow> log_entry" where
  "update_entry u =
     (LevelDebug, ''states transition update'',
      [log_String ''service_name'' (Name u), log_String ''state'' (State_String (upd_State u))])"

definition statesWatcher_log :: "nat \<Rightarrow> bool \<Rightarrow> ServiceStateUpdate list \<Rightarrow> log_entry list" where
  "statesWatcher_log k over us =
     (LevelDebug, ''states topic publish channel'', [log_String ''topic'' internalServiceStates]) #
     map update_entry (take (Suc k) us) @
     (if over \<and> length us \<le> k then [(LevelDebug, ''states watcher completed'', [])] else [])"

subsection \<open>The system\<close>

text \<open>
  The goroutines with what is left of each, the first being that of \<open>Start\<close>; the counter of
  the wait group; the entries and updates so far. A send on a closed channel, a second
  close of it and a counter below zero panic.
\<close>

record dsys =
  thrs :: "dev list list"
  wg :: nat
  ilog :: "log_entry list"
  slog :: "log_entry list"
  upds :: "(string \<times> ServiceStateUpdate) list"
  upd_closed :: bool
  crashed :: bool

fun dev_exec :: "dev \<Rightarrow> dsys \<Rightarrow> dsys option" where
  "dev_exec (ILog e) s = Some (s\<lparr>ilog := ilog s @ [e]\<rparr>)"
| "dev_exec (SLog e) s = Some (s\<lparr>slog := slog s @ [e]\<rparr>)"
| "dev_exec (Sends n u) s =
     Some (if upd_closed s then s\<lparr>crashed := True\<rparr> else s\<lparr>upds := upds s @ [(n, u)]\<rparr>)"
| "dev_exec WgAdd s = Some (s\<lparr>wg := Suc (wg s)\<rparr>)"
| "dev_exec WgDone s = Some (if wg s = 0 then s\<lparr>crashed := True\<rparr> else s\<lparr>wg := wg s - 1\<rparr>)"
| "dev_exec WgWait s = (if wg s = 0 then Some s else None)"
| "dev_exec CloseUpdates s =
     Some (if upd_closed s then s\<lparr>crashed := True\<rparr> else s\<lparr>upd_closed := True\<rparr>)"
| "dev_exec (Go es) s = Some (s\<lparr>thrs := thrs s @ [es]\<rparr>)"
| "dev_exec Runs_on s = None"

definition dev_step :: "nat \<Rightarrow> dsys \<Rightarrow> dsys option" where
  "dev_step i s =
     (if i < length (thrs s) \<and> \<not> crashed s
      then (case thrs s ! i of
              [] \<Rightarrow> None
            | e # es \<Rightarrow> dev_exec e (s\<lparr>thrs := (thrs s)[i := es]\<rparr>))
      else None)"

fun dev_run :: "nat list \<Rightarrow> dsys \<Rightarrow> dsys option" where
  "dev_run [] s = Some s"
| "dev_run (i # is) s = (case dev_step i s of None \<Rightarrow> None | Some s' \<Rightarrow> dev_run is s')"

definition start_init :: "dev list \<Rightarrow> dsys" where
  "start_init es =
     \<lparr>thrs = [es], wg = 0, ilog = [], slog = [], upds = [], upd_closed = False, crashed = False\<rparr>"

lemma dev_run_induct [consumes 1, case_names step]:
  assumes "dev_run is s = Some t" and "P s"
    and "\<And>i s s'. P s \<Longrightarrow> dev_step i s = Some s' \<Longrightarrow> P s'"
  shows "P t"
  using assms(1,2)
proof (induction "is" arbitrary: s)
  case (Cons i js)
  then obtain s' where "dev_step i s = Some s'" "dev_run js s' = Some t" by (auto split: option.splits)
  with Cons.IH Cons.prems(2) assms(3) show ?case by blast
qed simp

lemma dev_stepE:
  assumes "dev_step i s = Some s'"
  obtains e es where "i < length (thrs s)" "\<not> crashed s" "thrs s ! i = e # es"
    "dev_exec e (s\<lparr>thrs := (thrs s)[i := es]\<rparr>) = Some s'"
  using assms by (auto simp: dev_step_def split: if_splits list.splits)

end
