(* ===== verification/Rx_StartProps.thy ===== *)
theory Rx_StartProps
  imports Rx_StartSystem
begin

section \<open>What holds however Start and its goroutines interleave\<close>

subsection \<open>The update channel is closed after the last send\<close>

text \<open>
  A goroutine that only logs; one that still holds the wait group; and what is left of
  \<open>Start\<close>, before it has waited and after.
\<close>

fun is_log :: "dev \<Rightarrow> bool" where
  "is_log (ILog e) = True"
| "is_log (SLog e) = True"
| "is_log _ = False"

abbreviation quiet :: "dev list \<Rightarrow> bool" where "quiet es \<equiv> list_all is_log es"

fun worker :: "dev list \<Rightarrow> bool" where
  "worker (ILog e # es) = worker es"
| "worker (SLog e # es) = worker es"
| "worker (Sends n u # es) = worker es"
| "worker (WgDone # es) = quiet es"
| "worker (Runs_on # es) = (es = [])"
| "worker _ = False"

fun waited :: "bool \<Rightarrow> dev list \<Rightarrow> bool" where
  "waited c [] = True"
| "waited c (ILog e # es) = waited c es"
| "waited c (CloseUpdates # es) = (\<not> c \<and> waited True es)"
| "waited c (Runs_on # es) = (es = [])"
| "waited c _ = False"

fun launching :: "dev list \<Rightarrow> bool" where
  "launching [] = True"
| "launching (ILog e # es) = launching es"
| "launching (WgAdd # Go w # es) = (worker w \<and> launching es)"
| "launching (Go q # es) = (quiet q \<and> launching es)"
| "launching (WgWait # es) = waited False es"
| "launching (Runs_on # es) = (es = [])"
| "launching _ = False"

lemma launching_WgAdd [simp]:
  "launching (WgAdd # es) \<longleftrightarrow> (\<exists>w es'. es = Go w # es' \<and> worker w \<and> launching es')"
  by (cases es rule: list.exhaust; cases "hd es") auto

lemma quiet_not_worker [simp]: "quiet es \<Longrightarrow> \<not> worker es"
  by (induction es rule: worker.induct) auto

definition workers :: "dev list list \<Rightarrow> nat" where
  "workers T = length (filter worker T)"

lemma workers_simps [simp]:
  "workers [] = 0" "workers (es # T) = (if worker es then Suc (workers T) else workers T)"
  "workers (T @ U) = workers T + workers U"
  by (simp_all add: workers_def)

lemma workers_update:
  "j < length T \<Longrightarrow> workers T + (if worker es then 1 else 0) =
     workers (T[j := es]) + (if worker (T ! j) then 1 else 0)"
proof (induction T arbitrary: j)
  case (Cons t T)
  then show ?case by (cases j) auto
qed simp

definition main_phase :: "dev list \<Rightarrow> nat \<Rightarrow> dsys \<Rightarrow> bool" where
  "main_phase M k s \<longleftrightarrow>
     (\<not> upd_closed s \<and> launching M \<and> wg s = k) \<or>
     (\<not> upd_closed s \<and> (\<exists>w es. M = Go w # es \<and> worker w \<and> launching es) \<and> wg s = Suc k) \<or>
     (waited (upd_closed s) M \<and> wg s = 0 \<and> k = 0)"

definition start_inv :: "dsys \<Rightarrow> bool" where
  "start_inv s \<longleftrightarrow> \<not> crashed s \<and>
     (\<exists>M T. thrs s = M # T \<and> list_all (\<lambda>es. worker es \<or> quiet es) T \<and> main_phase M (workers T) s)"

lemma main_step:
  assumes "main_phase (e # es) (workers T) s" and "\<not> crashed s"
    and "list_all (\<lambda>es. worker es \<or> quiet es) T"
    and "dev_exec e (s\<lparr>thrs := es # T\<rparr>) = Some s'"
  shows "start_inv s'"
  using assms
  by (cases e) (auto simp: start_inv_def main_phase_def split: if_splits)

lemma other_step:
  assumes "main_phase M (workers T) s" and "\<not> crashed s"
    and "list_all (\<lambda>es. worker es \<or> quiet es) T" and "j < length T" and "T ! j = e # es"
    and "dev_exec e (s\<lparr>thrs := M # T[j := es]\<rparr>) = Some s'"
  shows "start_inv s'"
proof -
  have ok: "worker (e # es) \<or> quiet (e # es)" using assms(3,4,5) by (metis list_all_length)
  then have ok': "worker es \<or> quiet es" by (cases e) auto
  then have all: "list_all (\<lambda>es. worker es \<or> quiet es) (T[j := es])"
    using assms(3) by (auto simp: list_all_iff dest!: set_update_subset_insert [THEN subsetD])
  note w = workers_update [OF assms(4), of es]
  show ?thesis
  proof (cases e)
    case WgDone
    then have "worker (T ! j)" "\<not> worker es" "quiet es" using ok assms(5) by auto
    then have "workers T = Suc (workers (T[j := es]))" using w by simp
    then show ?thesis using assms(1,2,6) WgDone all
      by (auto simp: start_inv_def main_phase_def)
  next
    case (Sends n u)
    then have "worker (T ! j)" "worker es" using ok assms(5) by auto
    then have "workers T = workers (T[j := es])" using w by simp
    moreover have "workers T \<noteq> 0" using \<open>worker (T ! j)\<close> assms(4)
      by (auto simp: workers_def filter_empty_conv)
    ultimately have "workers T = workers (T[j := es])" "workers (T[j := es]) \<noteq> 0" by simp_all
    then show ?thesis using assms(1,2,6) Sends all
      by (auto simp: start_inv_def main_phase_def)
  next
    case (ILog x)
    then have "worker (T ! j) \<longleftrightarrow> worker es" using ok assms(5) by auto
    then have "workers T = workers (T[j := es])" using w by auto
    then show ?thesis using assms(1,2,6) ILog all by (auto simp: start_inv_def main_phase_def)
  next
    case (SLog x)
    then have "worker (T ! j) \<longleftrightarrow> worker es" using ok assms(5) by auto
    then have "workers T = workers (T[j := es])" using w by auto
    then show ?thesis using assms(1,2,6) SLog all by (auto simp: start_inv_def main_phase_def)
  qed (use ok assms(6) in auto)
qed

lemma start_inv_step: "start_inv s \<Longrightarrow> dev_step i s = Some s' \<Longrightarrow> start_inv s'"
proof -
  assume inv: "start_inv s" and step: "dev_step i s = Some s'"
  from inv obtain M T where mt: "thrs s = M # T" "\<not> crashed s"
    "list_all (\<lambda>es. worker es \<or> quiet es) T" "main_phase M (workers T) s"
    by (auto simp: start_inv_def)
  from step show ?thesis
  proof (rule dev_stepE)
    fix e es assume s: "i < length (thrs s)" "thrs s ! i = e # es"
      and x: "dev_exec e (s\<lparr>thrs := (thrs s)[i := es]\<rparr>) = Some s'"
    show ?thesis
    proof (cases i)
      case 0
      with s x mt show ?thesis by (intro main_step [of e es T s s']) auto
    next
      case (Suc j)
      with s x mt show ?thesis by (intro other_step [of M T s j e es s']) auto
    qed
  qed
qed

lemma service_events_worker: "worker (service_events d n m run)"
proof -
  have "worker (map (Sends n) us @ es) \<longleftrightarrow> worker es" for us es by (induction us) simp_all
  then show ?thesis
    by (auto simp: service_events_def Let_def split: prod.split mexit.split)
qed

lemma launching_logs: "launching (map (\<lambda>m. ILog (f m)) ms @ es) \<longleftrightarrow> launching es"
  by (induction ms) simp_all

lemma launching_services: "launching (concat (map (launch env d) ns) @ es) \<longleftrightarrow> launching es"
  by (induction ns) (auto simp: launch_def service_events_worker split: option.split)

lemma waited_clean_up: "waited False (clean_up env x d ic)"
  by (auto simp: clean_up_def split: option.split)

lemma launching_rpc: "launching (launch_rpc x d @ es) \<longleftrightarrow> launching es"
  by (auto simp: launch_rpc_def rpc_events_def split: option.split bool.split)

lemma launching_start: "launching (start_events env x d)"
proof -
  have "quiet (signal_events x d)" by (auto simp: signal_events_def split: option.split)
  then show ?thesis
    by (auto simp: start_events_def prestart_events_def launching_logs launching_services
        launching_rpc waited_clean_up split: prod.split sum.split option.split)
qed

lemma start_inv_init: "start_inv (start_init (start_events env x d))"
  by (simp add: start_inv_def start_init_def main_phase_def launching_start)

lemma start_inv_run:
  "dev_run is (start_init (start_events env x d)) = Some s \<Longrightarrow> start_inv s"
  by (induction rule: dev_run_induct) (auto intro: start_inv_init start_inv_step)

text \<open>
  C13: No send on a closed channel. However the goroutines of a daemon interleave, the update
  channel is closed once, the counter of the wait group does not go below zero, and nothing
  panics; and once it is closed, no goroutine has anything left but log entries, unless it
  is that of \<open>Start\<close>.
\<close>

theorem updates_never_hit_closed_channel:
  assumes "dev_run is (start_init (start_events env x d)) = Some s"
  shows "\<not> crashed s \<and> (upd_closed s \<longrightarrow> (\<forall>es \<in> set (tl (thrs s)). \<forall>e \<in> set es. is_log e))"
proof -
  from start_inv_run [OF assms] obtain M T where mt: "thrs s = M # T" "\<not> crashed s"
    "list_all (\<lambda>es. worker es \<or> quiet es) T" "main_phase M (workers T) s"
    by (auto simp: start_inv_def)
  moreover have "upd_closed s \<Longrightarrow> workers T = 0" using mt(4) by (auto simp: main_phase_def)
  ultimately show ?thesis
    by (auto simp: list_all_iff workers_def filter_empty_conv)
qed

end
