(* ===== verification/Rx_StartArrivals.thy ===== *)
theory Rx_StartArrivals
  imports Rx_StartProps
begin

section \<open>The arrivals are the interleavings of what the services send\<close>

text \<open>
  What a goroutine, with those it starts, sends for one service; and that at most one of
  them does.
\<close>

fun sends :: "string \<Rightarrow> dev list \<Rightarrow> ServiceStateUpdate list" where
  "sends n [] = []"
| "sends n (Sends k u # es) = (if k = n then u # sends n es else sends n es)"
| "sends n (Go w # es) = sends n w @ sends n es"
| "sends n (e # es) = sends n es"

fun lone :: "string \<Rightarrow> dev list \<Rightarrow> bool" where
  "lone n [] = True"
| "lone n (Go w # es) = (lone n w \<and> lone n es \<and> (sends n w = [] \<or> sends n es = []))"
| "lone n (e # es) = lone n es"

definition arrived :: "string \<Rightarrow> dsys \<Rightarrow> ServiceStateUpdate list" where
  "arrived n s = map snd (filter (\<lambda>(k, u). k = n) (upds s))"

definition sends_inv :: "string \<Rightarrow> ServiceStateUpdate list \<Rightarrow> dsys \<Rightarrow> bool" where
  "sends_inv n us s \<longleftrightarrow> list_all (lone n) (thrs s) \<and>
     (\<exists>j < length (thrs s). arrived n s @ sends n (thrs s ! j) = us \<and>
        (\<forall>i < length (thrs s). i \<noteq> j \<longrightarrow> sends n (thrs s ! i) = []))"

lemma sends_inv_advance:
  assumes "sends_inv n us s" and "i < length (thrs s)" and "thrs s ! i = e # es"
    and "thrs s' = (thrs s)[i := es]" and "arrived n s' = arrived n s @ v"
    and "sends n (e # es) = v @ sends n es" and "lone n es"
  shows "sends_inv n us s'"
proof -
  from assms(1) obtain j where j: "j < length (thrs s)" "arrived n s @ sends n (thrs s ! j) = us"
    "\<And>i. i < length (thrs s) \<Longrightarrow> i \<noteq> j \<Longrightarrow> sends n (thrs s ! i) = []" and l: "list_all (lone n) (thrs s)"
    unfolding sends_inv_def by blast
  have "list_all (lone n) ((thrs s)[i := es])"
    using l assms(7) by (auto simp: list_all_iff dest!: set_update_subset_insert [THEN subsetD])
  moreover have z: "i \<noteq> j \<Longrightarrow> v = [] \<and> sends n es = []" using j(3) [OF assms(2)] assms(3,6) by simp
  moreover have "arrived n s' @ sends n ((thrs s)[i := es] ! j) = us"
  proof (cases "i = j")
    case True
    then show ?thesis using j(1,2) assms(3,5,6) by simp
  next
    case False
    then show ?thesis using j(2) assms(5) z by simp
  qed
  moreover have "sends n ((thrs s)[i := es] ! k) = []" if "k < length (thrs s)" "k \<noteq> j" for k
    using that z j(3) by (cases "k = i") auto
  ultimately show ?thesis using j(1) unfolding sends_inv_def assms(4) by auto
qed

lemma sends_inv_spawn:
  assumes "sends_inv n us s" and "i < length (thrs s)" and "thrs s ! i = Go w # es"
    and "thrs s' = (thrs s)[i := es] @ [w]" and "arrived n s' = arrived n s"
  shows "sends_inv n us s'"
proof -
  from assms(1) obtain j where j: "j < length (thrs s)" "arrived n s @ sends n (thrs s ! j) = us"
    "\<And>i. i < length (thrs s) \<Longrightarrow> i \<noteq> j \<Longrightarrow> sends n (thrs s ! i) = []" and l: "list_all (lone n) (thrs s)"
    unfolding sends_inv_def by blast
  have w: "lone n w" "lone n es" "sends n w = [] \<or> sends n es = []"
    using l assms(2,3) by (auto simp: list_all_length)
  show ?thesis
  proof (cases "sends n w = []")
    case True
    have "sends_inv n us (s'\<lparr>thrs := (thrs s)[i := es]\<rparr>)"
      by (rule sends_inv_advance [OF assms(1-3)]) (use assms(5) w True in \<open>simp_all add: arrived_def\<close>)
    with True w show ?thesis unfolding sends_inv_def assms(4)
      by (auto simp: arrived_def nth_append less_Suc_eq)
  next
    case False
    then have z: "i = j" "sends n es = []" using j(3) [OF assms(2)] assms(3) w by auto
    have "list_all (lone n) ((thrs s)[i := es])"
      using l w by (auto simp: list_all_iff dest!: set_update_subset_insert [THEN subsetD])
    moreover have "sends n ((thrs s)[i := es] ! k) = []" if "k < length (thrs s)" for k
      using that z j by (cases "k = i") auto
    ultimately show ?thesis
      using z j assms(3,5) w unfolding sends_inv_def assms(4)
      by (auto simp: nth_append less_Suc_eq intro!: exI [of _ "length (thrs s)"])
  qed
qed

lemma sends_inv_step:
  assumes "sends_inv n us s" and "dev_step i s = Some s'" and "\<not> crashed s'"
  shows "sends_inv n us s'"
  using assms(2)
proof (rule dev_stepE)
  fix e es assume i: "i < length (thrs s)" "thrs s ! i = e # es"
    and x: "dev_exec e (s\<lparr>thrs := (thrs s)[i := es]\<rparr>) = Some s'"
  have "lone n (e # es)" using assms(1) i by (metis list_all_length sends_inv_def)
  then have "lone n es" by (cases e) auto
  note adv = sends_inv_advance [OF assms(1) i _ _ _ this]
  show ?thesis
  proof (cases e)
    case (Sends k u)
    show ?thesis
      by (rule adv [of s' "if k = n then [u] else []"])
        (use x assms(3) Sends in \<open>auto simp: arrived_def split: if_splits\<close>)
  next
    case (Go w)
    show ?thesis
      by (rule sends_inv_spawn [OF assms(1) i(1)]) (use x i Go in \<open>auto simp: arrived_def\<close>)
  qed (use x in \<open>auto intro!: adv [where v = "[]"] simp: arrived_def split: if_splits\<close>)
qed

lemma sends_inv_run:
  assumes "dev_run is (start_init es) = Some s" and "start_inv (start_init es)" and "lone n es"
  shows "sends_inv n (sends n es) s"
proof -
  have "sends_inv n (sends n es) s \<and> start_inv s" using assms(1)
  proof (induction rule: dev_run_induct)
    show "sends_inv n (sends n es) (start_init es) \<and> start_inv (start_init es)"
      using assms(2,3) by (simp add: sends_inv_def start_init_def arrived_def)
  next
    fix i s s' assume s: "sends_inv n (sends n es) s \<and> start_inv s" and step: "dev_step i s = Some s'"
    then have "start_inv s'" using start_inv_step by blast
    moreover from this have "\<not> crashed s'" by (simp add: start_inv_def)
    ultimately show "sends_inv n (sends n es) s' \<and> start_inv s'" using s step sends_inv_step by blast
  qed
  then show ?thesis ..
qed

subsection \<open>What Start sends for each service\<close>

lemma sends_append [simp]: "sends n (es @ fs) = sends n es @ sends n fs"
  by (induction n es rule: sends.induct) simp_all

lemma lone_append: "lone n (es @ fs) \<longleftrightarrow> lone n es \<and> lone n fs \<and>
    ((\<exists>w. Go w \<in> set es \<and> sends n w \<noteq> []) \<longrightarrow> sends n fs = [])"
  by (induction n es rule: lone.induct) auto

lemma quiet_sends [simp]: "quiet es \<Longrightarrow> sends n es = []"
  by (induction n es rule: sends.induct) auto

lemma quiet_lone [simp]: "quiet es \<Longrightarrow> lone n es"
  by (induction n es rule: lone.induct) auto

lemma waited_sends [simp]: "waited c es \<Longrightarrow> sends n es = [] \<and> lone n es"
  by (induction c es rule: waited.induct) auto

lemma quiet_logs [simp]: "quiet (map (\<lambda>m. ILog (f m)) ms)"
  by (induction ms) simp_all

lemma sends_map [simp]: "sends k (map (Sends n) us) = (if k = n then us else [])"
  by (cases "k = n") (induction us; simp)+

lemma lone_map [simp]: "lone k (map (Sends n) us)"
  by (induction us) simp_all

lemma service_sends: "sends k (service_events d n m run) =
    (if k = n then fst (service_goroutine n m run) else [])"
  by (auto simp: service_events_def service_goroutine_def Let_def split: prod.split mexit.split)

lemma service_lone: "lone k (service_events d n m run)"
  by (auto simp: service_events_def Let_def lone_append split: prod.split mexit.split)

lemma launch_sends: "sends k (launch env d n) = (if k = n then sent_by env d n else [])"
  by (simp add: launch_def sent_by_def service_sends split: option.split)

lemma launches_sends: "distinct ns \<Longrightarrow>
    sends k (concat (map (launch env d) ns)) = (if k \<in> set ns then sent_by env d k else [])"
  by (induction ns) (auto simp: launch_sends)

lemma launches_lone: "distinct ns \<Longrightarrow> lone k (concat (map (launch env d) ns))"
proof (induction ns)
  case (Cons n ns)
  have l: "lone k (launch env d n)" by (simp add: launch_def service_lone split: option.split)
  have w: "Go w \<in> set (launch env d n) \<Longrightarrow> sends k w \<noteq> [] \<Longrightarrow> k = n" for w
    by (auto simp: launch_def service_sends split: option.splits if_splits)
  from Cons l w show ?case by (auto simp: lone_append launches_sends)
qed simp

lemma launch_rpc_quiet [simp]: "sends k (launch_rpc x d) = []" "lone k (launch_rpc x d)"
  "Go w \<in> set (launch_rpc x d) \<Longrightarrow> sends k w = []"
  by (auto simp: launch_rpc_def rpc_events_def split: option.splits bool.splits if_splits)

text \<open>What \<open>Start\<close> does when it gets to start the services.\<close>

lemma start_events_startable:
  assumes "startable env d"
  shows "\<exists>pre. start_events env x d =
      Go (signal_events x d) # map ILog pre @ concat (map (launch env d) (order env)) @ launch_rpc x d @
      WgWait # clean_up env x d (registry_after env d)"
proof -
  have c: "CreateTopic (NamedType ''ServiceStates'') (Some (d_ic d)) states_conf =
      (Inr (next_topic (d_ic d)),
       Some (snd (create_commit (NamedType ''ServiceStates'') states_conf None (d_ic d))))"
    using assms by (simp add: startable_def CreateTopic_def states_conf_def create_commit_def)
  obtain ms where ms: "prestart_events env x d = map ILog ms"
  proof
    show "prestart_events env x d = map ILog (map
        (\<lambda>msg. (LevelError, ''error in prestart pipeline'', [log_String ''error'' msg, nameField d]))
        (case d_prestart d of
           BuiltInPipeline p \<Rightarrow> emitted (fst (pipeline_Run p (rounds env)))
         | CustomPipeline i \<Rightarrow> prestart_msgs x))"
      by (simp add: prestart_events_def)
  qed
  let ?es = "[(LevelDebug, ''creating intracom topic'',
                 [log_String ''topic'' internalServiceStates, nameField d]),
              (LevelInfo, ''starting service states watcher'', [nameField d]),
              (LevelInfo, ''starting '' @ Itoa (int (card (dom (d_services d)))) @ '' services'',
                 [nameField d])]"
  show ?thesis
    using assms by (intro exI [of _ "ms @ ?es"]) (simp add: start_events_def startable_def registry_after_def c ms)
qed

lemma arrivals_base:
  assumes "startable env d" and "distinct (order env)" and "set (order env) = dom (d_services d)"
    and "dev_run is (start_init (start_events env x d)) = Some s" and "set (thrs s) \<subseteq> {[]}"
    and "arrivals env = upds s"
  shows "interleaves env d \<longleftrightarrow> length (copies env) = length (arrivals env) \<and>
    copies_fit (dom (d_services d)) (watched env)"
proof -
  obtain pre where es: "start_events env x d =
      Go (signal_events x d) # map ILog pre @ concat (map (launch env d) (order env)) @ launch_rpc x d @
      WgWait # clean_up env x d (registry_after env d)" using start_events_startable [OF assms(1)] by blast
  have q: "quiet (signal_events x d)" by (auto simp: signal_events_def split: option.split)
  have p: "quiet (map ILog pre)" by (induction pre) simp_all
  note c = waited_sends [OF waited_clean_up]
  have total: "sends n (start_events env x d) = (if n \<in> set (order env) then sent_by env d n else [])"
    and lone: "lone n (start_events env x d)" for n
    unfolding es using q p c launches_sends [OF assms(2)] launches_lone [OF assms(2)]
    by (auto simp: lone_append)
  have arr: "arrived n s = (if n \<in> set (order env) then sent_by env d n else [])" for n
  proof -
    from sends_inv_run [OF assms(4) start_inv_init lone, of n] obtain j where
      "j < length (thrs s)" "arrived n s @ sends n (thrs s ! j) = sends n (start_events env x d)"
      by (auto simp: sends_inv_def)
    moreover from this have "thrs s ! j = []" using assms(5) nth_mem by fastforce
    ultimately show ?thesis using total by simp
  qed
  have "k \<in> set (order env)" if "(k, u) \<in> set (upds s)" for k u
  proof (rule ccontr)
    assume "k \<notin> set (order env)"
    then have "filter (\<lambda>(m, u). m = k) (upds s) = []" using arr [of k] by (simp add: arrived_def)
    with that show False by (auto simp: filter_empty_conv)
  qed
  then have "list_all (\<lambda>(n, u). n \<in> set (order env)) (arrivals env)"
    using assms(6) by (auto simp: list_all_iff)
  moreover have "list_all (\<lambda>n. map snd (filter (\<lambda>(k, u). k = n) (arrivals env)) = sent_by env d n) (order env)"
    using arr assms(6) by (auto simp: list_all_iff arrived_def)
  ultimately show ?thesis using assms(2,3) by (auto simp: interleaves_def)
qed


end
