(* ===== verification/Rx_StartEnds.thy ===== *)
theory Rx_StartEnds
  imports Rx_StartArrivals "HOL-Library.Multiset"
begin

section \<open>How Start's goroutines end, and what the internal log then holds\<close>

text \<open>
  The events of a goroutine and of those it starts: how many, the entries of the internal
  log among them, and whether one is never over.
\<close>

fun weight :: "dev list \<Rightarrow> nat" where
  "weight [] = 0"
| "weight (Go w # es) = Suc (weight w + weight es)"
| "weight (e # es) = Suc (weight es)"

fun entries :: "dev list \<Rightarrow> log_entry list" where
  "entries [] = []"
| "entries (ILog e # es) = e # entries es"
| "entries (Go w # es) = entries w @ entries es"
| "entries (e # es) = entries es"

fun ends :: "dev list \<Rightarrow> bool" where
  "ends [] = True"
| "ends (Runs_on # es) = False"
| "ends (Go w # es) = (ends w \<and> ends es)"
| "ends (e # es) = ends es"

lemma step_sums:
  assumes "dev_step i s = Some s'" and "\<not> crashed s'"
  shows "sum_list (map weight (thrs s)) = Suc (sum_list (map weight (thrs s')))"
    and "mset (ilog s') + sum_list (map (\<lambda>es. mset (entries es)) (thrs s')) =
      mset (ilog s) + sum_list (map (\<lambda>es. mset (entries es)) (thrs s))"
    and "list_all ends (thrs s) \<Longrightarrow> list_all ends (thrs s')"
proof -
  from assms(1) obtain e es where i: "i < length (thrs s)" "thrs s ! i = e # es"
    and x: "dev_exec e (s\<lparr>thrs := (thrs s)[i := es]\<rparr>) = Some s'" by (rule dev_stepE)
  note w = sum_update [OF i(1), of weight es, unfolded i(2)]
  show "sum_list (map weight (thrs s)) = Suc (sum_list (map weight (thrs s')))"
    using w x by (cases e) (auto split: if_splits)
  note m = sum_update [OF i(1), of "\<lambda>es. mset (entries es)" es, unfolded i(2)]
  show "mset (ilog s') + sum_list (map (\<lambda>es. mset (entries es)) (thrs s')) =
      mset (ilog s) + sum_list (map (\<lambda>es. mset (entries es)) (thrs s))"
    using m x by (cases e) (auto split: if_splits)
  assume l: "list_all ends (thrs s)"
  then have "ends (e # es)" using i by (metis list_all_length)
  then have "ends es" "e = Go v \<Longrightarrow> ends v" for v by (cases e; auto)+
  moreover from this have "list_all ends ((thrs s)[i := es])"
    using l by (auto simp: list_all_iff dest!: set_update_subset_insert [THEN subsetD])
  ultimately show "list_all ends (thrs s')" using x by (cases e) (auto split: if_splits)
qed

subsection \<open>When nothing is left to do\<close>

definition can_end :: "dsys \<Rightarrow> bool" where
  "can_end s \<longleftrightarrow> list_all ends (thrs s) \<and> (upd_closed s \<or> CloseUpdates \<in> set (hd (thrs s)))"

lemma can_end_step:
  assumes "start_inv s" and "can_end s" and "dev_step i s = Some s'"
  shows "can_end s'"
proof -
  have "\<not> crashed s'" using start_inv_step [OF assms(1,3)] by (simp add: start_inv_def)
  then have l: "list_all ends (thrs s')" using step_sums(3) [OF assms(3)] assms(2) by (simp add: can_end_def)
  from assms(3) obtain e es where i: "i < length (thrs s)" "thrs s ! i = e # es"
    and x: "dev_exec e (s\<lparr>thrs := (thrs s)[i := es]\<rparr>) = Some s'" by (rule dev_stepE)
  obtain M T where mt: "thrs s = M # T" using assms(1) by (auto simp: start_inv_def)
  have "upd_closed s' \<or> CloseUpdates \<in> set (hd (thrs s'))"
    using assms(2) i x mt \<open>\<not> crashed s'\<close>
    by (cases i; cases e) (auto simp: can_end_def split: if_splits)
  with l show ?thesis by (simp add: can_end_def)
qed

lemma exec_some: "e \<noteq> Runs_on \<Longrightarrow> e \<noteq> WgWait \<Longrightarrow> dev_exec e s \<noteq> None"
  by (cases e) auto

lemma all_over:
  assumes "start_inv s" and "can_end s" and "\<forall>i. dev_step i s = None"
  shows "(\<forall>es \<in> set (thrs s). es = []) \<and> upd_closed s"
proof -
  obtain M T where mt: "thrs s = M # T" "\<not> crashed s"
    "list_all (\<lambda>es. worker es \<or> quiet es) T" "main_phase M (workers T) s"
    using assms(1) by (auto simp: start_inv_def)
  have en: "ends M" "list_all ends T" using assms(2) mt(1) by (simp_all add: can_end_def)
  have T: "es = []" if es: "es \<in> set T" for es
  proof (cases es)
    case (Cons e r)
    obtain j where j: "j < length T" "T ! j = e # r" using es Cons by (metis in_set_conv_nth)
    have "worker (e # r) \<or> quiet (e # r)" "ends (e # r)"
      using es Cons mt(3) en(2) by (auto simp: list_all_iff)
    then have "e \<noteq> Runs_on" "e \<noteq> WgWait" by (cases e; auto)+
    then have "dev_step (Suc j) s \<noteq> None" using j mt(1,2) exec_some by (simp add: dev_step_def)
    with assms(3) show ?thesis by simp
  qed simp
  then have "\<not> worker es" if "es \<in> set T" for es using that by fastforce
  then have k: "workers T = 0" by (simp add: workers_def filter_empty_conv)
  have M: "M = []"
  proof (cases M)
    case (Cons e r)
    have "e \<noteq> Runs_on" using en(1) Cons by auto
    moreover have "wg s = 0" if "e = WgWait" using mt(4) k Cons that by (auto simp: main_phase_def)
    ultimately have "dev_step 0 s \<noteq> None"
      using mt(1,2) Cons exec_some [of e] by (cases "e = WgWait") (auto simp: dev_step_def)
    with assms(3) show ?thesis by simp
  qed simp
  with T mt(1) assms(2) show ?thesis by (auto simp: can_end_def)
qed

subsection \<open>A start that returns nil\<close>

lemma intracom_Close_some: "snd (intracom_Close os (Some ic)) \<noteq> None"
  by (simp add: intracom_Close_def split: prod.split bool.split)

lemma returns_nil_startable:
  assumes "daemon_Start env d = (StartReturnsNil, d', w)"
  shows "startable env d" and "list_all (\<lambda>(n, m). snd (service_goroutine n m (runs env n))) (launched env d)"
    and "\<not> (rpcEnabled d \<and> shutdown_err env \<noteq> None)" and "\<not> snapshots_taken env < length (watched env)"
    and "fst (intracom_Close (topic_orders env) (Some (registry_after env d))) \<noteq> None"
proof -
  show st: "startable env d"
    using assms
    by (auto simp: daemon_Start_def startable_def startable_cancel CreateTopic_def create_commit_def
        states_conf_def Let_def split: if_splits option.splits prod.splits)
  show "list_all (\<lambda>(n, m). snd (service_goroutine n m (runs env n))) (launched env d)"
    "\<not> (rpcEnabled d \<and> shutdown_err env \<noteq> None)" "\<not> snapshots_taken env < length (watched env)"
    "fst (intracom_Close (topic_orders env) (Some (registry_after env d))) \<noteq> None"
    using assms intracom_Close_some [of "topic_orders env" "registry_after env d"]
    unfolding Start_startable [OF st] by (auto simp: Let_def split: if_splits option.splits prod.splits)
qed

lemma ends_append [simp]: "ends (es @ fs) \<longleftrightarrow> ends es \<and> ends fs"
  by (induction es rule: ends.induct) auto

lemma ends_quiet [simp]: "quiet es \<Longrightarrow> ends es"
  by (induction es rule: ends.induct) auto

lemma ends_concat [simp]: "ends (concat ess) \<longleftrightarrow> list_all ends ess"
  by (induction ess) auto

lemma ends_map [simp]: "ends (map (Sends n) us)"
  by (induction us) simp_all

lemma ends_map_ILog [simp]: "ends (map ILog es)"
  by (induction es) simp_all

lemma service_ends: "snd (service_goroutine n m run) \<Longrightarrow> ends (service_events d n m run)"
  by (auto simp: service_events_def service_goroutine_def Let_def split: prod.splits mexit.splits)

lemma launches_end:
  assumes "list_all (\<lambda>(n, m). snd (service_goroutine n m (runs env n))) (launched env d)"
  shows "list_all ends (map (launch env d) (order env))"
proof -
  have "ends (launch env d n)" if "n \<in> set (order env)" for n
  proof (cases "d_managers d n")
    case (Some m)
    then have "(n, m) \<in> set (launched env d)" using that by (force simp: launched_def List.map_filter_def)
    then have "snd (service_goroutine n m (runs env n))" using assms by (auto simp: list_all_iff)
    with Some show ?thesis by (simp add: launch_def service_ends)
  qed (simp add: launch_def)
  then show ?thesis by (simp add: list_all_iff)
qed

lemma can_end_if:
  assumes "startable env d"
    and "list_all (\<lambda>(n, m). snd (service_goroutine n m (runs env n))) (launched env d)"
    and "\<not> (rpcEnabled d \<and> shutdown_err env \<noteq> None)" and "\<not> snapshots_taken env < length (watched env)"
    and "fst (intracom_Close (topic_orders env) (Some (registry_after env d))) \<noteq> None"
  shows "can_end (start_init (start_events env x d))"
proof -
  obtain pre where es: "start_events env x d =
      Go (signal_events x d) # map ILog pre @ concat (map (launch env d) (order env)) @ launch_rpc x d @
      WgWait # clean_up env x d (registry_after env d)" using start_events_startable [OF assms(1)] by blast
  have q: "quiet (signal_events x d)" by (auto simp: signal_events_def split: option.split)
  have "ends (launch_rpc x d)" by (auto simp: launch_rpc_def rpc_events_def split: option.split bool.split)
  moreover have "ends (clean_up env x d (registry_after env d)) \<and>
      CloseUpdates \<in> set (clean_up env x d (registry_after env d))"
    using assms(3-5) by (auto simp: clean_up_def split: option.split)
  ultimately show ?thesis
    using q launches_end [OF assms(2)] by (simp add: can_end_def start_init_def es)
qed

lemma start_can_end:
  assumes "daemon_Start env d = (StartReturnsNil, d', w)"
  shows "can_end (start_init (start_events env x d))"
  by (rule can_end_if) (rule returns_nil_startable [OF assms])+

lemma run_sums:
  assumes "dev_run is s = Some t" and "start_inv s"
  shows "length is + sum_list (map weight (thrs t)) = sum_list (map weight (thrs s)) \<and>
    mset (ilog t) + sum_list (map (\<lambda>es. mset (entries es)) (thrs t)) =
      mset (ilog s) + sum_list (map (\<lambda>es. mset (entries es)) (thrs s))"
  using assms
proof (induction "is" arbitrary: s)
  case (Cons i js)
  then obtain s' where s': "dev_step i s = Some s'" "dev_run js s' = Some t" by (auto split: option.splits)
  have inv: "start_inv s'" by (rule start_inv_step [OF Cons.prems(2) s'(1)])
  then have "\<not> crashed s'" by (simp add: start_inv_def)
  from Cons.IH [OF s'(2) inv] step_sums(1,2) [OF s'(1) this] show ?case by simp
qed simp

lemma start_ends_base:
  assumes "can_end (start_init (start_events env x d))"
    and "dev_run is (start_init (start_events env x d)) = Some s"
  shows "length is \<le> weight (start_events env x d) \<and>
    ((\<forall>i. dev_step i s = None) \<longrightarrow> (\<forall>es \<in> set (thrs s). es = []) \<and> upd_closed s \<and>
       mset (ilog s) = mset (entries (start_events env x d)))"
proof -
  have "can_end s \<and> start_inv s" using assms(2)
    by (induction rule: dev_run_induct)
      (auto intro: start_inv_init assms(1) can_end_step start_inv_step)
  moreover note run_sums [OF assms(2) start_inv_init]
  moreover have "sum_list (map (\<lambda>es. mset (entries es)) T) = {#}" if "\<forall>es \<in> set T. es = []" for T
    using that by (induction T) auto
  ultimately show ?thesis using all_over [of s] by (auto simp: start_init_def)
qed


subsection \<open>What the log says of the states\<close>

text \<open>
  The log agrees with the snapshots: the last entry for a service names the state that it
  has in the last snapshot.
\<close>

definition about :: "string \<Rightarrow> log_entry \<Rightarrow> bool" where
  "about n e = (case e of (l, msg, fs) \<Rightarrow>
     msg = ''states transition update'' \<and> fs \<noteq> [] \<and> Value (hd fs) = n)"

theorem watcher_log_tells_states:
  assumes "length us \<le> k" and "n \<in> Name ` set us"
  shows "\<exists>v. states_after names us n = Some v \<and>
    last (filter (about n) (statesWatcher_log k over us)) =
      (LevelDebug, ''states transition update'',
       [log_String ''service_name'' n, log_String ''state'' (State_String (State_of v))])"
proof -
  have "filter (about n) (map update_entry vs) = map update_entry (filter (\<lambda>u. Name u = n) vs)" for vs
    by (induction vs) (auto simp: about_def update_entry_def)
  then have e: "filter (about n) (statesWatcher_log k over us) =
      map update_entry (filter (\<lambda>u. Name u = n) us)"
    using assms(1) by (simp add: statesWatcher_log_def about_def)
  have ne: "filter (\<lambda>u. Name u = n) us \<noteq> []" using assms(2) by (auto simp: filter_empty_conv)
  then have "Name (last (filter (\<lambda>u. Name u = n) us)) = n" using last_in_set [OF ne] by simp
  with ne show ?thesis
    unfolding e by (simp add: last_map states_after_apply Let_def update_entry_def)
qed

subsection \<open>One service\<close>

definition no_inputs :: start_inputs where
  "no_inputs = \<lparr>prestart_msgs = [], os_events = [DaemonCtxDone], register_err = None, serve_end = None\<rparr>"

lemma one_start_events:
  "start_events one_env no_inputs one_service =
     (let f = nameField one_service; svc = log_String ''service_name'' ''a'' in
      [Go [ILog (LevelDebug, ''signal watcher received context done from parent context'', [f])],
       ILog (LevelDebug, ''creating intracom topic'', [log_String ''topic'' internalServiceStates, f]),
       ILog (LevelInfo, ''starting service states watcher'', [f]),
       ILog (LevelInfo, ''starting 1 services'', [f]),
       WgAdd,
       Go (ILog (LevelInfo, ''starting service'', [svc, f]) # map (Sends ''a'') one_updates @
           [WgDone, ILog (LevelInfo, ''service has exited'', [svc, f])]),
       WgWait,
       ILog (LevelDebug, ''closing states watcher'', [f]),
       CloseUpdates,
       ILog (LevelDebug, ''states watcher closed'', [f]),
       ILog (LevelDebug, ''closing intracom'', [f]),
       ILog (LevelDebug, ''intracom closed'', [f]),
       ILog (LevelDebug, ''services log channel closed'', [f])])"
proof -
  have i: "Itoa 1 = ''1''" by code_simp
  obtain E where E: "E = one_env" by simp
  have m: "manage ''a'' demo_manager (runs E ''a'') = (one_updates, Returned)"
    by (simp add: E demo_env_def rc_Manage_def rc_iter_def manager_end_def log_unless_cancelled_def Let_def)
  have c: "CreateTopic (NamedType ''ServiceStates'') (Some (intracom_New ''rxd-intracom'')) states_conf =
      (Inr 0, Some (snd (create_commit (NamedType ''ServiceStates'') states_conf None (intracom_New ''rxd-intracom''))))"
    by (simp add: CreateTopic_def create_commit_def intracom_New_def states_conf_def)
  have d: "dom [''a'' \<mapsto> (0::nat)] = {''a''}" by auto
  have r: "\<not> rpcEnabled one_service" by (simp add: demo_daemon_simps)
  have cl: "fst (intracom_Close [] (Some (snd (create_commit (NamedType ''ServiceStates'') states_conf None
      (intracom_New ''rxd-intracom'')) :: ServiceStates intracom))) = Some None"
    by (simp add: intracom_Close_def create_commit_def intracom_New_def)
  have e: "rounds E = []" "order E = [''a'']" "services_do E = id" "shutdown_err E = None"
    "topic_orders E = []" "snapshots_taken E = length (watched E)"
    by (simp_all add: E demo_env_def watched_def)
  show ?thesis
    unfolding start_events_def E [symmetric]
    by (simp add: one_service_fields prestart_ends_def prestart_events_def pipeline_Run_def c d i r e
        launch_def launch_rpc_def clean_up_def cl service_events_def m signal_events_def no_inputs_def
        nameField_def Let_def)
qed

lemma one_run:
  obtains s t where
    "dev_run (replicate 6 0 @ replicate 6 2 @ replicate 7 0)
       (start_init (start_events one_env no_inputs one_service)) = Some s"
    and "hd (thrs s) = []" and "upd_closed s"
    and "\<And>fs. (LevelInfo, ''service has exited'', fs) \<notin> set (ilog s)"
    and "dev_run (replicate 6 0 @ replicate 6 2 @ replicate 7 0 @ [1, 2])
       (start_init (start_events one_env no_inputs one_service)) = Some t"
    and "set (thrs t) \<subseteq> {[]}" and "upds t = map (Pair ''a'') one_updates" and "\<forall>i. dev_step i t = None"
proof -
  have "\<exists>s t. dev_run (replicate 6 0 @ replicate 6 2 @ replicate 7 0)
       (start_init (start_events one_env no_inputs one_service)) = Some s \<and>
     hd (thrs s) = [] \<and> upd_closed s \<and> (\<forall>fs. (LevelInfo, ''service has exited'', fs) \<notin> set (ilog s)) \<and>
     dev_run (replicate 6 0 @ replicate 6 2 @ replicate 7 0 @ [1, 2])
       (start_init (start_events one_env no_inputs one_service)) = Some t \<and>
     set (thrs t) \<subseteq> {[]} \<and> upds t = map (Pair ''a'') one_updates \<and> (\<forall>i. dev_step i t = None)"
    unfolding one_start_events
    by (simp add: start_init_def dev_step_def eval_nat_numeral Let_def nth_Cons')
  with that show thesis by blast
qed

text \<open>
  The entry that comes too late. A service's goroutine tells the wait group that it is done
  before it logs that the service has exited. So \<open>Start\<close> can return, with the program, before
  the internal log says so of any service.
\<close>

theorem exit_entry_missing_at_return:
  "\<exists>is s. dev_run is (start_init (start_events one_env no_inputs one_service)) = Some s \<and>
     hd (thrs s) = [] \<and> (\<forall>fs. (LevelInfo, ''service has exited'', fs) \<notin> set (ilog s)) \<and>
     fst (daemon_Start one_env one_service) = StartReturnsNil"
proof -
  obtain d' sw where "daemon_Start one_env one_service = (StartReturnsNil, d', Some sw)"
    using cancelled_daemon_base [OF one_service_shuts_down] by blast
  moreover obtain s where "dev_run (replicate 6 0 @ replicate 6 2 @ replicate 7 0)
      (start_init (start_events one_env no_inputs one_service)) = Some s" "hd (thrs s) = []"
    "\<And>fs. (LevelInfo, ''service has exited'', fs) \<notin> set (ilog s)" using one_run by metis
  ultimately show ?thesis by auto
qed

theorem updates_never_hit_closed_channel_witness:
  "\<exists>is s. dev_run is (start_init (start_events one_env no_inputs one_service)) = Some s \<and>
     upd_closed s \<and> \<not> crashed s"
proof -
  obtain s where s: "dev_run (replicate 6 0 @ replicate 6 2 @ replicate 7 0)
      (start_init (start_events one_env no_inputs one_service)) = Some s" "upd_closed s" using one_run by metis
  from updates_never_hit_closed_channel [OF s(1)] s show ?thesis by blast
qed



end
