(* ===== verification/Rx_Shutdown.thy ===== *)
theory Rx_Shutdown
  imports Rx_StartEnds
begin

section \<open>Shutting down under every schedule\<close>

text \<open>
  Puts the function for \<open>Start\<close> and the schedules of its goroutines together: a daemon whose
  services are cancelled shuts down whatever the scheduler does.
\<close>

text \<open>
  What the schedule does not decide, for a daemon whose services are all found cancelled; the
  topic takes every snapshot.
\<close>

definition cancelled_inputs :: "start_env \<Rightarrow> daemon \<Rightarrow> bool" where
  "cancelled_inputs env d \<longleftrightarrow> startable env d \<and>
     distinct (order env) \<and> set (order env) = dom (d_services d) \<and>
     length (watched env) \<le> snapshots_taken env \<and> shutdown_err env = None \<and>
     (\<forall>n\<in>dom (d_services d). \<exists>v. d_managers d n = Some v \<and> cancelled_run v (runs env n)) \<and>
     (\<forall>n r. topics (registry_after env d) n = Some r \<longrightarrow>
        (\<exists>T t. heap (registry_after env d) r = Some (NamedType T, t)))"

text \<open>The inputs of the function for \<open>Start\<close> after a schedule, with some order for each copy.\<close>

definition scheduled :: "start_env \<Rightarrow> (string \<times> ServiceStateUpdate) list \<Rightarrow> string list list \<Rightarrow> start_env" where
  "scheduled env us ks = env\<lparr>arrivals := us, copies := ks, snapshots_taken := length us\<rparr>"

lemma dom_states_after: "dom (states_after names us) = names \<union> Name ` set us"
proof (induction us rule: rev_induct)
  case Nil
  show ?case by (auto simp: states_after_def split: if_splits)
next
  case (snoc u us)
  then show ?case by (simp only: states_after_snoc dom_fun_upd) auto
qed

lemma copies_exist:
  assumes "finite names"
  shows "\<exists>ks. length ks = length us \<and> copies_fit names (zip ks us)"
proof -
  have "\<exists>xs. set xs = dom (states_after names (take (Suc k) us))" for k
    using assms by (intro finite_list) (simp add: dom_states_after)
  then obtain f where f: "\<And>k. set (f k) = dom (states_after names (take (Suc k) us))" by metis
  have "copies_fit names (zip (map f [0..<length us]) us)"
    by (simp add: copies_fit_def f take_zip flip: take_map)
  then show ?thesis by (intro exI [of _ "map f [0..<length us]"]) simp
qed

lemma scheduled_same:
  assumes "startable env d" and "length (watched env) \<le> snapshots_taken env"
    and "length ks = length us"
  shows "startable (scheduled env us ks) d" and "registry_after (scheduled env us ks) d = registry_after env d"
    and "start_events (scheduled env us ks) x d = start_events env x d"
proof -
  have p: "prestart_ends (scheduled env us ks) d = prestart_ends env d"
    by (simp add: prestart_ends_def scheduled_def split: prestart_value.split)
  then show "startable (scheduled env us ks) d" using assms(1) by (simp add: startable_def)
  show r: "registry_after (scheduled env us ks) d = registry_after env d"
    by (simp add: registry_after_def scheduled_def)
  have "launch (scheduled env us ks) d = launch env d"
    by (simp add: launch_def scheduled_def fun_eq_iff split: option.split)
  moreover have "prestart_events (scheduled env us ks) x d = prestart_events env x d"
    by (simp add: prestart_events_def scheduled_def split: prestart_value.split)
  moreover have "clean_up (scheduled env us ks) x d ic = clean_up env x d ic" for ic
    using assms(2,3) by (auto simp: clean_up_def scheduled_def watched_def)
  moreover have "order (scheduled env us ks) = order env" "services_do (scheduled env us ks) = services_do env"
    by (simp_all add: scheduled_def)
  ultimately show "start_events (scheduled env us ks) x d = start_events env x d"
    by (simp only: start_events_def p)
qed

lemma cancelled_can_end:
  assumes "cancelled_inputs env d"
  shows "can_end (start_init (start_events env x d))"
proof (rule can_end_if)
  note c = assms [unfolded cancelled_inputs_def]
  show "startable env d" "\<not> (rpcEnabled d \<and> shutdown_err env \<noteq> None)"
    "\<not> snapshots_taken env < length (watched env)" using c by simp_all
  show "list_all (\<lambda>(n, m). snd (service_goroutine n m (runs env n))) (launched env d)"
    unfolding list_all_iff
  proof safe
    fix n m
    assume "(n, m) \<in> set (launched env d)"
    then have "n \<in> dom (d_services d)" "d_managers d n = Some m"
      using c by (auto simp: launched_def List.map_filter_def)
    moreover from this obtain v where "d_managers d n = Some v" "cancelled_run v (runs env n)"
      using c by blast
    ultimately show "snd (service_goroutine n m (runs env n))" by (auto intro: cancelled_service(1))
  qed
  show "fst (intracom_Close (topic_orders env) (Some (registry_after env d))) \<noteq> None"
    using close_topics_typed_only [of "(registry_after env d)\<lparr>ic_closed := True\<rparr>" "topic_orders env"] c
    by (cases "ic_closed (registry_after env d)") (auto simp: intracom_Close_def)
qed


lemma one_service_inputs: "cancelled_inputs one_env one_service"
  using one_service_shuts_down
  by (simp add: cancelled_start_def cancelled_inputs_def interleaves_def watched_def)


end
