(* ===== verification/Rx_RegistryLog.thy ===== *)
theory Rx_RegistryLog
  imports Rx_Registry Rx_Log
begin

section \<open>What the registry logs (intracom/intracom.go, logger.go)\<close>

text \<open>
  The entries that each operation of the registry hands to its logger, as a function of the
  same inputs as the operation. The logger is the one of the last \<open>WithLogger\<close>, or, for nil
  and by default, the silent one of \<open>logger.go\<close> (\<open>None\<close>), which drops them.
\<close>

type_synonym reg_entry = "Level \<times> string \<times> Field list"

definition registry_logger :: "nat option list \<Rightarrow> nat option" where
  "registry_logger opts = foldl (\<lambda>l opt. opt) None opts"

text \<open>What reaches the handler of the logger.\<close>

definition handed_on :: "nat option \<Rightarrow> reg_entry list \<Rightarrow> logs \<Rightarrow> (nat \<times> Level \<times> string \<times> Field list) list" where
  "handed_on l es st =
     (case l of None \<Rightarrow> []
      | Some i \<Rightarrow> List.map_filter (\<lambda>(level, msg, fs). logger_Log i level msg fs st) es)"

subsection \<open>The operations\<close>

definition topic_fields :: "'v intracom \<Rightarrow> string \<Rightarrow> Field list" where
  "topic_fields ic topic = [log_String ''name'' (ic_name ic), log_String ''topic'' topic]"

definition CreateTopic_log :: "gotype \<Rightarrow> 'v intracom option \<Rightarrow> TopicConfig \<Rightarrow> reg_entry list" where
  "CreateTopic_log T icp conf =
     (case icp of
        None \<Rightarrow> []
      | Some ic \<Rightarrow>
         (if ic_closed ic then []
          else case topics ic (cfg_Name conf) of
            None \<Rightarrow> []
          | Some r \<Rightarrow>
             (let fs = topic_fields ic (cfg_Name conf) @
                       [log_Bool ''subscriber_aware'' (cfg_SubscriberAware conf)] in
              if map_option fst (heap ic r) \<noteq> Some T then []
              else if cfg_ErrIfExists conf
              then [(LevelDebug, ''could not create topic'',
                     fs @ [log_Error ''error'' (ic_error_msg ErrTopicAlreadyExists)])]
              else [(LevelDebug, ''created intracom topic'', fs)])))"

definition RemoveTopic_log ::
  "gotype \<Rightarrow> 'v intracom option \<Rightarrow> string \<Rightarrow> string list \<Rightarrow> reg_entry list" where
  "RemoveTopic_log T icp name order =
     (case icp of
        None \<Rightarrow> []
      | Some ic \<Rightarrow>
         (case topics ic name of
            None \<Rightarrow> []
          | Some r \<Rightarrow>
             (case heap ic r of
                None \<Rightarrow> []
              | Some (T', t) \<Rightarrow>
                  if T' \<noteq> T then []
                  else if fst (topic_Close order t) = Some None
                  then [(LevelDebug, ''removed intracom topic'', topic_fields ic name)]
                  else [])))"

text \<open>\<open>fs\<close> are the fields that name registry, topic and consumer.\<close>

fun poll_log :: "Field list \<Rightarrow> string \<Rightarrow> bool \<Rightarrow> 'v poll list \<Rightarrow> reg_entry list" where
  "poll_log fs name hasMax [] = []"
| "poll_log fs name hasMax (PollCtx e # ps) = []"
| "poll_log fs name hasMax (PollMax # ps) =
     (if hasMax
      then [(LevelDebug, ''could not create subscription to topic'',
             fs @ [log_Error ''error'' (ic_error_msg ErrMaxTimeoutReached)])]
      else poll_log fs name hasMax ps)"
| "poll_log fs name hasMax (PollRetry ic # ps) =
     (if ic_closed ic then []
      else (LevelDebug, ''checking for topic existence'', fs) #
        (case topics ic name of None \<Rightarrow> poll_log fs name hasMax ps | Some r \<Rightarrow> []))"

definition CreateSubscription_log ::
  "'v intracom option \<Rightarrow> string \<Rightarrow> duration \<Rightarrow> SubscriberConfig \<Rightarrow> 'v poll list \<Rightarrow> reg_entry list" where
  "CreateSubscription_log icp topic maxWait conf polls =
     (case icp of
        None \<Rightarrow> []
      | Some ic \<Rightarrow>
         (if ic_closed ic then []
          else
           (let fs = topic_fields ic topic @ [log_String ''consumer'' (ConsumerGroup conf)] in
            (if 0 < maxWait
             then [(LevelDebug, ''could not create subscription to topic'',
                    fs @ [log_Int ''max_wait'' (DurationValue maxWait)])]
             else []) @
            poll_log fs topic (0 < maxWait) polls)))"

definition RemoveSubscription_log ::
  "gotype \<Rightarrow> 'v intracom option \<Rightarrow> string \<Rightarrow> string \<Rightarrow> reg_entry list" where
  "RemoveSubscription_log T icp topic consumer =
     (case icp of
        None \<Rightarrow> []
      | Some ic \<Rightarrow>
         (case topics ic topic of
            None \<Rightarrow> []
          | Some r \<Rightarrow>
              if map_option fst (heap ic r) = Some T
              then [(LevelDebug, ''removing subscription'',
                     topic_fields ic topic @ [log_String ''consumer'' consumer])]
              else []))"

fun close_topics_log :: "(string \<times> string list) list \<Rightarrow> 'v intracom \<Rightarrow> reg_entry list" where
  "close_topics_log [] ic = []"
| "close_topics_log ((name, order) # rest) ic =
     (case topics ic name of
        None \<Rightarrow> close_topics_log rest ic
      | Some r \<Rightarrow>
         (case heap ic r of
            Some (AnyType, t) \<Rightarrow>
              (let (res, t') = topic_Close order t;
                   ic' = ic\<lparr>heap := (heap ic)(r \<mapsto> (AnyType, t'))\<rparr>
               in (LevelDebug, ''closing topic'', topic_fields ic name) #
                  (case res of
                     None \<Rightarrow> []
                   | Some None \<Rightarrow> close_topics_log rest ic'
                   | Some (Some e) \<Rightarrow>
                       (LevelError, ''error closing topic'',
                        [log_String ''topic'' name, log_Error ''error'' e]) # close_topics_log rest ic'))
          | _ \<Rightarrow> close_topics_log rest ic))"

definition intracom_Close_log :: "(string \<times> string list) list \<Rightarrow> 'v intracom option \<Rightarrow> reg_entry list" where
  "intracom_Close_log orders icp =
     (case icp of
        None \<Rightarrow> []
      | Some ic \<Rightarrow>
         (if ic_closed ic then []
          else (LevelDebug, ''closing all intracom topics'', [log_String ''name'' (ic_name ic)]) #
            close_topics_log orders (ic\<lparr>ic_closed := True\<rparr>)))"

subsection \<open>What the log says\<close>

text \<open>
  The entry ''created intracom topic'' means that nothing was created. \<open>CreateTopic\<close> logs it
  exactly when it succeeds with a topic that was there before; when it makes a new topic it
  logs nothing.
\<close>

theorem created_entry_means_existing:
  "((\<exists>fs. (LevelDebug, ''created intracom topic'', fs) \<in> set (CreateTopic_log T (Some ic) conf)) \<longleftrightarrow>
      (\<exists>r. topics ic (cfg_Name conf) = Some r \<and> CreateTopic T (Some ic) conf = (Inr r, Some ic))) \<and>
   (topics ic (cfg_Name conf) = None \<longrightarrow> CreateTopic_log T (Some ic) conf = [])"
  by (auto simp: CreateTopic_log_def CreateTopic_def create_commit_def Let_def split: option.splits)

theorem created_entry_means_existing_witness:
  "CreateTopic_log AnyType (Some (intracom_New ''r'' :: unit intracom))
     \<lparr>cfg_Name = ''t'', cfg_ErrIfExists = False, cfg_SubscriberAware = False\<rparr> = []"
  using created_entry_means_existing
    [of AnyType "intracom_New ''r'' :: unit intracom"
      "\<lparr>cfg_Name = ''t'', cfg_ErrIfExists = False, cfg_SubscriberAware = False\<rparr>"]
  by (simp add: intracom_New_def)

text \<open>
  With a positive wait, \<open>CreateSubscription\<close> logs that it could not create the subscription
  before it has tried, without the wait, which \<open>log.Int\<close> does not take; then once for each
  look at the registry; also when it succeeds with the first.
\<close>

theorem subscription_failure_logged_first:
  assumes "\<not> ic_closed ic" and "0 < maxWait"
    and "\<not> ic_closed ic'" and "topics ic' topic = Some r"
  shows "map (\<lambda>(l, msg, fs). (msg, last fs))
      (CreateSubscription_log (Some ic) topic maxWait conf (PollRetry ic' # ps)) =
    [(''could not create subscription to topic'',
      log_String ''max_wait'' ''<unknown value type for int field>''),
     (''checking for topic existence'', log_String ''consumer'' (ConsumerGroup conf))]"
  using assms by (simp add: CreateSubscription_log_def log_Int_def Let_def)

theorem subscription_failure_logged_first_witness:
  "let ic = intracom_New ''r'' :: unit intracom in
   map (\<lambda>(l, msg, fs). msg)
     (CreateSubscription_log (Some ic) ''t'' Second (demo_conf ''w'' 1 None)
       [PollRetry (ic\<lparr>topics := [''t'' \<mapsto> 0]\<rparr>)]) =
   [''could not create subscription to topic'', ''checking for topic existence'']"
proof -
  let ?ic = "intracom_New ''r'' :: unit intracom"
  have h: "\<not> ic_closed ?ic" "0 < Second" "\<not> ic_closed (?ic\<lparr>topics := [''t'' \<mapsto> 0]\<rparr>)"
    "topics (?ic\<lparr>topics := [''t'' \<mapsto> 0]\<rparr>) ''t'' = Some 0" by (simp_all add: intracom_New_def)
  from subscription_failure_logged_first [OF h, of "demo_conf ''w'' 1 None" "[]"]
  have "map (fst \<circ> (\<lambda>(l, msg, fs). (msg, last fs)))
      (CreateSubscription_log (Some ?ic) ''t'' Second (demo_conf ''w'' 1 None)
        [PollRetry (?ic\<lparr>topics := [''t'' \<mapsto> 0]\<rparr>)]) =
    [''could not create subscription to topic'', ''checking for topic existence'']"
    unfolding map_map [symmetric] by simp
  then show ?thesis by (simp add: comp_def split_def Let_def)
qed

text \<open>
  Of a registry whose topics all have types of their own, the log of \<open>Close\<close> names none.
\<close>

theorem close_names_no_typed_topic:
  assumes "\<And>n r. topics ic n = Some r \<Longrightarrow> \<exists>T t. heap ic r = Some (NamedType T, t)"
  shows "intracom_Close_log orders (Some ic) =
    (if ic_closed ic then []
     else [(LevelDebug, ''closing all intracom topics'', [log_String ''name'' (ic_name ic)])])"
proof -
  let ?ic = "ic\<lparr>ic_closed := True\<rparr>"
  have "close_topics_log orders ?ic = []"
  proof (induction orders)
    case (Cons x os)
    obtain name order where x: "x = (name, order)" by (cases x) auto
    show ?case
    proof (cases "topics ic name")
      case (Some r)
      from assms [OF this] obtain T t where "heap ic r = Some (NamedType T, t)" by blast
      with Some Cons.IH x show ?thesis by simp
    qed (use Cons.IH x in simp)
  qed simp
  then show ?thesis by (simp add: intracom_Close_log_def)
qed

text \<open>
  The registry that a daemon makes has no logger: whatever is logged there reaches no handler.
\<close>

lemma default_registry_is_silent: "handed_on (registry_logger []) es st = []"
  by (simp add: handed_on_def registry_logger_def)

end
