(* ===== verification/Rx_RegistryRaces.thy ===== *)
theory Rx_RegistryRaces
  imports Rx_Registry
begin

section \<open>Overlapping calls on the registry (intracom/intracom.go)\<close>

text \<open>
  \<open>CreateTopic\<close>, \<open>RemoveTopic\<close>, the lookup in the polling of \<open>CreateSubscription\<close> and
  \<open>Close\<close>, called by several goroutines at once, from one use of the lock or of an atomic flag
  to the next. What a lock protects for a short while is one step, which waits while \<open>Close\<close>
  holds the lock: that keeps it for its whole loop. Of a topic there is its type, its own
  flag, which \<open>topic.Close\<close> swaps, and whether its broadcaster has come to wait for a consumer
  in vain, so that a call of \<open>topic.Close\<close> that swapped the flag never has its answer.
  A call is where its last step has left it: \<open>Cr\<close> for \<open>CreateTopic\<close>, \<open>Rm\<close> for \<open>RemoveTopic\<close>,
  \<open>Poll\<close> for the retries of \<open>CreateSubscription\<close>, \<open>Unsub\<close> for \<open>RemoveSubscription\<close>, \<open>Cl\<close> for \<open>Close\<close>.
\<close>

record rtopic =
  rt_type :: gotype
  rt_closed :: bool
  rt_hung :: bool

datatype rpc =
    CrCheck gotype TopicConfig
  | CrLookup gotype TopicConfig
  | CrStore gotype TopicConfig
  | CrDone "ic_error + nat"
  | RmLookup gotype string
  | RmSwap string nat
  | RmWait string nat
  | RmDelete string nat
  | RmRemoved nat
  | RmFailed ic_error
  | PollCheck string
  | PollLookup string
  | PollFound nat
  | PollRefused
  | UnsubLookup string
  | UnsubFound "nat option"
  | ClSwap
  | ClLock
  | ClLoop "string list"
  | ClAwait nat "string list"
  | ClDone "ic_error option"

record rsys =
  rs_topics :: "string \<rightharpoonup> nat"
  rs_closed :: bool
  rs_heap :: "nat \<rightharpoonup> rtopic"
  rs_next :: nat
  rs_lock :: "nat option"
  rs_calls :: "nat \<rightharpoonup> rpc"

definition at :: "nat \<Rightarrow> rpc \<Rightarrow> rsys \<Rightarrow> rsys" where
  "at i p s = s\<lparr>rs_calls := (rs_calls s)(i \<mapsto> p)\<rparr>"

definition swap_closed :: "nat \<Rightarrow> rsys \<Rightarrow> rsys" where
  "swap_closed r s = s\<lparr>rs_heap := (rs_heap s)(r := map_option (\<lambda>t. t\<lparr>rt_closed := True\<rparr>) (rs_heap s r))\<rparr>"

definition was_closed :: "nat \<Rightarrow> rsys \<Rightarrow> bool" where
  "was_closed r s = (case rs_heap s r of None \<Rightarrow> False | Some t \<Rightarrow> rt_closed t)"

definition hung :: "nat \<Rightarrow> rsys \<Rightarrow> bool" where
  "hung r s = (case rs_heap s r of None \<Rightarrow> False | Some t \<Rightarrow> rt_hung t)"

definition type_of :: "nat \<Rightarrow> rsys \<Rightarrow> gotype option" where
  "type_of r s = map_option rt_type (rs_heap s r)"

text \<open>\<open>CreateTopic\<close>: the check of the flag, the lookup, and the storing of a new topic.\<close>

definition create_check :: "nat \<Rightarrow> gotype \<Rightarrow> TopicConfig \<Rightarrow> rsys \<Rightarrow> rsys" where
  "create_check i T conf s =
     at i (if rs_closed s
           then CrDone (Inl (ErrTopic (cfg_Name conf) ActionCreatingTopic ErrIntracomClosed))
           else CrLookup T conf) s"

definition create_lookup :: "nat \<Rightarrow> gotype \<Rightarrow> TopicConfig \<Rightarrow> rsys \<Rightarrow> rsys" where
  "create_lookup i T conf s =
     at i (case rs_topics s (cfg_Name conf) of
         None \<Rightarrow> CrStore T conf
       | Some r \<Rightarrow>
           if type_of r s \<noteq> Some T
           then CrDone (Inl (ErrTopic (cfg_Name conf) ActionCreatingTopic ErrInvalidTopicType))
           else if cfg_ErrIfExists conf
           then CrDone (Inl (ErrTopic (cfg_Name conf) ActionCreatingTopic ErrTopicAlreadyExists))
           else CrDone (Inr r)) s"

definition create_store :: "nat \<Rightarrow> gotype \<Rightarrow> TopicConfig \<Rightarrow> rsys \<Rightarrow> rsys" where
  "create_store i T conf s =
     at i (CrDone (Inr (rs_next s)))
       (s\<lparr>rs_topics := (rs_topics s)(cfg_Name conf \<mapsto> rs_next s),
          rs_heap := (rs_heap s)(rs_next s \<mapsto> \<lparr>rt_type = T, rt_closed = False, rt_hung = False\<rparr>),
          rs_next := Suc (rs_next s)\<rparr>)"

text \<open>\<open>RemoveTopic\<close>: the lookup, \<open>topic.Close\<close> up to its request, and the deletion.\<close>

definition remove_lookup :: "nat \<Rightarrow> gotype \<Rightarrow> string \<Rightarrow> rsys \<Rightarrow> rsys" where
  "remove_lookup i T n s =
     at i (case rs_topics s n of
         None \<Rightarrow> RmFailed (ErrTopic n ActionRemovingTopic ErrTopicDoesNotExist)
       | Some r \<Rightarrow> if type_of r s \<noteq> Some T
                  then RmFailed (ErrTopic n ActionRemovingTopic ErrInvalidTopicType)
                  else RmSwap n r) s"

definition remove_swap :: "nat \<Rightarrow> string \<Rightarrow> nat \<Rightarrow> rsys \<Rightarrow> rsys" where
  "remove_swap i n r s =
     (if was_closed r s
      then at i (RmFailed (ErrTopic n ActionRemovingTopic (OtherError ''topic already closed''))) s
      else at i (RmWait n r) (swap_closed r s))"

definition remove_delete :: "nat \<Rightarrow> string \<Rightarrow> nat \<Rightarrow> rsys \<Rightarrow> rsys" where
  "remove_delete i n r s = at i (RmRemoved r) (s\<lparr>rs_topics := (rs_topics s)(n := None)\<rparr>)"

text \<open>A retry of \<open>CreateSubscription\<close>, and the lookup of \<open>RemoveSubscription\<close>.\<close>

definition poll_check :: "nat \<Rightarrow> string \<Rightarrow> rsys \<Rightarrow> rsys" where
  "poll_check i n s = at i (if rs_closed s then PollRefused else PollLookup n) s"

definition poll_lookup :: "nat \<Rightarrow> string \<Rightarrow> rsys \<Rightarrow> rsys" where
  "poll_lookup i n s = at i (case rs_topics s n of None \<Rightarrow> PollCheck n | Some r \<Rightarrow> PollFound r) s"

definition unsub_lookup :: "nat \<Rightarrow> string \<Rightarrow> rsys \<Rightarrow> rsys" where
  "unsub_lookup i n s = at i (UnsubFound (rs_topics s n)) s"

text \<open>\<open>Close\<close>: the swap of the flag, and one turn of the loop, with the lock held.\<close>

definition close_swap :: "nat \<Rightarrow> rsys \<Rightarrow> rsys" where
  "close_swap i s =
     (if rs_closed s then at i (ClDone (Some (ErrIntracom ActionClosingTopic ErrIntracomClosed))) s
      else at i ClLock (s\<lparr>rs_closed := True\<rparr>))"

fun close_turn :: "nat \<Rightarrow> string list \<Rightarrow> rsys \<Rightarrow> rsys" where
  "close_turn i [] s = at i (ClDone None) (s\<lparr>rs_topics := Map.empty, rs_lock := None\<rparr>)"
| "close_turn i (n # ns) s =
     (case rs_topics s n of
        None \<Rightarrow> at i (ClLoop ns) s
      | Some r \<Rightarrow>
          if type_of r s = Some AnyType \<and> \<not> was_closed r s
          then at i (ClAwait r ns) (swap_closed r s) else at i (ClLoop ns) s)"

text \<open>
  The next step of a call; \<open>None\<close> when it waits, for the lock or for the answer of a topic's
  broadcaster, or has returned. Taking the lock for the loop of \<open>Close\<close> is a step of its own.
\<close>

abbreviation if_free :: "rsys \<Rightarrow> rsys \<Rightarrow> rsys option" where
  "if_free s s' \<equiv> (if rs_lock s \<noteq> None then None else Some s')"

fun call_step :: "nat \<Rightarrow> rpc \<Rightarrow> rsys \<Rightarrow> rsys option" where
  "call_step i (CrCheck T conf) s = Some (create_check i T conf s)"
| "call_step i (CrLookup T conf) s = if_free s (create_lookup i T conf s)"
| "call_step i (CrStore T conf) s = if_free s (create_store i T conf s)"
| "call_step i (RmLookup T n) s = if_free s (remove_lookup i T n s)"
| "call_step i (RmSwap n r) s = Some (remove_swap i n r s)"
| "call_step i (RmWait n r) s = (if hung r s then None else Some (at i (RmDelete n r) s))"
| "call_step i (RmDelete n r) s = if_free s (remove_delete i n r s)"
| "call_step i (PollCheck n) s = Some (poll_check i n s)"
| "call_step i (PollLookup n) s = if_free s (poll_lookup i n s)"
| "call_step i (UnsubLookup n) s = if_free s (unsub_lookup i n s)"
| "call_step i ClSwap s = Some (close_swap i s)"
| "call_step i (ClLoop ns) s = Some (close_turn i ns s)"
| "call_step i (ClAwait r ns) s = (if hung r s then None else Some (at i (ClLoop ns) s))"
| "call_step i _ s = None"

lemmas step_defs [simp] = create_check_def create_lookup_def create_store_def remove_lookup_def
  remove_swap_def remove_delete_def poll_check_def poll_lookup_def unsub_lookup_def close_swap_def

text \<open>
  A step of the system: of a call; \<open>Close\<close> takes the lock, with the order in which it will
  range over the topics; the holder of a topic closes it himself; a broadcaster gets stuck.
\<close>

inductive rstep :: "rsys \<Rightarrow> rsys \<Rightarrow> bool" where
  call: "rs_calls s i = Some p \<Longrightarrow> call_step i p s = Some s' \<Longrightarrow> rstep s s'"
| lock: "rs_calls s i = Some ClLock \<Longrightarrow> rs_lock s = None \<Longrightarrow>
    distinct ns \<Longrightarrow> set ns = dom (rs_topics s) \<Longrightarrow> rstep s (at i (ClLoop ns) (s\<lparr>rs_lock := Some i\<rparr>))"
| held: "rs_heap s r \<noteq> None \<Longrightarrow> \<not> was_closed r s \<Longrightarrow> rstep s (swap_closed r s)"
| stuck: "rs_heap s r = Some t \<Longrightarrow>
    rstep s (s\<lparr>rs_heap := (rs_heap s)(r \<mapsto> t\<lparr>rt_hung := True\<rparr>)\<rparr>)"

definition rreach :: "rsys \<Rightarrow> rsys \<Rightarrow> bool" where
  "rreach = rstep\<^sup>*\<^sup>*"

lemma rreach_induct [consumes 1, case_names base step]:
  assumes "rreach s t" and "P s" and "\<And>u v. P u \<Longrightarrow> rstep u v \<Longrightarrow> P v"
  shows "P t"
  using assms(1) unfolding rreach_def by (induction rule: rtranclp_induct) (use assms(2,3) in blast)+

text \<open>A registry as it is between the calls, and calls that are about to begin.\<close>

definition rs_of :: "'v intracom \<Rightarrow> (nat \<rightharpoonup> rpc) \<Rightarrow> rsys" where
  "rs_of ic calls =
     \<lparr>rs_topics = topics ic, rs_closed = ic_closed ic,
      rs_heap = (\<lambda>r. map_option (\<lambda>(T, t). \<lparr>rt_type = T, rt_closed = t_closed t,
         rt_hung = (status (t_bc t) \<noteq> Running \<and> \<not> (t_closed t \<and> status (t_bc t) = Done))\<rparr>) (heap ic r)),
      rs_next = next_topic ic, rs_lock = None, rs_calls = calls\<rparr>"

fun begins :: "rpc \<Rightarrow> bool" where
  "begins (CrCheck T conf) = True"
| "begins (RmLookup T n) = True"
| "begins (PollCheck n) = True"
| "begins (UnsubLookup n) = True"
| "begins ClSwap = True"
| "begins _ = False"

definition all_begin :: "(nat \<rightharpoonup> rpc) \<Rightarrow> bool" where
  "all_begin calls \<longleftrightarrow> (\<forall>i p. calls i = Some p \<longrightarrow> begins p)"

lemma at_fields [simp]:
  "rs_calls (at i p s) = (rs_calls s)(i \<mapsto> p)" "rs_topics (at i p s) = rs_topics s"
  "rs_closed (at i p s) = rs_closed s" "rs_heap (at i p s) = rs_heap s"
  "rs_next (at i p s) = rs_next s" "rs_lock (at i p s) = rs_lock s"
  by (simp_all add: at_def)

lemma swap_fields [simp]:
  "rs_calls (swap_closed r s) = rs_calls s" "rs_topics (swap_closed r s) = rs_topics s"
  "rs_closed (swap_closed r s) = rs_closed s" "rs_next (swap_closed r s) = rs_next s"
  "rs_lock (swap_closed r s) = rs_lock s"
  by (simp_all add: swap_closed_def)

lemma close_turn_other: "j \<noteq> i \<Longrightarrow> rs_calls (close_turn i ns s) j = rs_calls s j"
  by (cases ns) (auto split: option.splits)

lemma call_step_other: "call_step i p s = Some s' \<Longrightarrow> j \<noteq> i \<Longrightarrow> rs_calls s' j = rs_calls s j"
  by (cases p) (auto simp: close_turn_other split: if_splits option.splits)

subsection \<open>A call that nobody overlaps\<close>

text \<open>
  Calls that go on in a given order; a turn of a call that waits or is over is skipped. By
  itself a call does, in its steps, what the function for it says.
\<close>

fun run_calls :: "nat list \<Rightarrow> rsys \<Rightarrow> rsys" where
  "run_calls [] s = s"
| "run_calls (i # js) s =
     run_calls js (case rs_calls s i of None \<Rightarrow> s
       | Some p \<Rightarrow> (case call_step i p s of None \<Rightarrow> s | Some s' \<Rightarrow> s'))"

lemma rreach_step: "rreach s t \<Longrightarrow> rstep t u \<Longrightarrow> rreach s u"
  unfolding rreach_def by (rule rtranclp.rtrancl_into_rtrancl)

lemma rreach_refl [simp]: "rreach s s"
  by (simp add: rreach_def)

lemma run_calls_reach: "rreach s t \<Longrightarrow> rreach s (run_calls js t)"
proof (induction js arbitrary: t)
  case (Cons i js)
  have "rreach s (case rs_calls t i of None \<Rightarrow> t
    | Some p \<Rightarrow> (case call_step i p t of None \<Rightarrow> t | Some s' \<Rightarrow> s'))"
    using Cons.prems by (auto split: option.splits intro: rreach_step [OF _ rstep.call])
  from Cons.IH [OF this] show ?case by simp
qed simp

theorem create_alone:
  assumes "CreateTopic T (Some ic) conf = (res, Some ic')"
  shows "run_calls [i, i, i] (rs_of ic (calls(i \<mapsto> CrCheck T conf))) = rs_of ic' (calls(i \<mapsto> CrDone res))"
proof (cases "topics ic (cfg_Name conf)")
  case None
  with assms show ?thesis
    by (cases "ic_closed ic")
      (auto simp: CreateTopic_def create_commit_def rs_of_def at_def NewTopic_def bc_init_def fun_eq_iff)
next
  case (Some r)
  with assms show ?thesis
    by (cases "ic_closed ic"; cases "heap ic r"; cases "cfg_ErrIfExists conf")
      (auto simp: CreateTopic_def create_commit_def rs_of_def at_def type_of_def split: if_splits)
qed

lemma close_of_open_topic:
  assumes "topic_Close order t = (Some res, t')" and "\<not> t_closed t"
  shows "res = None \<and> status (t_bc t) = Running \<and> t_closed t' \<and> status (t_bc t') = Done"
proof -
  have c: "t_closed t'" using topic_ops.close_closes [of order t] assms(1) by simp
  from assms c show ?thesis
    by (auto simp: topic_Close_def serve_def bc_request_def bc_close_def Let_def split_def
        split: if_splits option.splits response.splits)
qed

text \<open>The same for \<open>RemoveTopic\<close>, where it returns.\<close>

theorem remove_alone:
  assumes "RemoveTopic T (Some ic) n order = (Some res, Some ic')"
  shows "run_calls [i, i, i, i] (rs_of ic (calls(i \<mapsto> RmLookup T n))) =
    rs_of ic' (calls(i \<mapsto> (case res of None \<Rightarrow> RmRemoved (the (topics ic n)) | Some e \<Rightarrow> RmFailed e)))"
proof (cases "\<exists>r t. topics ic n = Some r \<and> heap ic r = Some (T, t) \<and> \<not> t_closed t")
  case True
  then obtain r t where h: "topics ic n = Some r" "heap ic r = Some (T, t)" "\<not> t_closed t" by blast
  with assms obtain o' t' where c: "topic_Close order t = (Some o', t')"
    by (auto simp: RemoveTopic_def Let_def split: option.splits prod.splits)
  from assms h c close_of_open_topic [OF c h(3)] show ?thesis
    by (auto simp: RemoveTopic_def rs_of_def at_def type_of_def was_closed_def hung_def swap_closed_def
      fun_eq_iff)
next
  case False
  show ?thesis
  proof (cases "\<exists>r t. topics ic n = Some r \<and> heap ic r = Some (T, t)")
    case True
    then obtain r t where h: "topics ic n = Some r" "heap ic r = Some (T, t)" by blast
    with False have cl: "t_closed t" by blast
    have "(heap ic)(r \<mapsto> (T, t)) = heap ic" using h(2) by auto
    with assms h cl have "res = Some (ErrTopic n ActionRemovingTopic (OtherError ''topic already closed''))"
      "ic' = ic" by (auto simp: RemoveTopic_def topic_Close_def)
    with h cl show ?thesis by (simp add: rs_of_def at_def type_of_def was_closed_def)
  next
    case none: False
    then obtain e where "res = Some e" "ic' = ic"
      "call_step i (RmLookup T n) (rs_of ic (calls(i \<mapsto> RmLookup T n))) = Some (rs_of ic (calls(i \<mapsto> RmFailed e)))"
      using assms by (cases "topics ic n"; cases "heap ic (the (topics ic n))")
        (auto simp: RemoveTopic_def rs_of_def at_def type_of_def split: if_splits)
    then show ?thesis by (simp add: rs_of_def)
  qed
qed

subsection \<open>Who closed what\<close>

text \<open>
  The topic a call has closed itself, and the call of \<open>Close\<close> that has closed the registry.
\<close>

fun owner :: "rpc \<Rightarrow> nat option" where
  "owner (RmWait n r) = Some r"
| "owner (RmDelete n r) = Some r"
| "owner (RmRemoved r) = Some r"
| "owner (ClAwait r ns) = Some r"
| "owner _ = None"

fun closing :: "rpc \<Rightarrow> bool" where
  "closing ClLock = True"
| "closing (ClLoop ns) = True"
| "closing (ClAwait r ns) = True"
| "closing (ClDone None) = True"
| "closing _ = False"

fun holds_lock :: "rpc \<Rightarrow> bool" where
  "holds_lock (ClLoop ns) = True"
| "holds_lock (ClAwait r ns) = True"
| "holds_lock _ = False"


fun aim :: "rpc \<Rightarrow> nat option" where
  "aim (RmSwap n r) = Some r"
| "aim _ = None"

definition aims :: "rsys \<Rightarrow> nat \<Rightarrow> nat option" where
  "aims s i = (case rs_calls s i of None \<Rightarrow> None | Some p \<Rightarrow> aim p)"

definition own :: "rsys \<Rightarrow> nat \<Rightarrow> nat option" where
  "own s i = (case rs_calls s i of None \<Rightarrow> None | Some p \<Rightarrow> owner p)"

definition closer :: "rsys \<Rightarrow> nat \<Rightarrow> bool" where
  "closer s i \<longleftrightarrow> (case rs_calls s i of None \<Rightarrow> False | Some p \<Rightarrow> closing p)"

definition holder :: "rsys \<Rightarrow> nat \<Rightarrow> bool" where
  "holder s i \<longleftrightarrow> (case rs_calls s i of None \<Rightarrow> False | Some p \<Rightarrow> holds_lock p)"

definition rs_inv :: "rsys \<Rightarrow> bool" where
  "rs_inv s \<longleftrightarrow>
     (\<forall>r. rs_heap s r \<noteq> None \<longrightarrow> r < rs_next s) \<and>
     (\<forall>n r. rs_topics s n = Some r \<longrightarrow> rs_heap s r \<noteq> None) \<and>
     (\<forall>i r. aims s i = Some r \<longrightarrow> rs_heap s r \<noteq> None) \<and>
     (\<forall>i r. own s i = Some r \<longrightarrow> was_closed r s) \<and>
     (\<forall>i j r. own s i = Some r \<longrightarrow> own s j = Some r \<longrightarrow> i = j) \<and>
     (\<forall>i. closer s i \<longrightarrow> rs_closed s) \<and>
     (\<forall>i j. closer s i \<longrightarrow> closer s j \<longrightarrow> i = j) \<and>
     (\<forall>i. holder s i \<longleftrightarrow> rs_lock s = Some i)"

lemma places_at [simp]:
  "aims (at i p s) j = (if j = i then aim p else aims s j)"
  "own (at i p s) j = (if j = i then owner p else own s j)"
  "closer (at i p s) j = (if j = i then closing p else closer s j)"
  "holder (at i p s) j = (if j = i then holds_lock p else holder s j)"
  by (simp_all add: aims_def own_def closer_def holder_def)

lemma places_of: "rs_calls s i = Some p \<Longrightarrow> aims s i = aim p \<and> own s i = owner p \<and> closer s i = closing p \<and> holder s i = holds_lock p"
  by (simp add: aims_def own_def closer_def holder_def)

lemma places_frame:
  "rs_calls s' = rs_calls s \<Longrightarrow>
    aims s' = aims s \<and> own s' = own s \<and> closer s' = closer s \<and> holder s' = holder s"
  by (simp add: aims_def own_def closer_def holder_def fun_eq_iff)

lemma places_swap [simp]:
  "aims (swap_closed r s) = aims s" "own (swap_closed r s) = own s" "closer (swap_closed r s) = closer s"
  "holder (swap_closed r s) = holder s"
  using places_frame [of "swap_closed r s" s] by simp_all

lemma was_closed_simps [simp]:
  "was_closed r (at i p s) = was_closed r s"
  "was_closed r (swap_closed q s) = (was_closed r s \<or> (r = q \<and> rs_heap s r \<noteq> None))"
  by (auto simp: was_closed_def swap_closed_def split: option.splits)

lemma swap_closed_dom [simp]: "(rs_heap (swap_closed q s) r = None) = (rs_heap s r = None)"
  by (auto simp: swap_closed_def)

text \<open>
  A step keeps the invariant if it leaves the calls that own a topic or are closing at most
  as they are, and a topic that is closed closed.
\<close>

lemma inv_less:
  assumes "rs_inv s" and "rs_closed s' = rs_closed s" and "rs_lock s' = rs_lock s"
    and "\<And>r. rs_heap s' r \<noteq> None \<Longrightarrow> r < rs_next s'"
    and "\<And>n r. rs_topics s' n = Some r \<Longrightarrow> rs_heap s' r \<noteq> None"
    and "\<And>j q. aims s' j = Some q \<Longrightarrow> rs_heap s' q \<noteq> None"
    and "\<And>j q. own s' j = Some q \<Longrightarrow> own s j = Some q \<or> \<not> was_closed q s \<and> j = i"
    and "\<And>j q. own s' j = Some q \<Longrightarrow> was_closed q s'"
    and "\<And>j. closer s' j \<Longrightarrow> closer s j" and "\<And>j. holder s' j = holder s j"
  shows "rs_inv s'"
proof -
  have uniq: "j = k" if "own s' j = Some q" "own s' k = Some q" for j k q
  proof -
    have "own s l = Some q \<longrightarrow> was_closed q s" for l using assms(1) unfolding rs_inv_def by blast
    moreover have "own s j = Some q \<and> own s k = Some q \<longrightarrow> j = k" using assms(1) unfolding rs_inv_def by blast
    ultimately show ?thesis using assms(7) [OF that(1)] assms(7) [OF that(2)] by blast
  qed
  have one: "j = k" if "closer s' j" "closer s' k" for j k
    using assms(1) assms(9) [OF that(1)] assms(9) [OF that(2)] unfolding rs_inv_def by blast
  have cl: "rs_closed s'" if "closer s' j" for j
    using assms(1) assms(9) [OF that] assms(2) unfolding rs_inv_def by blast
  have hl: "holder s' j \<longleftrightarrow> rs_lock s' = Some j" for j
    using assms(1,3,10) unfolding rs_inv_def by simp
  show ?thesis unfolding rs_inv_def
    using assms(4,5,6,8) uniq one cl hl by (intro conjI) blast+
qed

text \<open>A call that goes on without closing, opening or locking anything.\<close>

lemma inv_at:
  assumes "rs_inv s" and "owner p = None \<or> owner p = own s i"
    and "\<And>r. aim p = Some r \<Longrightarrow> rs_heap s r \<noteq> None" and "closing p \<longrightarrow> closer s i"
    and "holds_lock p = holder s i"
  shows "rs_inv (at i p s)"
proof (rule inv_less [OF assms(1)])
  show "own (at i p s) j = Some q \<Longrightarrow> was_closed q (at i p s)" for j q
    using assms(1,2) by (auto simp: rs_inv_def split: if_splits)
qed (use assms in \<open>auto simp: rs_inv_def split: if_splits\<close>)

lemma inv_swap: "rs_inv s \<Longrightarrow> rs_inv (swap_closed r s)"
  by (auto simp: rs_inv_def)

lemma inv_own:
  assumes "rs_inv s" and "rs_heap s r \<noteq> None" and "\<not> was_closed r s"
    and "owner p = Some r" and "closing p \<longrightarrow> closer s i" and "holds_lock p = holder s i"
  shows "rs_inv (at i p (swap_closed r s))"
proof -
  have "aim p = None" using assms(4) by (cases p) simp_all
  moreover have "own s j = Some q \<Longrightarrow> was_closed q s" for j q using assms(1) unfolding rs_inv_def by blast
  ultimately show ?thesis
    by (intro inv_less [OF assms(1), where i = i]) (use assms in \<open>auto simp: rs_inv_def split: if_splits\<close>)
qed

lemma inv_frame:
  assumes "rs_inv s" and "rs_calls s' = rs_calls s" and "rs_closed s' = rs_closed s"
    and "rs_lock s' = rs_lock s" and "\<forall>r. rs_heap s' r \<noteq> None \<longrightarrow> r < rs_next s'"
    and "\<forall>n r. rs_topics s' n = Some r \<longrightarrow> rs_heap s' r \<noteq> None"
    and "\<forall>r. rs_heap s r \<noteq> None \<longrightarrow> rs_heap s' r \<noteq> None"
    and "\<forall>r. was_closed r s \<longrightarrow> was_closed r s'"
  shows "rs_inv s'"
  using assms places_frame [OF assms(2)] by (simp add: rs_inv_def)

lemma inv_forget:
  assumes "rs_inv s" and "\<forall>n r. tm n = Some r \<longrightarrow> rs_heap s r \<noteq> None"
  shows "rs_inv (s\<lparr>rs_topics := tm\<rparr>)"
  using assms by (intro inv_frame [OF assms(1)]) (simp_all add: rs_inv_def was_closed_def)

lemma inv_new:
  assumes "rs_inv s"
  shows "rs_inv (s\<lparr>rs_topics := (rs_topics s)(n \<mapsto> rs_next s),
    rs_heap := (rs_heap s)(rs_next s \<mapsto> t), rs_next := Suc (rs_next s)\<rparr>)"
proof -
  have "rs_heap s (rs_next s) = None" using assms unfolding rs_inv_def by blast
  with assms show ?thesis
    by (intro inv_frame [OF assms])
      (auto simp: rs_inv_def was_closed_def less_Suc_eq split: option.splits)
qed

lemma inv_unlock:
  assumes "rs_inv s" and "holder s i" and "closer s i"
  shows "rs_inv (at i (ClDone None) (s\<lparr>rs_topics := Map.empty, rs_lock := None\<rparr>))"
proof -
  let ?t = "s\<lparr>rs_topics := Map.empty, rs_lock := None\<rparr>"
  have "aims ?t = aims s" "own ?t = own s" "closer ?t = closer s" "holder ?t = holder s" using places_frame [of ?t s] by simp_all
  moreover have "was_closed r ?t = was_closed r s" for r by (simp add: was_closed_def)
  ultimately show ?thesis using assms by (simp add: rs_inv_def) metis
qed

lemma inv_lock:
  assumes "rs_inv s" and "rs_calls s i = Some ClLock" and "rs_lock s = None"
  shows "rs_inv (at i (ClLoop ns) (s\<lparr>rs_lock := Some i\<rparr>))"
proof -
  let ?t = "s\<lparr>rs_lock := Some i\<rparr>"
  have "aims ?t = aims s" "own ?t = own s" "closer ?t = closer s" "holder ?t = holder s" using places_frame [of ?t s] by simp_all
  moreover have "was_closed r ?t = was_closed r s" for r by (simp add: was_closed_def)
  ultimately show ?thesis using assms places_of [OF assms(2)] by (simp add: rs_inv_def) metis
qed

lemma inv_close:
  assumes "rs_inv s" and "rs_calls s i = Some ClSwap" and "\<not> rs_closed s"
  shows "rs_inv (at i ClLock (s\<lparr>rs_closed := True\<rparr>))"
proof -
  let ?t = "s\<lparr>rs_closed := True\<rparr>"
  have "aims ?t = aims s" "own ?t = own s" "closer ?t = closer s" "holder ?t = holder s" using places_frame [of ?t s] by simp_all
  moreover have "was_closed r ?t = was_closed r s" for r by (simp add: was_closed_def)
  ultimately show ?thesis using assms places_of [OF assms(2)] by (simp add: rs_inv_def)
qed

lemma type_of_heap: "type_of r s = Some T \<Longrightarrow> rs_heap s r \<noteq> None"
  by (auto simp: type_of_def)

text \<open>Every step of a call does.\<close>

lemma call_step_inv:
  assumes "call_step i p s = Some s'" and "rs_calls s i = Some p" and "rs_inv s"
  shows "rs_inv s'"
proof -
  note pl = places_of [OF assms(2)]
  have ref: "rs_topics s n = Some r \<Longrightarrow> rs_heap s r \<noteq> None" for n r
    using assms(3) by (simp add: rs_inv_def)
  show ?thesis
  proof (cases p)
    case (CrStore T conf)
    with assms pl show ?thesis
      by (auto split: if_splits intro!: inv_at inv_new simp: own_def closer_def holder_def)
  next
    case (RmDelete n r)
    let ?t = "s\<lparr>rs_topics := (rs_topics s)(n := None)\<rparr>"
    have "rs_inv ?t" by (rule inv_forget [OF assms(3)]) (use ref in auto)
    moreover have "own ?t i = Some r" "\<not> holder ?t i" using pl RmDelete places_frame [of ?t s] by simp_all
    ultimately show ?thesis using assms(1) RmDelete by (auto split: if_splits intro!: inv_at)
  next
    case (ClLoop ns)
    with assms pl ref show ?thesis
      by (cases ns) (auto split: option.splits if_splits; rule inv_unlock inv_own inv_at; simp)+
  next
    case ClSwap
    with assms pl show ?thesis by (auto split: if_splits intro!: inv_at inv_close)
  next
    case (RmSwap n r)
    moreover have "rs_heap s r \<noteq> None" using assms(3) pl RmSwap by (auto simp: rs_inv_def)
    ultimately show ?thesis using assms pl by (auto split: if_splits) (rule inv_at inv_own; simp)+
  qed (use assms pl ref in \<open>auto split: option.splits if_splits intro!: inv_at\<close>)
qed

lemma inv_stuck: "rs_inv s \<Longrightarrow> rs_heap s r = Some t \<Longrightarrow>
    rs_inv (s\<lparr>rs_heap := (rs_heap s)(r \<mapsto> t\<lparr>rt_hung := True\<rparr>)\<rparr>)"
  by (rule inv_frame) (auto simp: rs_inv_def was_closed_def split: option.splits)

lemma rs_inv_step: "rstep s s' \<Longrightarrow> rs_inv s \<Longrightarrow> rs_inv s'"
  by (induction rule: rstep.induct) (auto intro: call_step_inv inv_lock inv_swap inv_stuck)

lemma rs_inv_base:
  assumes "ic_inv ic" and "all_begin calls"
  shows "rs_inv (rs_of ic calls)"
proof -
  have "own (rs_of ic calls) i = None \<and> aims (rs_of ic calls) i = None \<and>
      \<not> closer (rs_of ic calls) i \<and> \<not> holder (rs_of ic calls) i" for i
  proof (cases "calls i")
    case (Some p)
    with assms(2) have "begins p" by (simp add: all_begin_def)
    with Some show ?thesis by (cases p) (simp_all add: own_def aims_def closer_def holder_def rs_of_def)
  qed (simp add: own_def aims_def closer_def holder_def rs_of_def)
  moreover have "rs_heap (rs_of ic calls) r \<noteq> None \<Longrightarrow> r < rs_next (rs_of ic calls)" for r
    using assms(1) by (auto simp: rs_of_def dest: ic_inv_heap)
  moreover have "rs_topics (rs_of ic calls) n = Some r \<Longrightarrow> rs_heap (rs_of ic calls) r \<noteq> None" for n r
    using assms(1) by (auto simp: rs_of_def elim: ic_inv_name)
  moreover have "rs_lock (rs_of ic calls) = None" by (simp add: rs_of_def)
  ultimately show ?thesis unfolding rs_inv_def by simp
qed

subsection \<open>What holds in every run\<close>

lemma rs_inv_reach:
  assumes "ic_reach ic" and "all_begin calls" and "rreach (rs_of ic calls) s"
  shows "rs_inv s"
  using assms(3) by (rule rreach_induct) (auto intro: rs_inv_base rs_inv_step ic_reach_inv assms)

lemma holder_iff: "holder s i \<longleftrightarrow> (\<exists>ns. rs_calls s i = Some (ClLoop ns)) \<or>
    (\<exists>r ns. rs_calls s i = Some (ClAwait r ns))"
  by (auto simp: holder_def elim: holds_lock.elims split: option.splits)

lemma holder_closer: "holder s i \<Longrightarrow> closer s i"
  by (auto simp: holder_iff closer_def)


text \<open>Two calls that remove the same topic, and one that closes the registry.\<close>

definition demo_calls :: "nat \<rightharpoonup> rpc" where
  "demo_calls = [0 \<mapsto> RmLookup AnyType ''t'', 1 \<mapsto> RmLookup AnyType ''t'', 2 \<mapsto> ClSwap,
     3 \<mapsto> PollCheck ''u'']"

definition demo_rs :: rsys where
  "demo_rs = rs_of (demo_ic AnyType :: string intracom) demo_calls"

lemma demo_begin: "all_begin demo_calls"
  by (auto simp: all_begin_def demo_calls_def)

lemma demo_rs_simps: "demo_rs = \<lparr>rs_topics = [''t'' \<mapsto> 0], rs_closed = False,
    rs_heap = [0 \<mapsto> \<lparr>rt_type = AnyType, rt_closed = False, rt_hung = False\<rparr>], rs_next = 1,
    rs_lock = None, rs_calls = demo_calls\<rparr>"
  by (auto simp: demo_rs_def rs_of_def demo_ic_def create_commit_def intracom_New_def NewTopic_def bc_init_def)


lemma hung_simps [simp]: "hung r (at i p s) = hung r s" "hung r (swap_closed q s) = hung r s"
  "hung r (s\<lparr>rs_closed := c\<rparr>) = hung r s"
  by (auto simp: hung_def swap_closed_def split: option.splits)

subsection \<open>A topic that outlives the registry\<close>

lemma rreach_trans: "rreach s t \<Longrightarrow> rreach t u \<Longrightarrow> rreach s u"
  unfolding rreach_def by (rule rtranclp_trans)

lemma close_loop:
  assumes "rs_calls s j = Some (ClLoop ns)" and "\<forall>r. \<not> hung r s"
  shows "\<exists>u. rreach s u \<and> rs_calls u = (rs_calls s)(j \<mapsto> ClDone None) \<and> rs_topics u = Map.empty \<and>
    rs_lock u = None \<and> rs_closed u = rs_closed s \<and> rs_next u = rs_next s"
  using assms
proof (induction ns arbitrary: s)
  case Nil
  let ?u = "at j (ClDone None) (s\<lparr>rs_topics := Map.empty, rs_lock := None\<rparr>)"
  have "rstep s ?u" using Nil(1) by (rule rstep.call) simp
  then have "rreach s ?u" by (rule rreach_step [OF rreach_refl])
  then show ?case by (intro exI [of _ ?u]) simp
next
  case (Cons n ns)
  obtain t where t: "rreach s t" "rs_calls t = (rs_calls s)(j \<mapsto> ClLoop ns)" "rs_closed t = rs_closed s"
    "rs_next t = rs_next s" "\<forall>r. \<not> hung r t"
  proof (cases "\<exists>r. rs_topics s n = Some r \<and> type_of r s = Some AnyType \<and> \<not> was_closed r s")
    case True
    then obtain r where r: "rs_topics s n = Some r" "type_of r s = Some AnyType" "\<not> was_closed r s" by blast
    let ?a = "at j (ClAwait r ns) (swap_closed r s)"
    have "rstep s ?a" using Cons.prems(1) by (rule rstep.call) (simp add: r)
    moreover have "rstep ?a (at j (ClLoop ns) ?a)"
      by (rule rstep.call [where i = j and p = "ClAwait r ns"]) (simp_all add: Cons.prems(2))
    ultimately show ?thesis using Cons.prems
      by (intro that [of "at j (ClLoop ns) ?a"]) (auto intro: rreach_step [OF rreach_step [OF rreach_refl]])
  next
    case False
    have "rstep s (at j (ClLoop ns) s)" using Cons.prems(1)
      by (rule rstep.call) (use False in \<open>auto split: option.splits\<close>)
    then show ?thesis using Cons.prems
      by (intro that [of "at j (ClLoop ns) s"]) (auto intro: rreach_step [OF rreach_refl])
  qed
  have "rs_calls t j = Some (ClLoop ns)" using t(2) by simp
  from Cons.IH [OF this t(5)] obtain u where "rreach t u"
    "rs_calls u = (rs_calls t)(j \<mapsto> ClDone None)" "rs_topics u = Map.empty" "rs_lock u = None"
    "rs_closed u = rs_closed t" "rs_next u = rs_next t" by blast
  with t rreach_trans [OF t(1)] show ?case by (intro exI [of _ u]) simp
qed

text \<open>
  \<open>CreateTopic\<close> asks whether the registry is closed before it takes the lock, and not again.
  So it may overlap with a \<open>Close\<close> and store its topic after it: both return without an error,
  and the registry is closed and holds a topic that is open and that no \<open>Close\<close> will close.
\<close>

theorem topic_outlives_registry:
  assumes "\<not> ic_closed ic" and "topics ic (cfg_Name conf) = None" and "finite (dom (topics ic))"
    and "\<forall>r. \<not> hung r (rs_of ic calls)" and "calls i = Some (CrCheck T conf)"
    and "calls j = Some ClSwap"
  shows "\<exists>s r. rreach (rs_of ic calls) s \<and> rs_calls s i = Some (CrDone (Inr r)) \<and>
    rs_calls s j = Some (ClDone None) \<and> rs_closed s \<and> rs_topics s = [cfg_Name conf \<mapsto> r] \<and>
    type_of r s = Some T \<and> \<not> was_closed r s \<and> call_step k ClSwap s =
      Some (at k (ClDone (Some (ErrIntracom ActionClosingTopic ErrIntracomClosed))) s)"
proof -
  have ij: "i \<noteq> j" using assms(5,6) by auto
  let ?a = "run_calls [i, j, i] (rs_of ic calls)"
  have a: "rreach (rs_of ic calls) ?a" by (rule run_calls_reach) simp
  have v: "rs_calls ?a i = Some (CrStore T conf)" "rs_calls ?a j = Some ClLock" "rs_lock ?a = None"
    "rs_topics ?a = topics ic" "rs_closed ?a" "\<forall>r. \<not> hung r ?a"
    using assms ij by (simp_all add: rs_of_def at_def) (simp add: hung_def)
  from v a obtain s where s: "rreach (rs_of ic calls) s" "rs_calls s i = Some (CrStore T conf)"
    "rs_calls s j = Some ClLock" "rs_lock s = None" "rs_topics s = topics ic" "rs_closed s"
    "\<forall>r. \<not> hung r s" by blast
  obtain ns where ns: "set ns = dom (rs_topics s)" "distinct ns"
    using finite_distinct_list [OF assms(3)] s(5) by auto
  let ?b = "at j (ClLoop ns) (s\<lparr>rs_lock := Some j\<rparr>)"
  have b: "rreach (rs_of ic calls) ?b" by (rule rreach_step [OF s(1) rstep.lock]) (use s ns in simp_all)
  have "\<forall>r. \<not> hung r ?b" using s(7) by (simp add: hung_def)
  from close_loop [of ?b j ns, OF _ this] obtain u where u: "rreach ?b u"
    "rs_calls u = (rs_calls ?b)(j \<mapsto> ClDone None)" "rs_topics u = Map.empty" "rs_lock u = None"
    "rs_closed u" using s(6) by auto
  let ?u = "run_calls [i] u"
  have "rreach (rs_of ic calls) ?u" by (rule run_calls_reach) (rule rreach_trans [OF b u(1)])
  moreover have "rs_calls u i = Some (CrStore T conf)" using u(2) s(2) ij by simp
  ultimately show ?thesis using u ij
    by (intro exI [of _ ?u] exI [of _ "rs_next u"]) (simp add: type_of_def was_closed_def)
qed

subsection \<open>A topic that does not close\<close>

text \<open>Calls that are about to take the lock.\<close>

fun needs_lock :: "rpc \<Rightarrow> bool" where
  "needs_lock (CrLookup T conf) = True"
| "needs_lock (CrStore T conf) = True"
| "needs_lock (RmLookup T n) = True"
| "needs_lock (RmDelete n r) = True"
| "needs_lock (PollLookup n) = True"
| "needs_lock (UnsubLookup n) = True"
| "needs_lock _ = False"

lemma locked_out: "needs_lock p \<Longrightarrow> rs_lock s \<noteq> None \<Longrightarrow> call_step i p s = None"
  by (cases p) auto

definition stuck_close :: "nat \<Rightarrow> nat \<Rightarrow> string list \<Rightarrow> rsys \<Rightarrow> rsys \<Rightarrow> bool" where
  "stuck_close i r ns s u \<longleftrightarrow> rs_calls u i = Some (ClAwait r ns) \<and> rs_lock u = Some i \<and> hung r u \<and>
     rs_topics u = rs_topics s \<and>
     (\<forall>j p. rs_calls s j = Some p \<longrightarrow> needs_lock p \<longrightarrow> rs_calls u j = Some p)"

lemma call_step_locked:
  assumes "call_step j p u = Some u'" and "rs_lock u = Some i" and "\<not> holds_lock p"
  shows "rs_lock u' = Some i \<and> rs_topics u' = rs_topics u \<and> hung r u' = hung r u"
  using assms by (cases p) (auto split: if_splits option.splits)

lemma stuck_close_step:
  assumes "stuck_close i r ns s u" and "rs_inv u" and "rstep u v"
  shows "stuck_close i r ns s v"
  using assms(3)
proof cases
  case (call j p)
  have nh: "\<not> holds_lock p"
  proof
    assume "holds_lock p"
    with call(1) have "rs_lock u = Some j" using assms(2) places_of [OF call(1)] by (simp add: rs_inv_def)
    with call assms(1) show False by (auto simp: stuck_close_def)
  qed
  have "rs_lock u = Some i" using assms(1) by (simp add: stuck_close_def)
  note c = call_step_locked [OF call(2) this nh, of r]
  have "\<not> needs_lock p" using locked_out [of p u j] call(2) assms(1) by (auto simp: stuck_close_def)
  then have "rs_calls v k = rs_calls u k" if "rs_calls u k = Some q" "needs_lock q \<or> k = i" for k q
    using call_step_other [OF call(2), of k] call(1) that nh assms(1) by (cases "k = j") (auto simp: stuck_close_def)
  with c assms(1) show ?thesis by (auto simp: stuck_close_def)
next
  case (lock j)
  with assms(1) show ?thesis by (simp add: stuck_close_def)
next
  case (held q)
  with assms(1) show ?thesis by (simp add: stuck_close_def)
next
  case (stuck q t)
  with assms(1) show ?thesis by (auto simp: stuck_close_def hung_def)
qed

text \<open>
  C32: a topic that does not close stops the registry. While \<open>Close\<close> waits for a topic whose
  broadcaster waits in vain for a consumer, it keeps the lock of the registry: from then on,
  whatever happens, it does not return, no topic is added or removed, and every other call
  that has come to a use of the lock stays there for ever, be it a \<open>CreateTopic\<close>, a
  \<open>RemoveTopic\<close> or a \<open>RemoveSubscription\<close> of another topic, or a \<open>CreateSubscription\<close> that
  was to wait for a limited time only.
\<close>

theorem close_of_hung_topic_stops_registry:
  assumes "ic_reach ic" and "all_begin calls" and "rreach (rs_of ic calls) s"
    and "rs_calls s i = Some (ClAwait r ns)" and "hung r s" and "rreach s u"
  shows "rs_calls u i = Some (ClAwait r ns) \<and> rs_topics u = rs_topics s \<and>
    (\<forall>j p. rs_calls s j = Some p \<longrightarrow> needs_lock p \<longrightarrow>
       rs_calls u j = Some p \<and> call_step j p u = None)"
proof -
  have inv: "rs_inv s" by (rule rs_inv_reach [OF assms(1-3)])
  have "rs_lock s = Some i" using inv places_of [OF assms(4)] by (simp add: rs_inv_def)
  with assms(4,5) have "stuck_close i r ns s s" by (simp add: stuck_close_def)
  from assms(6) have "rs_inv u \<and> stuck_close i r ns s u"
    by (rule rreach_induct) (use inv \<open>stuck_close i r ns s s\<close> in \<open>auto intro: rs_inv_step stuck_close_step\<close>)
  then show ?thesis by (auto simp: stuck_close_def intro: locked_out)
qed

text \<open>
  The registry has one topic, whose broadcaster waits in vain. \<open>Close\<close> comes to wait for it
  while a subscription polls for another topic.
\<close>

theorem close_of_hung_topic_stops_registry_witness:
  "\<exists>s. rreach demo_rs s \<and> (\<forall>u. rreach s u \<longrightarrow> rs_calls u 2 = Some (ClAwait 0 []) \<and>
     rs_calls u 3 = Some (PollLookup ''u'') \<and> rs_calls u 0 = Some (RmLookup AnyType ''t''))"
proof -
  let ?a = "demo_rs\<lparr>rs_heap := (rs_heap demo_rs)(0 \<mapsto> \<lparr>rt_type = AnyType, rt_closed = False, rt_hung = True\<rparr>)\<rparr>"
  let ?b = "run_calls [3, 2] ?a"
  let ?c = "at 2 (ClLoop [''t'']) (?b\<lparr>rs_lock := Some 2\<rparr>)"
  let ?s = "run_calls [2] ?c"
  have "rstep demo_rs ?a"
    using rstep.stuck [of demo_rs 0 "\<lparr>rt_type = AnyType, rt_closed = False, rt_hung = False\<rparr>"]
    by (simp add: demo_rs_simps)
  then have "rreach demo_rs ?b" by (intro run_calls_reach rreach_step [OF rreach_refl])
  moreover have b: "?b = \<lparr>rs_topics = [''t'' \<mapsto> 0], rs_closed = True,
      rs_heap = [0 \<mapsto> \<lparr>rt_type = AnyType, rt_closed = False, rt_hung = True\<rparr>], rs_next = 1,
      rs_lock = None, rs_calls = demo_calls(3 \<mapsto> PollLookup ''u'', 2 \<mapsto> ClLock)\<rparr>"
    by (simp add: demo_rs_simps demo_calls_def at_def)
  then have "rstep ?b ?c" by (intro rstep.lock) simp_all
  ultimately have r: "rreach demo_rs ?s" by (intro run_calls_reach) (rule rreach_step)
  have v: "rs_calls ?s 2 = Some (ClAwait 0 [])" "hung 0 ?s" "rs_calls ?s 3 = Some (PollLookup ''u'')"
    "rs_calls ?s 0 = Some (RmLookup AnyType ''t'')"
    unfolding b by (simp_all add: at_def type_of_def was_closed_def swap_closed_def hung_def demo_calls_def)
  from r v obtain s where s: "rreach demo_rs s" "rs_calls s 2 = Some (ClAwait 0 [])" "hung 0 s"
    "rs_calls s 3 = Some (PollLookup ''u'')" "rs_calls s 0 = Some (RmLookup AnyType ''t'')" by blast
  note stop = close_of_hung_topic_stops_registry [OF demo_ic_reach demo_begin s(1) [unfolded demo_rs_def] s(2,3)]
  have "rs_calls u 2 = Some (ClAwait 0 []) \<and> rs_calls u 3 = Some (PollLookup ''u'') \<and>
     rs_calls u 0 = Some (RmLookup AnyType ''t'')" if "rreach s u" for u
    using stop [OF that] s(4,5) by (metis needs_lock.simps(3,5))
  with s(1) show ?thesis by blast
qed

end
