(* ===== verification/Rx_ExManager.thy ===== *)
theory Rx_ExManager
  imports Rx_DaemonProps Rx_Watchers
begin

section \<open>The custom manager of the examples (single\_service\_custom\_manager/manager.go)\<close>

text \<open>
  The manager that the documentation shows for the interface \<open>ServiceManager\<close>, as a
  function from the choices it meets to its trace, like the two of the library. It logs
  every error, cancellations too, and recovers no panic.
\<close>

definition log_any_error :: "go_error option \<Rightarrow> mevent list" where
  "log_any_error r = (case r of None \<Rightarrow> [] | Some err \<Rightarrow> [LogError (error_msg err)])"

text \<open>
  One iteration. When the context is done the state becomes \<open>StateExit\<close>, for which the
  \<open>switch\<close> has no case, and the timer is still reset.
\<close>

definition cm_iter :: "string \<Rightarrow> choice \<Rightarrow> State \<Rightarrow> mevent list \<times> (string + State)" where
  "cm_iter nm c s =
     (let enter = Update (mk_ssu nm s TransitionEntering); reset = Timer (1 * Second) in
      case c of
        CtxDone \<Rightarrow> ([enter, reset], Inr StateExit)
      | Fired out \<Rightarrow>
         (if s = StateInit then
            (case out of
               Panics p \<Rightarrow> ([enter, Call Init], Inl p)
             | Returns r \<Rightarrow>
                 (enter # Call Init # log_any_error r @
                    [Update (mk_ssu nm StateInit TransitionExited), reset],
                  Inr (if r \<noteq> None then StateExit else StateIdle)))
          else if s = StateIdle then
            (case out of
               Panics p \<Rightarrow> ([enter, Call Idle], Inl p)
             | Returns r \<Rightarrow>
                 (enter # Call Idle # log_any_error r @
                    [Update (mk_ssu nm StateIdle TransitionExited), reset],
                  Inr (if r \<noteq> None then StateStop else StateRun)))
          else if s = StateRun then
            (case out of
               Panics p \<Rightarrow> ([enter, Call Run], Inl p)
             | Returns r \<Rightarrow>
                 (enter # Call Run # log_any_error r @
                    [Update (mk_ssu nm StateRun TransitionExited), reset], Inr StateStop))
          else if s = StateStop then
            (case out of
               Panics p \<Rightarrow> ([enter, Call Stop], Inl p)
             | Returns r \<Rightarrow>
                 (enter # Call Stop # log_any_error r @
                    [Update (mk_ssu nm StateStop TransitionExited), reset],
                  Inr (if r \<noteq> None then StateExit else StateInit)))
          else ([enter, reset], Inr s)))"

fun cm_loop :: "string \<Rightarrow> State \<Rightarrow> choice list \<Rightarrow> mevent list \<times> mexit" where
  "cm_loop nm s [] =
     (if s = StateExit then ([], Returned)
      else ([Update (mk_ssu nm s TransitionEntering)], Still_running))"
| "cm_loop nm s (c # cs) =
     (if s = StateExit then ([], Returned)
      else case cm_iter nm c s of
        (evs, Inl p) \<Rightarrow> (evs, Panic_out p)
      | (evs, Inr s') \<Rightarrow> (let (evs', x) = cm_loop nm s' cs in (evs @ evs', x)))"

text \<open>The last update leaves its transition out, which is then the zero value.\<close>

definition cm_Manage :: "string \<Rightarrow> choice list \<Rightarrow> mevent list \<times> mexit" where
  "cm_Manage nm cs =
     (let (evs, x) = cm_loop nm StateInit cs
      in (Timer (1 * Second) # evs @
            (if x = Returned then [Update (mk_ssu nm StateExit TransitionUnknown)] else []), x))"

subsection \<open>Its lifecycle\<close>

text \<open>
  What the comment on \<open>Manage\<close> promises: an error of \<open>Init\<close> or \<open>Stop\<close> ends the manager,
  one of \<open>Idle\<close> or \<open>Run\<close> leads to \<open>Stop\<close>, and \<open>Stop\<close> leads back to \<open>Init\<close>.
\<close>

fun cm_next :: lifecycle where
  "cm_next Init ok = (if ok then Some Idle else None)"
| "cm_next Idle ok = Some (if ok then Run else Stop)"
| "cm_next Run ok = Some Stop"
| "cm_next Stop ok = (if ok then Some Init else None)"

fun cm_exit :: "aresult \<Rightarrow> mexit" where
  "cm_exit (Turn j) = Still_running"
| "cm_exit (Cancelled j) = Returned"
| "cm_exit Finished = Returned"
| "cm_exit (Panic p) = Panic_out p"

lemma log_any_error_projections [simp, trace_laws]:
  "calls (log_any_error r) = []" "updates (log_any_error r) = []" "timers (log_any_error r) = []"
  by (simp_all add: log_any_error_def split: option.split)

lemma cm_loop_exit [simp]: "cm_loop nm StateExit cs = ([], Returned)"
  by (cases cs) simp_all

lemma cm_iter_return:
  "(case cm_next k (r = None) of None \<Rightarrow> StateExit | Some j \<Rightarrow> state_of j) = s' \<Longrightarrow>
     cm_iter nm (Fired (Returns r)) (state_of k) =
       (Update (entering nm k) # Call k # log_any_error r @ [Update (exited nm k), Timer (1 * Second)],
        Inr s')"
  by (cases k) (auto simp: cm_iter_def Let_def)

lemma cm_iter_panic:
  "cm_iter nm (Fired (Panics p)) (state_of k) = ([Update (entering nm k), Call k], Inl p)"
  by (cases k) (simp_all add: cm_iter_def)

lemma cm_loop_refines:
  assumes "lc_run cm_next k cs = (ks, a)"
  shows "\<exists>evs. cm_loop nm (state_of k) cs = (evs, cm_exit a) \<and> calls evs = ks \<and>
    updates evs = lc_updates nm ks a \<and> set (timers evs) \<subseteq> {1 * Second}"
  using assms
proof (induction cm_next k cs arbitrary: ks a rule: lc_run.induct)
  case (2 k cs)
  then show ?case by (auto simp: cm_iter_def)
next
  case (3 k p cs)
  then show ?case by (auto simp: cm_iter_panic)
next
  case (4 k r cs)
  show ?case
  proof (cases "cm_next k (r = None)")
    case None
    with 4 cm_iter_return [of k r StateExit nm] show ?thesis by auto
  next
    case (Some j)
    with 4(2) obtain ks' where run: "lc_run cm_next j cs = (ks', a)" and ks: "ks = k # ks'"
      by (auto split: prod.splits)
    from 4(1) [OF Some run] obtain evs where
      evs: "cm_loop nm (state_of j) cs = (evs, cm_exit a)" "calls evs = ks'"
      "updates evs = lc_updates nm ks' a" "set (timers evs) \<subseteq> {1 * Second}" by blast
    from run have "ks' \<noteq> [] \<or> (\<forall>p. a \<noteq> Panic p)" using lc_run_panic_nonempty by blast
    then have "lc_updates nm (k # ks') a = entering nm k # exited nm k # lc_updates nm ks' a"
      by (rule lc_updates_Cons)
    with evs ks Some cm_iter_return [of k r "state_of j" nm] show ?thesis by auto
  qed
qed auto

lemma cm_refines:
  assumes "lc_run cm_next Init cs = (ks, a)"
  shows "\<exists>evs. cm_Manage nm cs = (evs, cm_exit a) \<and> calls evs = ks \<and>
    updates evs = lc_updates nm ks a @
      (if left_loop a then [mk_ssu nm StateExit TransitionUnknown] else []) \<and>
    set (timers evs) = {1 * Second}"
proof -
  have "cm_exit a = Returned \<longleftrightarrow> left_loop a" by (cases a) simp_all
  with cm_loop_refines [OF assms, of nm] show ?thesis by (auto simp: cm_Manage_def)
qed

text \<open>
  C6: The custom manager implements the lifecycle that its comment describes. For all choices,
  it calls the methods of a run of that automaton, announces each before and after, then,
  if it returns, that the service is in the exit state; it returns, waits or panics as the
  automaton does; and every delay is one second.
\<close>

theorem cm_implements_lifecycle:
  "case lc_run cm_next Init cs of (ks, a) \<Rightarrow>
     (case cm_Manage nm cs of (evs, x) \<Rightarrow>
        calls evs = ks \<and> x = cm_exit a \<and> set (timers evs) = {1 * Second} \<and>
        updates evs = lc_updates nm ks a @
          (if left_loop a then [mk_ssu nm StateExit TransitionUnknown] else []))"
proof -
  obtain ks a where run: "lc_run cm_next Init cs = (ks, a)" by force
  from cm_refines [OF run, of nm] obtain evs where
    "cm_Manage nm cs = (evs, cm_exit a)" "calls evs = ks" "set (timers evs) = {1 * Second}"
    "updates evs = lc_updates nm ks a @
      (if left_loop a then [mk_ssu nm StateExit TransitionUnknown] else [])" by blast
  then show ?thesis by (simp add: run)
qed

text \<open>
  It ends by itself exactly when an \<open>Init\<close> or a \<open>Stop\<close> has returned an error.
\<close>

lemma cm_run_finished:
  "lc_run cm_next k (map (\<lambda>r. Fired (Returns r)) rs) = (ks, a) \<Longrightarrow>
     (if \<exists>e. (Init, Some e) \<in> set (zip ks rs) \<or> (Stop, Some e) \<in> set (zip ks rs)
      then a = Finished else \<exists>j. a = Turn j)"
proof (induction rs arbitrary: k ks)
  case (Cons r rs)
  show ?case
  proof (cases "cm_next k (r = None)")
    case None
    with Cons.prems show ?thesis by (cases k; cases r) auto
  next
    case (Some j)
    with Cons.prems obtain ks' where run: "lc_run cm_next j (map (\<lambda>r. Fired (Returns r)) rs) = (ks', a)"
      and ks: "ks = k # ks'" by (auto split: prod.splits)
    have "\<not> ((k = Init \<or> k = Stop) \<and> r \<noteq> None)" using Some by (cases k; cases r) auto
    then have eq: "(\<exists>e. (Init, Some e) \<in> set (zip ks (r # rs)) \<or> (Stop, Some e) \<in> set (zip ks (r # rs))) \<longleftrightarrow>
        (\<exists>e. (Init, Some e) \<in> set (zip ks' rs) \<or> (Stop, Some e) \<in> set (zip ks' rs))"
      using ks by auto
    show ?thesis unfolding eq by (rule Cons.IH [OF run])
  qed
qed auto

theorem cm_returns_iff_init_or_stop_fails:
  assumes "cm_Manage nm (map (\<lambda>r. Fired (Returns r)) rs) = (evs, x)"
  shows "if \<exists>e. (Init, Some e) \<in> set (zip (calls evs) rs) \<or> (Stop, Some e) \<in> set (zip (calls evs) rs)
    then x = Returned else x = Still_running"
proof -
  obtain ks a where run: "lc_run cm_next Init (map (\<lambda>r. Fired (Returns r)) rs) = (ks, a)" by force
  with cm_refines [OF run, of nm] assms have "calls evs = ks" "x = cm_exit a" by auto
  with cm_run_finished [OF run] show ?thesis by (auto split: if_splits)
qed

text \<open>
  The resources that are kept. The library's managers call \<open>Stop\<close> before they return; this
  one does not. When it is cancelled and not on entering \<open>Init\<close>, the last method that ran
  was not \<open>Stop\<close>.
\<close>

theorem cm_cancel_skips_stop:
  assumes "list_all returning pre" and "cm_Manage nm pre = (evs0, Still_running)"
    and "cm_Manage nm (pre @ CtxDone # cs) = (evs, x)" and "last (updates evs0) \<noteq> entering nm Init"
  shows "x = Returned \<and> calls evs = calls evs0 \<and> calls evs \<noteq> [] \<and> last (calls evs) \<noteq> Stop"
proof -
  have ext: "lc_run nxt k pre = (ks, Turn j) \<Longrightarrow> lc_run nxt k (pre @ CtxDone # cs) = (ks, Cancelled j)"
    for nxt :: lifecycle and k ks j
    by (induction nxt k pre arbitrary: ks rule: lc_run.induct) (auto split: option.splits prod.splits)
  obtain ks a where run: "lc_run cm_next Init pre = (ks, a)" by force
  from cm_refines [OF run, of nm] assms(2) have a: "cm_exit a = Still_running" and c: "calls evs0 = ks"
    and u: "updates evs0 = lc_updates nm ks a @
      (if left_loop a then [mk_ssu nm StateExit TransitionUnknown] else [])" by auto
  then obtain j where j: "a = Turn j" by (cases a) auto
  with u assms(4) have "j \<noteq> Init" by (auto simp: lc_updates_left)
  moreover have "ks \<noteq> []"
  proof
    assume "ks = []"
    with run j have "j = Init"
      by (cases "(cm_next, Init, pre)" rule: lc_run.cases) (auto split: option.splits prod.splits if_splits)
    with \<open>j \<noteq> Init\<close> show False by simp
  qed
  moreover have "lc_follows cm_next (last ks) j"
    using lc_run_last [OF run, of j] j \<open>ks \<noteq> []\<close> by simp
  ultimately have "last ks \<noteq> Stop" by (auto simp: lc_follows_def)
  with cm_refines [OF ext [OF run [unfolded j]], of nm] assms(3) c \<open>ks \<noteq> []\<close> show ?thesis by auto
qed

theorem cm_cancel_skips_stop_witness:
  "\<exists>evs. cm_Manage ''s'' [Fired (Returns None), Fired (Returns None), Fired (Returns None), CtxDone] =
     (evs, Returned) \<and> calls evs = [Init, Idle, Run] \<and> last (calls evs) \<noteq> Stop"
proof -
  let ?pre = "[Fired (Returns None), Fired (Returns None), Fired (Returns None)]"
  have r: "list_all returning ?pre" by simp
  obtain evs0 where e0: "cm_Manage ''s'' ?pre = (evs0, Still_running)"
    and c0: "calls evs0 = [Init, Idle, Run]" and u0: "last (updates evs0) \<noteq> entering ''s'' Init"
    by (simp add: cm_Manage_def cm_iter_def log_any_error_def)
  obtain evs x where e: "cm_Manage ''s'' (?pre @ CtxDone # []) = (evs, x)" by force
  from cm_cancel_skips_stop [OF r e0 e u0] e c0 show ?thesis by auto
qed

text \<open>A watch that no snapshot satisfies sends nothing.\<close>

lemma watch_silent:
  assumes "\<And>st. st \<in> set sts \<Longrightarrow> snd (w_turn w st) = None"
  shows "sent (watch_goroutine w sub (map (\<lambda>st. GotStates st True) sts)) = []"
proof -
  have "List.map_filter (\<lambda>st. snd (w_turn w st)) sts = []"
    using assms by (simp add: List.map_filter_def filter_empty_conv)
  then show ?thesis by (cases sub) (simp_all add: watch_goroutine_def watch_loop_snapshots)
qed

subsection \<open>Nobody hears that the service has ended\<close>

text \<open>
  What the states watcher knows of the service after any of the updates: never that it
  enters the exit state.
\<close>

lemma lc_updates_not_exit: "u \<in> set (lc_updates nm ks a) \<Longrightarrow> upd_State u \<noteq> StateExit"
  by (induction nm ks a rule: lc_updates.induct) auto

lemma cm_updates_no_final: "u \<in> set (updates (fst (cm_Manage nm cs))) \<Longrightarrow>
    \<not> (upd_State u = StateExit \<and> upd_Transition u = TransitionEntering)"
proof -
  assume u: "u \<in> set (updates (fst (cm_Manage nm cs)))"
  obtain ks a where "lc_run cm_next Init cs = (ks, a)" by force
  from cm_refines [OF this, of nm] u show ?thesis
    by (auto dest: lc_updates_not_exit split: if_splits)
qed

text \<open>
  A service under the custom manager ends without a signal. The update that it sends last
  has no transition; so in no snapshot, after whatever number of updates and for every
  interleaving with those of other services, is the service entering the exit state, and a
  watch that waits for that, for this service and any others, never signals; although the
  last snapshot has it in the exit state.
\<close>

theorem cm_exit_is_not_signalled:
  assumes "cm_Manage nm cs = (evs, Returned)"
    and "filter (\<lambda>u. Name u = nm) us =
      fst (service_goroutine nm (Manager (CustomManager i)) (CustomRun (updates evs) Returned))"
    and "nm \<in> set services"
  shows "states_after names us nm = Some (mk_update StateExit TransitionUnknown) \<and>
    sent (watch_goroutine (WatchAllServices Entering StateExit services sc) sub
      (map (\<lambda>st. GotStates st True) (map (\<lambda>k. states_after names (take k us)) ks))) = []"
proof -
  have us: "filter (\<lambda>u. Name u = nm) us = updates evs"
    using assms(2) by (simp add: service_goroutine_def)
  obtain js a where run: "lc_run cm_next Init cs = (js, a)" by force
  from cm_refines [OF this, of nm] assms(1) have "cm_exit a = Returned" and
    u: "updates evs = lc_updates nm js a @
      (if left_loop a then [mk_ssu nm StateExit TransitionUnknown] else [])" by auto
  then have "left_loop a" by (cases a) simp_all
  with us u have l: "states_after names us nm = Some (mk_update StateExit TransitionUnknown)"
    by (simp add: states_after_apply Let_def)
  have "\<not> reached Entering StateExit (states_after names (take k us)) nm" for k
  proof -
    let ?xs = "filter (\<lambda>u. Name u = nm) (take k us)"
    have "set ?xs \<subseteq> set (updates evs)"
      unfolding us [symmetric] using set_take_subset [of k us] by auto
    then have "?xs \<noteq> [] \<Longrightarrow> last ?xs \<in> set (updates (fst (cm_Manage nm cs)))"
      using last_in_set [of ?xs] assms(1) by auto
    then have "?xs \<noteq> [] \<Longrightarrow> \<not> (upd_State (last ?xs) = StateExit \<and>
        upd_Transition (last ?xs) = TransitionEntering)"
      using cm_updates_no_final by blast
    then show ?thesis by (auto simp: reached_def states_after_apply interesting_def Let_def)
  qed
  then have "snd (all_turn Entering StateExit services (states_after names (take k us))) = None" for k
    using assms(3) by (auto simp: all_turn_eq list_all_iff)
  then have "sent (watch_goroutine (WatchAllServices Entering StateExit services sc) sub
      (map (\<lambda>st. GotStates st True) (map (\<lambda>k. states_after names (take k us)) ks))) = []"
    by (intro watch_silent) (auto simp: WatchAllServices_def)
  with l show ?thesis by simp
qed

theorem cm_exit_is_not_signalled_witness:
  "\<exists>evs. cm_Manage ''s'' [CtxDone] = (evs, Returned) \<and>
     states_after {''s''} (updates evs) ''s'' = Some (mk_update StateExit TransitionUnknown) \<and>
     sent (watch_goroutine (WatchAllServices Entering StateExit [''s''] (demo_sc ''w'')) (Some 0)
       (map (\<lambda>st. GotStates st True)
         (map (\<lambda>k. states_after {''s''} (take k (updates evs))) [0, 1, 2]))) = []"
proof -
  obtain evs where r: "cm_Manage ''s'' [CtxDone] = (evs, Returned)"
    and u: "updates evs = [entering ''s'' Init, mk_ssu ''s'' StateExit TransitionUnknown]"
    by (simp add: cm_Manage_def cm_iter_def)
  then have f: "filter (\<lambda>u. Name u = ''s'') (updates evs) =
      fst (service_goroutine ''s'' (Manager (CustomManager 0)) (CustomRun (updates evs) Returned))"
    by (simp add: service_goroutine_def)
  have "''s'' \<in> set [''s'']" by simp
  from cm_exit_is_not_signalled [OF r f this] r show ?thesis by blast
qed

end
