(* ===== verification/Rx_ExStartup.thy ===== *)
theory Rx_ExStartup
  imports Rx_Lifecycle Rx_Log
begin

section \<open>A job under RunUntilSuccessManager (examples/run\_until\_success)\<close>

text \<open>
  The service of the example \<open>run_until_success\<close>, and its run under the library's
  manager. A method of a service is a function from what it observes and the service's
  state to the lines it logs, what it returns, and the new state.
\<close>

type_synonym log_line = "Level \<times> string"

record StartupJobService =
  attempts :: int

definition NewStartupJobService :: StartupJobService where
  "NewStartupJobService = \<lparr>attempts = 0\<rparr>"

text \<open>\<open>errors.New\<close>\<close>

abbreviation errors_New :: "string \<Rightarrow> go_error" where
  "errors_New s \<equiv> UserError s False False"

text \<open>
  Each method looks once whether the context is done; the other three return nil either way.
\<close>

definition job_Run ::
  "bool \<Rightarrow> StartupJobService \<Rightarrow> log_line list \<times> go_error option \<times> StartupJobService" where
  "job_Run is_done s =
     (if is_done then ([(LevelInfo, ''entering run'')], None, s)
      else
       (let ls = [(LevelInfo, ''entering run''), (LevelInfo, ''performing work'')] in
        if attempts s < 3
        then (ls, Some (errors_New ''failed to run startup job''), s\<lparr>attempts := attempts s + 1\<rparr>)
        else (ls, None, s)))"

definition job_Init ::
  "bool \<Rightarrow> StartupJobService \<Rightarrow> log_line list \<times> go_error option \<times> StartupJobService" where
  "job_Init is_done s = ([(LevelInfo, ''entering init'')], None, s)"

definition job_Idle ::
  "bool \<Rightarrow> StartupJobService \<Rightarrow> log_line list \<times> go_error option \<times> StartupJobService" where
  "job_Idle is_done s = ([(LevelInfo, ''entering idle'')], None, s)"

definition job_Stop ::
  "bool \<Rightarrow> StartupJobService \<Rightarrow> log_line list \<times> go_error option \<times> StartupJobService" where
  "job_Stop is_done s = ([(LevelInfo, ''entering stop'')], None, s)"

fun job_method ::
  "meth \<Rightarrow> bool \<Rightarrow> StartupJobService \<Rightarrow> log_line list \<times> go_error option \<times> StartupJobService" where
  "job_method Init = job_Init"
| "job_method Idle = job_Idle"
| "job_method Run = job_Run"
| "job_method Stop = job_Stop"

subsection \<open>A service under a manager\<close>

text \<open>
  A manager calls the method whose turn it is, and the method's result decides the next
  turn. \<open>None\<close> in the list of inputs is that the manager's \<open>select\<close> takes the cancelled
  context. The result is the list of the choices that the manager meets, the lines the
  service logs, and the service's state.
\<close>

fun serve ::
  "lifecycle \<Rightarrow> (meth \<Rightarrow> 'e \<Rightarrow> 's \<Rightarrow> log_line list \<times> go_error option \<times> 's) \<Rightarrow> meth \<Rightarrow> 's \<Rightarrow>
     'e option list \<Rightarrow> choice list \<times> log_line list \<times> 's" where
  "serve nxt body k s [] = ([], [], s)"
| "serve nxt body k s (None # es) = ([CtxDone], [], s)"
| "serve nxt body k s (Some e # es) =
     (case body k e s of (ls, r, s') \<Rightarrow>
        (case nxt k (r = None) of
           None \<Rightarrow> ([Fired (Returns r)], ls, s')
         | Some j \<Rightarrow>
             (case serve nxt body j s' es of
                (cs, ls', s'') \<Rightarrow> (Fired (Returns r) # cs, ls @ ls', s''))))"

subsection \<open>The job\<close>

lemmas job_defs = job_Init_def job_Idle_def job_Run_def job_Stop_def NewStartupJobService_def

abbreviation failed :: "go_error option" where
  "failed \<equiv> Some (errors_New ''failed to run startup job'')"

lemma job_choices:
  "fst (serve ru_next job_method Init NewStartupJobService (replicate n (Some False))) =
     map (\<lambda>r. Fired (Returns r)) (take n
       [None, None, failed, None, None, None, failed, None, None, None, failed, None,
        None, None, None])"
  (is "fst (serve _ _ _ _ (replicate n _)) = map _ (take n ?rs)")
proof (cases "n < 15")
  case True
  then show ?thesis by (auto simp: job_defs numeral_eq_Suc less_Suc_eq)
next
  case False
  then have "n = 15 + (n - 15)" by simp
  then obtain k where "n = 15 + k" ..
  then show ?thesis by (simp add: job_defs numeral_eq_Suc)
qed

lemma job_attempts:
  "15 \<le> n \<Longrightarrow>
     attempts (snd (snd (serve ru_next job_method Init NewStartupJobService (replicate n (Some False))))) = 3"
proof -
  assume "15 \<le> n"
  then have "n = 15 + (n - 15)" by simp
  then obtain k where "n = 15 + k" ..
  then show ?thesis by (simp add: job_defs numeral_eq_Suc)
qed

lemma job_lc_run:
  fixes n :: nat
  defines "cs \<equiv> fst (serve ru_next job_method Init NewStartupJobService (replicate n (Some False)))"
  shows "n < 15 \<Longrightarrow> \<exists>ks j. lc_run ru_next Init cs = (ks, Turn j)"
    and "15 \<le> n \<Longrightarrow> lc_run ru_next Init cs =
      ([Init, Idle, Run, Stop, Init, Idle, Run, Stop, Init, Idle, Run, Stop, Init, Idle, Run], Finished)"
  unfolding cs_def job_choices
  by (auto simp: numeral_eq_Suc less_Suc_eq)

lemma startup_job_base:
  assumes "0 < ru_StartupDelay m" and "0 < ru_DefaultDelay m"
    and "serve ru_next job_method Init NewStartupJobService (replicate n (Some False)) = (cs, ls, s)"
  shows "\<exists>evs. if 15 \<le> n
    then ru_Manage m nm (Returns r) cs = (evs, Returned) \<and> attempts s = 3 \<and>
      calls evs = concat (replicate 3 [Init, Idle, Run, Stop]) @ [Init, Idle, Run, Stop] \<and>
      last (updates evs) = final_update nm
    else ru_Manage m nm (Returns r) cs = (evs, Still_running)"
proof -
  have cs: "cs = fst (serve ru_next job_method Init NewStartupJobService (replicate n (Some False)))"
    using assms(3) by simp
  show ?thesis
  proof (cases "15 \<le> n")
    case True
    then obtain c cs' where c: "cs = c # cs'"
      using job_lc_run(2) [OF True] unfolding cs [symmetric] by (cases cs) auto
    from ru_Manage_refines [OF assms(1,2) job_lc_run(2) [OF True, folded cs, unfolded c] _ refl, of "Returns r" nm]
    show ?thesis
      using True job_attempts [OF True] assms(3) c
      by (auto simp: end_calls_def end_updates_def numeral_eq_Suc)
  next
    case False
    then obtain ks j where run: "lc_run ru_next Init cs = (ks, Turn j)"
      using job_lc_run(1) [of n] unfolding cs by auto
    show ?thesis
    proof (cases cs)
      case Nil
      with assms(1) False show ?thesis by (auto simp: ru_Manage_def ru_body_def)
    next
      case (Cons c cs')
      from ru_Manage_refines [OF assms(1,2) run [unfolded Cons] _ refl, of "Returns r" nm] False Cons
      show ?thesis by auto
    qed
  qed
qed

text \<open>
  The start-up job under the library's manager. Never cancelled, it succeeds: once the
  manager has had fifteen turns it returns, after three failed calls of \<open>Run\<close> and a fourth
  that succeeded, each failure followed by \<open>Stop\<close>, \<open>Init\<close> and \<open>Idle\<close>, and a last \<open>Stop\<close>;
  and the exit state is announced last. With fewer turns it is still running. The counter
  ends at three.
\<close>

theorem startup_job_succeeds_at_fourth_run:
  assumes "0 < ru_StartupDelay m" and "0 < ru_DefaultDelay m"
    and "serve ru_next job_method Init NewStartupJobService (replicate n (Some False)) = (cs, ls, s)"
  shows "\<exists>evs. if 15 \<le> n
    then ru_Manage m nm (Returns r) cs = (evs, Returned) \<and> attempts s = 3 \<and>
      calls evs = concat (replicate 3 [Init, Idle, Run, Stop]) @ [Init, Idle, Run, Stop] \<and>
      last (updates evs) = final_update nm
    else ru_Manage m nm (Returns r) cs = (evs, Still_running)"
  using assms by (rule startup_job_base)

theorem startup_job_succeeds_at_fourth_run_witness:
  "\<exists>evs. ru_Manage (NewRunUntilSuccessManager (1 * Second) (3 * Second)) ''startup-job'' (Returns None)
     (fst (serve ru_next job_method Init NewStartupJobService (replicate 20 (Some False)))) =
     (evs, Returned) \<and> last (updates evs) = final_update ''startup-job''"
proof -
  let ?m = "NewRunUntilSuccessManager (1 * Second) (3 * Second)"
  have pos: "0 < ru_StartupDelay ?m" "0 < ru_DefaultDelay ?m"
    by (simp_all add: NewRunUntilSuccessManager_def)
  obtain cs ls s where
    r: "serve ru_next job_method Init NewStartupJobService (replicate 20 (Some False)) = (cs, ls, s)"
    by (cases "serve ru_next job_method Init NewStartupJobService (replicate 20 (Some False))") auto
  from startup_job_succeeds_at_fourth_run [OF pos r, of "''startup-job''" None] r show ?thesis by auto
qed

text \<open>
  A cancelled \<open>Run\<close> passes for a success. When the context is done on entering \<open>Run\<close>, the
  service returns nil, so the manager ends as if the job had been done, with no attempt made.
\<close>

theorem cancelled_job_passes_for_success:
  assumes "0 < ru_StartupDelay m" and "0 < ru_DefaultDelay m"
  shows "\<exists>cs ls s evs.
     serve ru_next job_method Init NewStartupJobService [Some False, Some False, Some True] = (cs, ls, s) \<and>
     attempts s = 0 \<and> CtxDone \<notin> set cs \<and>
     ru_Manage m nm (Returns r) cs = (evs, Returned) \<and> calls evs = [Init, Idle, Run, Stop] \<and>
     errors evs = (case r of None \<Rightarrow> [] | Some e \<Rightarrow> if IsCancelled e then [] else [error_msg e])"
  using assms
  by (simp add: job_defs ru_Manage_def ru_body_def ru_start_def ru_iter_def manager_end_def
      log_unless_cancelled_def split: option.split)

end
