(* ===== verification/Rx_ExServer.thy ===== *)
theory Rx_ExServer
  imports Rx_ExManager Rx_ExStartup
begin

section \<open>The HTTP service of the examples (hello\_world\_service.go, main.go)\<close>

text \<open>
  Four of the examples have a service \<open>HelloWorldAPIService\<close> whose \<open>Run\<close> serves HTTP until
  a second goroutine, its helper, shuts the server down. A helper outlives its \<open>Run\<close> when
  \<open>ListenAndServe\<close> fails, and meets the later calls of \<open>Stop\<close>, \<open>Init\<close> and \<open>Run\<close>. So the
  model is the whole service under its manager, as a system of interleaved steps.

  Of \<open>net/http\<close> it has what the documentation says: \<open>Shutdown\<close> marks a server as shut down
  and makes its \<open>ListenAndServe\<close> return \<open>ErrServerClosed\<close>, also one called later;
  \<open>ListenAndServe\<close> may return another error at any time, and returns for no other reason; a
  method call on a nil server panics. Servers live in a heap, and the field \<open>server\<close> is a
  reference or nil.
\<close>

record http_server =
  hs_Addr :: string
  hs_path :: string
  hs_shut :: bool

text \<open>What a helper shuts down: the field \<open>s.server\<close>, read then, or its argument.\<close>

datatype srvref = Field | Arg "nat option"

datatype helper = Selecting srvref | ShuttingDown srvref | HelperEnded

datatype main = Before meth | Listening nat nat | Awaiting nat | Left_loop | Main_panic string
  | Process_down string

record hw =
  h_server :: "nat option"
  h_heap :: "nat \<rightharpoonup> http_server"
  h_fresh :: nat
  h_ctx :: bool
  h_helpers :: "helper list"
  h_main :: main
  h_results :: "(meth \<times> go_error option) list"
  h_lines :: "log_line list"

definition say :: "Level \<Rightarrow> string \<Rightarrow> hw \<Rightarrow> hw" where
  "say l msg s = s\<lparr>h_lines := h_lines s @ [(l, msg)]\<rparr>"

definition new_server :: "string \<Rightarrow> hw \<Rightarrow> hw" where
  "new_server path s =
     s\<lparr>h_heap := (h_heap s)(h_fresh s \<mapsto> \<lparr>hs_Addr = '':8000'', hs_path = path, hs_shut = False\<rparr>),
       h_server := Some (h_fresh s), h_fresh := Suc (h_fresh s)\<rparr>"

datatype sel = SelCtx | SelTimer

text \<open>
  The code of one example: its methods \<open>Init\<close>, \<open>Idle\<close> and \<open>Stop\<close>; what \<open>Run\<close> logs before it
  listens and the server that it hands to the helper; the helper's \<open>select\<close>, and what it
  logs after \<open>Shutdown\<close>; how \<open>Run\<close> ends after an error and after a shutdown; and the
  manager: which method is next, and whether it calls \<open>Stop\<close> when it leaves its loop.
\<close>

record hw_code =
  c_Init :: "hw \<Rightarrow> go_error option \<times> hw"
  c_Idle :: "hw \<Rightarrow> go_error option \<times> hw"
  c_Stop :: "hw \<Rightarrow> go_error option \<times> hw"
  c_entered :: "hw \<Rightarrow> hw"
  c_ref :: "hw \<Rightarrow> srvref"
  c_starting :: "string \<Rightarrow> hw \<Rightarrow> hw"
  c_select :: "sel \<Rightarrow> srvref \<Rightarrow> hw \<Rightarrow> (helper \<times> hw) option"
  c_shut :: "go_error option \<Rightarrow> hw \<Rightarrow> hw"
  c_failed :: "go_error \<Rightarrow> go_error"
  c_ended :: "hw \<Rightarrow> go_error option \<times> hw"
  c_next :: lifecycle
  c_stops_at_end :: bool

subsection \<open>The four examples\<close>

text \<open>single\_service/main.go. The helper just returns when the context is done.\<close>

definition single_Init :: "hw \<Rightarrow> go_error option \<times> hw" where
  "single_Init s =
     (let s = say LevelInfo ''entering init'' s in
      if h_server s \<noteq> None
      then (Some (errors_New ''server already initialized''), say LevelInfo ''server already initialized'' s)
      else (None, new_server ''/'' s))"

definition single_Idle :: "hw \<Rightarrow> go_error option \<times> hw" where
  "single_Idle s = (None, say LevelInfo ''entering idle'' s)"

definition single_Stop :: "hw \<Rightarrow> go_error option \<times> hw" where
  "single_Stop s = (None, (say LevelInfo ''entering stop'' s)\<lparr>h_server := None\<rparr>)"

definition log_shutdown :: "go_error option \<Rightarrow> hw \<Rightarrow> hw" where
  "log_shutdown e s =
     (case e of
        Some err \<Rightarrow> say LevelError (''error shutting down server: '' @ error_msg err) s
      | None \<Rightarrow> say LevelInfo ''server shutdown'' s)"

fun single_select :: "sel \<Rightarrow> srvref \<Rightarrow> hw \<Rightarrow> (helper \<times> hw) option" where
  "single_select SelCtx r s = (if h_ctx s then Some (HelperEnded, s) else None)"
| "single_select SelTimer r s =
     Some (ShuttingDown r, say LevelError ''timeout waiting for context to close'' s)"

definition single_service :: hw_code where
  "single_service =
     \<lparr>c_Init = single_Init, c_Idle = single_Idle, c_Stop = single_Stop, c_entered = id,
      c_ref = (\<lambda>s. Arg (h_server s)),
      c_starting = (\<lambda>a. say LevelInfo (''server starting with address: '' @ a)),
      c_select = single_select, c_shut = log_shutdown,
      c_failed = (\<lambda>e. errors_New (''server shutdown: '' @ error_msg e)),
      c_ended = (\<lambda>s. (Some ErrLifecycleDone, say LevelInfo ''server stopped'' s)),
      c_next = rc_next, c_stops_at_end = True\<rparr>"

text \<open>
  single\_service\_custom\_manager/main.go, with the custom manager. The helper uses the
  field, and goes on to shut down in both cases of its \<open>select\<close>.
\<close>

fun custom_select :: "sel \<Rightarrow> srvref \<Rightarrow> hw \<Rightarrow> (helper \<times> hw) option" where
  "custom_select SelCtx r s = (if h_ctx s then Some (ShuttingDown r, s) else None)"
| "custom_select SelTimer r s =
     Some (ShuttingDown r, say LevelError ''timeout waiting for context to close'' s)"

definition custom_service :: hw_code where
  "custom_service =
     \<lparr>c_Init = single_Init, c_Idle = single_Idle, c_Stop = single_Stop, c_entered = id,
      c_ref = (\<lambda>s. Field),
      c_starting = (\<lambda>a. say LevelInfo (''server starting with address: '' @ a)),
      c_select = custom_select, c_shut = log_shutdown,
      c_failed = (\<lambda>e. errors_New (''server shutdown: '' @ error_msg e)),
      c_ended = (\<lambda>s. (None, say LevelInfo ''server stopped'' s)),
      c_next = cm_next, c_stops_at_end = False\<rparr>"

text \<open>multi\_service/hello\_world\_service.go. \<open>Idle\<close> waits for its timer or the context.\<close>

definition multi_Init :: "hw \<Rightarrow> go_error option \<times> hw" where
  "multi_Init s = (None, new_server ''/api'' (say LevelInfo ''initializing'' s))"

definition multi_Idle :: "hw \<Rightarrow> go_error option \<times> hw" where
  "multi_Idle s = (None, say LevelInfo ''entered idle state'' s)"

definition multi_Stop :: "hw \<Rightarrow> go_error option \<times> hw" where
  "multi_Stop s = (None, (say LevelInfo ''stopping'' s)\<lparr>h_server := None\<rparr>)"

definition shutdown_signal :: string where
  "shutdown_signal =
     ''received a shutdown signal, cancel server context to stop server gracefully''"

fun multi_select :: "sel \<Rightarrow> srvref \<Rightarrow> hw \<Rightarrow> (helper \<times> hw) option" where
  "multi_select SelCtx r s =
     (if h_ctx s then Some (ShuttingDown r, say LevelInfo shutdown_signal s) else None)"
| "multi_select SelTimer r s = None"

definition log_failed_shutdown :: "go_error option \<Rightarrow> hw \<Rightarrow> hw" where
  "log_failed_shutdown e s =
     (case e of Some err \<Rightarrow> say LevelError (error_msg err) s | None \<Rightarrow> s)"

definition multi_service :: hw_code where
  "multi_service =
     \<lparr>c_Init = multi_Init, c_Idle = multi_Idle, c_Stop = multi_Stop,
      c_entered = say LevelInfo ''entered run state'',
      c_ref = (\<lambda>s. Arg (h_server s)),
      c_starting = (\<lambda>a. say LevelInfo (''server starting at '' @ a)),
      c_select = multi_select, c_shut = log_failed_shutdown,
      c_failed = id, c_ended = (\<lambda>s. (None, say LevelInfo ''server shutdown'' s)),
      c_next = rc_next, c_stops_at_end = True\<rparr>"

text \<open>multi\_service\_rpc/hello\_world\_service.go. The helper uses the field.\<close>

definition rpc_Init :: "hw \<Rightarrow> go_error option \<times> hw" where
  "rpc_Init s = (None, new_server ''/api'' (say LevelDebug ''entered init state'' s))"

definition rpc_Idle :: "hw \<Rightarrow> go_error option \<times> hw" where
  "rpc_Idle s = (None, say LevelDebug ''entered idle state'' s)"

definition rpc_Stop :: "hw \<Rightarrow> go_error option \<times> hw" where
  "rpc_Stop s = (None, (say LevelDebug ''entered init state'' s)\<lparr>h_server := None\<rparr>)"

fun rpc_select :: "sel \<Rightarrow> srvref \<Rightarrow> hw \<Rightarrow> (helper \<times> hw) option" where
  "rpc_select SelCtx r s =
     (if h_ctx s then Some (ShuttingDown r, say LevelWarning shutdown_signal s) else None)"
| "rpc_select SelTimer r s = None"

definition multi_service_rpc :: hw_code where
  "multi_service_rpc =
     \<lparr>c_Init = rpc_Init, c_Idle = rpc_Idle, c_Stop = rpc_Stop,
      c_entered = say LevelDebug ''entered run state'',
      c_ref = (\<lambda>s. Field),
      c_starting = (\<lambda>a. say LevelInfo (''server starting at '' @ a)),
      c_select = rpc_select, c_shut = log_failed_shutdown,
      c_failed = id, c_ended = (\<lambda>s. (None, say LevelInfo ''server shutdown'' s)),
      c_next = rc_next, c_stops_at_end = True\<rparr>"

subsection \<open>The system\<close>

definition nil_deref :: string where
  "nil_deref = ''invalid memory address or nil pointer dereference''"

definition deref :: "srvref \<Rightarrow> hw \<Rightarrow> nat option" where
  "deref r s = (case r of Field \<Rightarrow> h_server s | Arg v \<Rightarrow> v)"

text \<open>A method has returned: the manager notes it and goes on.\<close>

definition finish :: "hw_code \<Rightarrow> meth \<Rightarrow> go_error option \<times> hw \<Rightarrow> hw" where
  "finish code k rs =
     (case rs of (r, s) \<Rightarrow>
        s\<lparr>h_results := h_results s @ [(k, r)],
          h_main := (case c_next code k (r = None) of None \<Rightarrow> Left_loop | Some j \<Rightarrow> Before j)\<rparr>)"

text \<open>
  \<open>Run\<close> up to \<open>ListenAndServe\<close>: the helper is started, then the address of the server is
  logged, which panics if there is none.
\<close>

definition run_starts :: "hw_code \<Rightarrow> hw \<Rightarrow> hw" where
  "run_starts code s0 =
     (let s = c_entered code s0;
          s' = s\<lparr>h_helpers := h_helpers s @ [Selecting (c_ref code s)]\<rparr>
      in case h_server s of
           None \<Rightarrow> s'\<lparr>h_main := Main_panic nil_deref\<rparr>
         | Some i \<Rightarrow>
             (c_starting code (case h_heap s i of Some srv \<Rightarrow> hs_Addr srv | None \<Rightarrow> []) s')
               \<lparr>h_main := Listening i (length (h_helpers s))\<rparr>)"

fun call_method :: "hw_code \<Rightarrow> meth \<Rightarrow> hw \<Rightarrow> hw" where
  "call_method code Init s = finish code Init (c_Init code s)"
| "call_method code Idle s = finish code Idle (c_Idle code s)"
| "call_method code Run s = run_starts code s"
| "call_method code Stop s = finish code Stop (c_Stop code s)"

text \<open>The manager leaves its loop: with a last \<open>Stop\<close>, unless it does not or has just run it.\<close>

definition leave_loop :: "hw_code \<Rightarrow> hw \<Rightarrow> hw" where
  "leave_loop code s =
     (if \<not> c_stops_at_end code \<or> (h_results s \<noteq> [] \<and> fst (last (h_results s)) = Stop)
      then s\<lparr>h_main := Left_loop\<rparr>
      else (finish code Stop (c_Stop code s))\<lparr>h_main := Left_loop\<rparr>)"

text \<open>
  A helper calls \<open>Shutdown\<close>, with the error that it returns, and ends, which closes
  \<open>doneC\<close>. A panic of a goroutine that nothing recovers ends the process.
\<close>

definition helper_shuts :: "hw_code \<Rightarrow> nat \<Rightarrow> srvref \<Rightarrow> go_error option \<Rightarrow> hw \<Rightarrow> hw" where
  "helper_shuts code n r e s =
     (case deref r s of
        None \<Rightarrow> s\<lparr>h_main := Process_down nil_deref\<rparr>
      | Some i \<Rightarrow>
          c_shut code e
            (s\<lparr>h_heap := (h_heap s)(i := map_option (hs_shut_update (\<lambda>_. True)) (h_heap s i)),
               h_helpers := (h_helpers s)[n := HelperEnded]\<rparr>))"

text \<open>
  The moves: the manager's \<open>select\<close> takes the timer and it calls the method whose turn it is,
  or takes the context and leaves; the context is cancelled; a helper's \<open>select\<close> or its
  \<open>Shutdown\<close>; \<open>ListenAndServe\<close> fails, or returns after a shutdown; \<open>Run\<close> has waited for its
  helper.
\<close>

datatype hw_move = CallNext | LeaveLoop | CancelCtx | Select nat sel | Shuts nat "go_error option"
  | ListenFails go_error | ListenClosed | HelperDone

fun is_down :: "main \<Rightarrow> bool" where
  "is_down (Process_down p) = True"
| "is_down _ = False"

fun hw_step :: "hw_code \<Rightarrow> hw_move \<Rightarrow> hw \<Rightarrow> hw option" where
  "hw_step code CallNext s =
     (case h_main s of Before k \<Rightarrow> Some (call_method code k s) | _ \<Rightarrow> None)"
| "hw_step code LeaveLoop s =
     (case h_main s of Before k \<Rightarrow> if h_ctx s then Some (leave_loop code s) else None | _ \<Rightarrow> None)"
| "hw_step code CancelCtx s =
     (if h_ctx s \<or> is_down (h_main s) then None else Some (s\<lparr>h_ctx := True\<rparr>))"
| "hw_step code (Select n o') s =
     (if n < length (h_helpers s) \<and> \<not> is_down (h_main s)
      then (case h_helpers s ! n of
              Selecting r \<Rightarrow>
                map_option (\<lambda>(h, s'). s'\<lparr>h_helpers := (h_helpers s')[n := h]\<rparr>) (c_select code o' r s)
            | _ \<Rightarrow> None)
      else None)"
| "hw_step code (Shuts n e) s =
     (if n < length (h_helpers s) \<and> \<not> is_down (h_main s)
      then (case h_helpers s ! n of
              ShuttingDown r \<Rightarrow> Some (helper_shuts code n r e s) | _ \<Rightarrow> None)
      else None)"
| "hw_step code (ListenFails e) s =
     (case h_main s of
        Listening i n \<Rightarrow> Some (finish code Run (Some (c_failed code e), s)) | _ \<Rightarrow> None)"
| "hw_step code ListenClosed s =
     (case h_main s of
        Listening i n \<Rightarrow>
          (case h_heap s i of
             Some srv \<Rightarrow> if hs_shut srv then Some (s\<lparr>h_main := Awaiting n\<rparr>) else None
           | None \<Rightarrow> None)
      | _ \<Rightarrow> None)"
| "hw_step code HelperDone s =
     (case h_main s of
        Awaiting n \<Rightarrow>
          if n < length (h_helpers s) \<and> h_helpers s ! n = HelperEnded
          then Some (finish code Run (c_ended code s)) else None
      | _ \<Rightarrow> None)"

definition hw_init :: hw where
  "hw_init =
     \<lparr>h_server = None, h_heap = Map.empty, h_fresh = 0, h_ctx = False, h_helpers = [],
      h_main = Before Init, h_results = [], h_lines = []\<rparr>"

inductive hw_reach :: "hw_code \<Rightarrow> hw \<Rightarrow> bool" for code where
  start: "hw_reach code hw_init"
| step: "hw_reach code s \<Longrightarrow> hw_step code mv s = Some s' \<Longrightarrow> hw_reach code s'"

fun hw_run :: "hw_code \<Rightarrow> hw_move list \<Rightarrow> hw \<Rightarrow> hw option" where
  "hw_run code [] s = Some s"
| "hw_run code (mv # mvs) s =
     (case hw_step code mv s of None \<Rightarrow> None | Some s' \<Rightarrow> hw_run code mvs s')"

lemma hw_run_reach: "hw_reach code s \<Longrightarrow> hw_run code mvs s = Some s' \<Longrightarrow> hw_reach code s'"
  by (induction mvs arbitrary: s) (auto split: option.splits intro: hw_reach.step)

end
