(* ===== verification/Rx_ExServerProps.thy ===== *)
theory Rx_ExServerProps
  imports Rx_ExServer
begin

section \<open>What the HTTP services do under their managers\<close>

text \<open>
  The contract of an example's code towards the system it runs in, what follows from it for
  all four examples, and two stronger contracts that some of them keep: the helper has the
  server as an argument, and the helper shuts the server down when the context is done.
\<close>

subsection \<open>Where the manager's goroutine may stand\<close>

fun place_ok :: "main \<Rightarrow> nat option \<Rightarrow> (nat \<rightharpoonup> http_server) \<Rightarrow> helper list \<Rightarrow> bool" where
  "place_ok (Before Init) sv hp hs \<longleftrightarrow> sv = None"
| "place_ok (Before Idle) sv hp hs \<longleftrightarrow> (\<exists>i. sv = Some i \<and> hp i \<noteq> None)"
| "place_ok (Before Run) sv hp hs \<longleftrightarrow> (\<exists>i. sv = Some i \<and> hp i \<noteq> None)"
| "place_ok (Listening i n) sv hp hs \<longleftrightarrow> sv = Some i \<and> hp i \<noteq> None \<and> n < length hs"
| "place_ok (Awaiting n) sv hp hs \<longleftrightarrow> sv \<noteq> None \<and> n < length hs"
| "place_ok (Main_panic p) sv hp hs \<longleftrightarrow> False"
| "place_ok _ sv hp hs \<longleftrightarrow> True"

definition results_ok :: "(meth \<times> go_error option) list \<Rightarrow> bool" where
  "results_ok rs \<longleftrightarrow> list_all (\<lambda>(k, r). k = Run \<or> r = None) rs"

definition main_ok :: "hw \<Rightarrow> bool" where
  "main_ok s \<longleftrightarrow> place_ok (h_main s) (h_server s) (h_heap s) (h_helpers s) \<and> results_ok (h_results s)"

lemma place_ok_length [simp]: "place_ok m sv hp (hs[n := h]) = place_ok m sv hp hs"
  by (induction m sv hp hs rule: place_ok.induct) simp_all

lemma place_ok_shut [simp]:
  "place_ok m sv (hp(i := map_option f (hp i))) hs = place_ok m sv hp hs"
  by (induction m sv hp hs rule: place_ok.induct) auto

abbreviation set_shut :: "nat \<Rightarrow> (nat \<rightharpoonup> http_server) \<Rightarrow> (nat \<rightharpoonup> http_server)" where
  "set_shut i hp \<equiv> hp(i := map_option (hs_shut_update (\<lambda>_. True)) (hp i))"

fun in_run :: "main \<Rightarrow> bool" where
  "in_run (Listening i n) = True"
| "in_run (Awaiting n) = True"
| "in_run _ = False"

text \<open>The choices that the manager has met so far.\<close>

definition hw_choices :: "hw \<Rightarrow> choice list" where
  "hw_choices s = map (\<lambda>(k, r). Fired (Returns r)) (h_results s)"

lemma lc_run_snoc:
  "lc_run nxt k cs = (ks, Turn j) \<Longrightarrow>
     lc_run nxt k (cs @ [Fired (Returns r)]) =
       (ks @ [j], case nxt j (r = None) of None \<Rightarrow> Finished | Some i \<Rightarrow> Turn i)"
  by (induction nxt k cs arbitrary: ks rule: lc_run.induct) (auto split: option.splits prod.splits)

subsection \<open>The contract\<close>

locale hello_world =
  fixes code :: hw_code
  assumes init: "h_server s = None \<Longrightarrow> \<exists>p l. c_Init code s = (None, (new_server p s)\<lparr>h_lines := l\<rparr>)"
    and idle: "\<exists>l. c_Idle code s = (None, s\<lparr>h_lines := l\<rparr>)"
    and stop: "\<exists>l. c_Stop code s = (None, s\<lparr>h_server := None, h_lines := l\<rparr>)"
    and entered: "\<exists>l. c_entered code s = s\<lparr>h_lines := l\<rparr>"
    and starting: "\<exists>l. c_starting code a s = s\<lparr>h_lines := l\<rparr>"
    and ref: "c_ref code s = Field \<or> c_ref code s = Arg (h_server s)"
    and select: "c_select code v r s = Some (h, s') \<Longrightarrow>
      (\<exists>l. s' = s\<lparr>h_lines := l\<rparr>) \<and> (h = HelperEnded \<or> h = ShuttingDown r)"
    and shut: "\<exists>l. c_shut code e s = s\<lparr>h_lines := l\<rparr>"
    and ended: "\<exists>r l. c_ended code s = (r, s\<lparr>h_lines := l\<rparr>)"
    and nexts: "c_next code Init True = Some Idle" "c_next code Idle True = Some Run"
      "c_next code Run ok = Some Stop" "c_next code Stop True = Some Init"
begin

text \<open>What a step may do, apart from the lines that it logs.\<close>

lemma step_elim [consumes 2, case_names call_init call_idle call_run call_stop leave cancel sel nil shuts
    fails closed returns]:
  assumes "hw_step code mv s = Some s'" and "main_ok s"
  obtains p l where "mv = CallNext" "h_main s = Before Init"
      "s' = (new_server p s)\<lparr>h_main := Before Idle, h_results := h_results s @ [(Init, None)], h_lines := l\<rparr>"
  | l where "mv = CallNext" "h_main s = Before Idle"
      "s' = s\<lparr>h_main := Before Run, h_results := h_results s @ [(Idle, None)], h_lines := l\<rparr>"
  | i r l where "mv = CallNext" "h_main s = Before Run" "h_server s = Some i" "r = Field \<or> r = Arg (Some i)"
      "\<exists>l. r = c_ref code (s\<lparr>h_lines := l\<rparr>)"
      "s' = s\<lparr>h_main := Listening i (length (h_helpers s)), h_helpers := h_helpers s @ [Selecting r],
        h_lines := l\<rparr>"
  | l where "mv = CallNext" "h_main s = Before Stop"
      "s' = s\<lparr>h_main := Before Init, h_server := None, h_results := h_results s @ [(Stop, None)],
        h_lines := l\<rparr>"
  | k sv rs l where "mv = LeaveLoop" "h_main s = Before k" "h_ctx s" "rs = [] \<or> rs = [(Stop, None)]"
      "sv = h_server s \<or> sv = None"
      "s' = s\<lparr>h_main := Left_loop, h_server := sv, h_results := h_results s @ rs, h_lines := l\<rparr>"
  | "mv = CancelCtx" "\<not> h_ctx s" "s' = s\<lparr>h_ctx := True\<rparr>"
  | n v r h l where "mv = Select n v" "n < length (h_helpers s)" "h_helpers s ! n = Selecting r"
      "c_select code v r s = Some (h, s\<lparr>h_lines := l\<rparr>)" "h = HelperEnded \<or> h = ShuttingDown r"
      "s' = s\<lparr>h_helpers := (h_helpers s)[n := h], h_lines := l\<rparr>"
  | n e r where "mv = Shuts n e" "n < length (h_helpers s)" "h_helpers s ! n = ShuttingDown r"
      "deref r s = None" "s' = s\<lparr>h_main := Process_down nil_deref\<rparr>"
  | n e r i l where "mv = Shuts n e" "n < length (h_helpers s)" "h_helpers s ! n = ShuttingDown r"
      "deref r s = Some i"
      "s' = s\<lparr>h_heap := set_shut i (h_heap s), h_helpers := (h_helpers s)[n := HelperEnded], h_lines := l\<rparr>"
  | e i n where "mv = ListenFails e" "h_main s = Listening i n"
      "s' = s\<lparr>h_main := Before Stop, h_results := h_results s @ [(Run, Some (c_failed code e))]\<rparr>"
  | i n srv where "mv = ListenClosed" "h_main s = Listening i n" "h_heap s i = Some srv" "hs_shut srv"
      "s' = s\<lparr>h_main := Awaiting n\<rparr>"
  | n r l where "mv = HelperDone" "h_main s = Awaiting n" "n < length (h_helpers s)"
      "h_helpers s ! n = HelperEnded"
      "s' = s\<lparr>h_main := Before Stop, h_results := h_results s @ [(Run, r)], h_lines := l\<rparr>"
proof (cases mv)
  case CallNext
  with assms(1) obtain k where k: "h_main s = Before k" "s' = call_method code k s"
    by (auto split: main.splits)
  show thesis
  proof (cases k)
    case Init
    with k assms(2) have "h_server s = None" by (simp add: main_ok_def)
    with init [of s] obtain p l where "c_Init code s = (None, (new_server p s)\<lparr>h_lines := l\<rparr>)" by blast
    then have "s' = (new_server p s)\<lparr>h_main := Before Idle, h_results := h_results s @ [(Init, None)],
        h_lines := l\<rparr>"
      using k Init nexts by (simp add: finish_def new_server_def)
    with k Init CallNext that(1) show thesis by blast
  next
    case Idle
    obtain l where "c_Idle code s = (None, s\<lparr>h_lines := l\<rparr>)" using idle by blast
    then have "s' = s\<lparr>h_main := Before Run, h_results := h_results s @ [(Idle, None)], h_lines := l\<rparr>"
      using k Idle nexts by (simp add: finish_def)
    with k Idle CallNext that(2) show thesis by blast
  next
    case Run
    with k assms(2) obtain i srv where i: "h_server s = Some i" "h_heap s i = Some srv"
      by (auto simp: main_ok_def)
    obtain l where l: "c_entered code s = s\<lparr>h_lines := l\<rparr>" using entered by blast
    let ?r = "c_ref code (s\<lparr>h_lines := l\<rparr>)"
    let ?t = "s\<lparr>h_lines := l, h_helpers := h_helpers s @ [Selecting ?r]\<rparr>"
    obtain l' where l': "c_starting code (hs_Addr srv) ?t = ?t\<lparr>h_lines := l'\<rparr>" using starting by blast
    have s': "s' = s\<lparr>h_main := Listening i (length (h_helpers s)),
        h_helpers := h_helpers s @ [Selecting ?r], h_lines := l'\<rparr>"
      using k(2) Run i l l' by (simp add: run_starts_def Let_def)
    have "?r = Field \<or> ?r = Arg (Some i)" using ref [of "s\<lparr>h_lines := l\<rparr>"] i by simp
    then show thesis using that(3) CallNext k(1) Run i(1) s' by blast
  next
    case Stop
    obtain l where "c_Stop code s = (None, s\<lparr>h_server := None, h_lines := l\<rparr>)" using stop by blast
    then have "s' = s\<lparr>h_main := Before Init, h_server := None,
        h_results := h_results s @ [(Stop, None)], h_lines := l\<rparr>"
      using k Stop nexts by (simp add: finish_def)
    with k Stop CallNext that(4) show thesis by blast
  qed
next
  case LeaveLoop
  with assms(1) obtain k where k: "h_main s = Before k" "h_ctx s" "s' = leave_loop code s"
    by (auto split: main.splits if_splits)
  obtain l where l: "c_Stop code s = (None, s\<lparr>h_server := None, h_lines := l\<rparr>)" using stop by blast
  show thesis
  proof (cases "\<not> c_stops_at_end code \<or> (h_results s \<noteq> [] \<and> fst (last (h_results s)) = Stop)")
    case True
    with k LeaveLoop show thesis
      by (intro that(5) [where rs = "[]" and sv = "h_server s" and l = "h_lines s"])
        (simp_all add: leave_loop_def)
  next
    case False
    then have "leave_loop code s = (finish code Stop (c_Stop code s))\<lparr>h_main := Left_loop\<rparr>"
      unfolding leave_loop_def by (rule if_not_P)
    then have "s' = s\<lparr>h_main := Left_loop, h_server := None,
        h_results := h_results s @ [(Stop, None)], h_lines := l\<rparr>"
      using k l by (simp add: finish_def)
    with k LeaveLoop that(5) show thesis by blast
  qed
next
  case CancelCtx
  with assms(1) that(6) show thesis by (auto split: if_splits)
next
  case (Select n v)
  with assms(1) obtain r h t where "n < length (h_helpers s)" "h_helpers s ! n = Selecting r"
    "c_select code v r s = Some (h, t)" "s' = t\<lparr>h_helpers := (h_helpers t)[n := h]\<rparr>"
    by (auto split: if_splits helper.splits)
  moreover from this select obtain l where "t = s\<lparr>h_lines := l\<rparr>" "h = HelperEnded \<or> h = ShuttingDown r"
    by blast
  moreover from this calculation have "s' = s\<lparr>h_helpers := (h_helpers s)[n := h], h_lines := l\<rparr>" by simp
  ultimately show thesis using Select that(7) by blast
next
  case (Shuts n e)
  with assms(1) obtain r where r: "n < length (h_helpers s)" "h_helpers s ! n = ShuttingDown r"
    "s' = helper_shuts code n r e s"
    by (auto split: if_splits helper.splits)
  show thesis
  proof (cases "deref r s")
    case None
    with r Shuts that(8) show thesis by (simp add: helper_shuts_def)
  next
    case (Some i)
    let ?t = "s\<lparr>h_heap := set_shut i (h_heap s), h_helpers := (h_helpers s)[n := HelperEnded]\<rparr>"
    obtain l where "c_shut code e ?t = ?t\<lparr>h_lines := l\<rparr>" using shut by blast
    then have "s' = s\<lparr>h_heap := set_shut i (h_heap s), h_helpers := (h_helpers s)[n := HelperEnded],
        h_lines := l\<rparr>"
      using r Some by (simp add: helper_shuts_def)
    with Some r Shuts that(9) show thesis by blast
  qed
next
  case (ListenFails e)
  with assms(1) obtain i n where i: "h_main s = Listening i n"
    "s' = finish code Run (Some (c_failed code e), s)"
    by (auto split: main.splits)
  then have "s' = s\<lparr>h_main := Before Stop, h_results := h_results s @ [(Run, Some (c_failed code e))]\<rparr>"
    using nexts by (simp add: finish_def)
  with i ListenFails that(10) show thesis by blast
next
  case ListenClosed
  with assms(1) that(11) show thesis by (auto split: main.splits option.splits if_splits)
next
  case HelperDone
  with assms(1) obtain n where "h_main s = Awaiting n" "n < length (h_helpers s)"
    "h_helpers s ! n = HelperEnded" "s' = finish code Run (c_ended code s)"
    by (auto split: main.splits if_splits)
  moreover obtain r l where "c_ended code s = (r, s\<lparr>h_lines := l\<rparr>)" using ended by blast
  moreover from this calculation have
    "s' = s\<lparr>h_main := Before Stop, h_results := h_results s @ [(Run, r)], h_lines := l\<rparr>"
    using nexts by (simp add: finish_def)
  ultimately show thesis using HelperDone that(12) by blast
qed

lemma step_ok:
  assumes "hw_step code mv s = Some s'" and "main_ok s"
  shows "main_ok s'"
  using assms
proof (cases rule: step_elim)
qed (use assms(2) in \<open>auto simp: main_ok_def results_ok_def new_server_def\<close>)

lemma reach_ok: "hw_reach code s \<Longrightarrow> main_ok s"
proof (induction rule: hw_reach.induct)
  case start
  show ?case by (simp add: main_ok_def hw_init_def results_ok_def)
next
  case (step s mv s')
  then show ?case by (blast intro: step_ok)
qed

text \<open>Which server a helper works on: never a nil argument, and its own \<open>Run\<close>'s.\<close>

definition helpers_ok :: "hw \<Rightarrow> bool" where
  "helpers_ok s \<longleftrightarrow>
     (\<forall>n r. n < length (h_helpers s) \<longrightarrow> h_helpers s ! n = Selecting r \<or> h_helpers s ! n = ShuttingDown r \<longrightarrow>
        r \<noteq> Arg None \<and> (\<forall>i. h_main s = Listening i n \<longrightarrow> r = Field \<or> r = Arg (Some i)))"

lemma helpers_ok_step:
  assumes "hw_step code mv s = Some s'" and "main_ok s" and "helpers_ok s"
  shows "helpers_ok s'"
  using assms(1,2)
proof (cases rule: step_elim)
  case (call_run i r l)
  with assms(3) show ?thesis by (auto simp: helpers_ok_def nth_append less_Suc_eq)
next
  case (sel n v r h l)
  with assms(3) show ?thesis by (auto simp: helpers_ok_def nth_list_update)
next
  case (shuts n e r i l)
  with assms(3) show ?thesis by (auto simp: helpers_ok_def nth_list_update)
qed (use assms(3) in \<open>auto simp: helpers_ok_def new_server_def\<close>)

lemma reach_helpers: "hw_reach code s \<Longrightarrow> helpers_ok s"
proof (induction rule: hw_reach.induct)
  case start
  show ?case by (simp add: helpers_ok_def hw_init_def)
next
  case (step s mv s')
  then show ?case by (blast intro: helpers_ok_step reach_ok)
qed

text \<open>What has returned so far is a run of the lifecycle, whose turn it is now.\<close>

lemma reach_lifecycle:
  assumes "hw_reach code s"
  shows "h_main s = Before k \<or> (in_run (h_main s) \<and> k = Run) \<Longrightarrow>
    lc_run (c_next code) Init (hw_choices s) = (map fst (h_results s), Turn k)"
  using assms
proof (induction arbitrary: k rule: hw_reach.induct)
  case start
  then show ?case by (simp add: hw_init_def hw_choices_def)
next
  case (step s mv s')
  from step(2) reach_ok [OF step(1)] show ?case
  proof (cases rule: step_elim)
    case (call_init p l)
    with step(3) [of Init] step(4) nexts show ?thesis
      by (simp add: hw_choices_def lc_run_snoc new_server_def)
  next
    case (fails e i n)
    with step(3) [of Run] step(4) nexts show ?thesis by (simp add: hw_choices_def lc_run_snoc)
  next
    case (returns n r l)
    with step(3) [of Run] step(4) nexts show ?thesis by (simp add: hw_choices_def lc_run_snoc)
  next
    case (sel n v r h l)
    with step(3) [of k] step(4) show ?thesis by (simp add: hw_choices_def)
  next
    case (shuts n e r i l)
    with step(3) [of k] step(4) show ?thesis by (simp add: hw_choices_def)
  next
    case cancel
    with step(3) [of k] step(4) show ?thesis by (simp add: hw_choices_def)
  qed (use step(3) [of Idle] step(3) [of Stop] step(3) [of Run] step(4) nexts in
      \<open>auto simp: hw_choices_def lc_run_snoc\<close>)
qed

lemma main_never_panics:
  assumes "hw_reach code s"
  shows "(\<forall>p. h_main s \<noteq> Main_panic p) \<and> (\<forall>k r. (k, r) \<in> set (h_results s) \<longrightarrow> k \<noteq> Run \<longrightarrow> r = None)"
  using reach_ok [OF assms] by (auto simp: main_ok_def results_ok_def list_all_iff)

end

subsection \<open>Helpers that have the server as an argument\<close>

locale capturing = hello_world +
  assumes captures: "c_ref code s = Arg (h_server s)"
begin

definition refers :: "helper \<Rightarrow> nat \<Rightarrow> bool" where
  "refers h i \<longleftrightarrow> h = Selecting (Arg (Some i)) \<or> h = ShuttingDown (Arg (Some i))"

text \<open>
  Every \<open>Run\<close> has a server of its own: while it listens, only its own helper refers to its
  server, which nobody has shut down before that helper's \<open>select\<close>.
\<close>

fun own_server :: "main \<Rightarrow> nat option \<Rightarrow> (nat \<rightharpoonup> http_server) \<Rightarrow> helper list \<Rightarrow> bool" where
  "own_server (Listening i n) sv hp hs \<longleftrightarrow>
     (\<forall>m < length hs. m \<noteq> n \<longrightarrow> \<not> refers (hs ! m) i) \<and>
     (hs ! n = Selecting (Arg (Some i)) \<longrightarrow> (\<exists>srv. hp i = Some srv \<and> \<not> hs_shut srv))"
| "own_server (Before Idle) sv hp hs \<longleftrightarrow>
     (\<exists>i srv. sv = Some i \<and> hp i = Some srv \<and> \<not> hs_shut srv \<and> (\<forall>h \<in> set hs. \<not> refers h i))"
| "own_server (Before Run) sv hp hs \<longleftrightarrow>
     (\<exists>i srv. sv = Some i \<and> hp i = Some srv \<and> \<not> hs_shut srv \<and> (\<forall>h \<in> set hs. \<not> refers h i))"
| "own_server _ sv hp hs \<longleftrightarrow> True"

lemma own_server_update:
  assumes "own_server m sv hp hs" and "n < length hs"
    and "\<And>i. refers h i \<Longrightarrow> refers (hs ! n) i" and "\<And>r. h \<noteq> Selecting r"
  shows "own_server m sv hp (hs[n := h])"
proof -
  have "\<forall>g \<in> set hs. \<not> refers g i \<Longrightarrow> \<forall>g \<in> set (hs[n := h]). \<not> refers g i" for i
    using assms(2,3) set_update_subset_insert [of hs n h] by fastforce
  with assms show ?thesis
    by (cases "(m, sv, hp, hs)" rule: own_server.cases) (auto simp: nth_list_update)
qed

lemma own_server_shut:
  assumes "own_server m sv hp hs" and "n < length hs" and "hs ! n = ShuttingDown (Arg (Some i))"
  shows "own_server m sv (set_shut i hp) (hs[n := HelperEnded])"
proof -
  have n: "refers (hs ! n) i" "hs ! n \<in> set hs"
    using assms(3) nth_mem [OF assms(2)] by (simp_all add: refers_def)
  have e: "\<not> refers HelperEnded j" for j by (simp add: refers_def)
  have "own_server m sv (set_shut i hp) hs"
    using assms n
    by (cases "(m, sv, hp, hs)" rule: own_server.cases) (force simp: refers_def)+
  then show ?thesis by (rule own_server_update) (simp_all add: assms(2) e)
qed

definition captured_ok :: "hw \<Rightarrow> bool" where
  "captured_ok s \<longleftrightarrow> own_server (h_main s) (h_server s) (h_heap s) (h_helpers s) \<and>
     (\<forall>h \<in> set (h_helpers s). h = HelperEnded \<or> (\<exists>i < h_fresh s. refers h i)) \<and>
     (\<forall>p. h_main s \<noteq> Process_down p)"

lemma captured_ok_step:
  assumes "hw_step code mv s = Some s'" and "main_ok s" and "captured_ok s"
    and "\<And>i. h_server s = Some i \<Longrightarrow> i < h_fresh s"
  shows "captured_ok s'"
  using assms(1,2)
proof (cases rule: step_elim)
  case (call_init p l)
  with assms(3) show ?thesis by (auto simp: captured_ok_def new_server_def refers_def less_Suc_eq)
next
  case (call_run i r l)
  then have "r = Arg (Some i)" using captures by auto
  with call_run assms(3,4) show ?thesis
    by (auto simp: captured_ok_def nth_append less_Suc_eq refers_def)
next
  case (sel n v r h l)
  have m: "h_helpers s ! n \<in> set (h_helpers s)" by (rule nth_mem [OF sel(2)])
  with assms(3) sel(3) obtain i where i: "i < h_fresh s" "r = Arg (Some i)"
    by (fastforce simp: captured_ok_def refers_def)
  with sel have h: "\<And>j. refers h j \<Longrightarrow> refers (h_helpers s ! n) j" "\<And>r. h \<noteq> Selecting r"
    by (auto simp: refers_def)
  have "h = HelperEnded \<or> (\<exists>i < h_fresh s. refers h i)" using sel(5) i by (auto simp: refers_def)
  then have "\<forall>g \<in> set ((h_helpers s)[n := h]). g = HelperEnded \<or> (\<exists>i < h_fresh s. refers g i)"
    using assms(3) set_update_subset_insert [of "h_helpers s" n h] by (auto simp: captured_ok_def)
  with own_server_update [OF _ sel(2) h] assms(3) sel(6) show ?thesis by (simp add: captured_ok_def)
next
  case (nil n e r)
  have "h_helpers s ! n \<in> set (h_helpers s)" by (rule nth_mem [OF nil(2)])
  with assms(3) nil(3,4) show ?thesis by (fastforce simp: captured_ok_def refers_def deref_def)
next
  case (shuts n e r i l)
  have "h_helpers s ! n \<in> set (h_helpers s)" by (rule nth_mem [OF shuts(2)])
  with assms(3) shuts(3,4) have "r = Arg (Some i)"
    by (fastforce simp: captured_ok_def refers_def deref_def)
  with own_server_shut [OF _ shuts(2)] shuts(3) assms(3)
    have "own_server (h_main s) (h_server s) (set_shut i (h_heap s)) ((h_helpers s)[n := HelperEnded])"
    by (simp add: captured_ok_def)
  moreover have "\<forall>g \<in> set ((h_helpers s)[n := HelperEnded]). g = HelperEnded \<or> (\<exists>i < h_fresh s. refers g i)"
    using assms(3) set_update_subset_insert [of "h_helpers s" n HelperEnded] by (auto simp: captured_ok_def)
  ultimately show ?thesis using assms(3) shuts(5) by (simp add: captured_ok_def)
qed (use assms(3) in \<open>auto simp: captured_ok_def\<close>)

lemma reach_captured: "hw_reach code s \<Longrightarrow> captured_ok s \<and> (\<forall>i. h_server s = Some i \<longrightarrow> i < h_fresh s)"
proof (induction rule: hw_reach.induct)
  case start
  show ?case by (simp add: captured_ok_def hw_init_def)
next
  case (step s mv s')
  have ok: "main_ok s" by (rule reach_ok [OF step(1)])
  have "\<forall>i. h_server s' = Some i \<longrightarrow> i < h_fresh s'"
    using step(2) ok
  proof (cases rule: step_elim)
  qed (use step(3) in \<open>auto simp: new_server_def\<close>)
  with captured_ok_step [OF step(2) ok] step(3) show ?case by blast
qed

lemma never_down: "hw_reach code s \<Longrightarrow> h_main s \<noteq> Process_down p"
  using reach_captured by (simp add: captured_ok_def)

text \<open>A server that nobody will shut down any more.\<close>

definition stuck :: "nat \<Rightarrow> nat \<Rightarrow> hw \<Rightarrow> bool" where
  "stuck i n s \<longleftrightarrow> h_main s = Listening i n \<and>
     (\<forall>h \<in> set (h_helpers s). h = HelperEnded \<or> (\<exists>j. j \<noteq> i \<and> refers h j)) \<and>
     (\<exists>srv. h_heap s i = Some srv \<and> \<not> hs_shut srv)"

lemma stuck_step:
  assumes "hw_step code mv s = Some s'" and "main_ok s" and "stuck i n s" and "\<And>e. mv \<noteq> ListenFails e"
  shows "stuck i n s'"
  using assms(1,2)
proof (cases rule: step_elim)
  case (sel m v r h l)
  have "h_helpers s ! m \<in> set (h_helpers s)" by (rule nth_mem [OF sel(2)])
  with assms(3) sel(3,5) have "h = HelperEnded \<or> (\<exists>j. j \<noteq> i \<and> refers h j)"
    by (fastforce simp: stuck_def refers_def)
  then have "\<forall>h \<in> set ((h_helpers s)[m := h]). h = HelperEnded \<or> (\<exists>j. j \<noteq> i \<and> refers h j)"
    using assms(3) set_update_subset_insert [of "h_helpers s" m h] by (auto simp: stuck_def)
  with assms(3) sel(6) show ?thesis by (simp add: stuck_def)
next
  case (nil m e r)
  have "h_helpers s ! m \<in> set (h_helpers s)" by (rule nth_mem [OF nil(2)])
  with assms(3) nil(3,4) show ?thesis by (fastforce simp: stuck_def refers_def deref_def)
next
  case (shuts m e r j l)
  have "h_helpers s ! m \<in> set (h_helpers s)" by (rule nth_mem [OF shuts(2)])
  with assms(3) shuts(3,4) have "j \<noteq> i" by (fastforce simp: stuck_def refers_def deref_def)
  moreover have "\<forall>h \<in> set ((h_helpers s)[m := HelperEnded]). h = HelperEnded \<or> (\<exists>j. j \<noteq> i \<and> refers h j)"
    using assms(3) set_update_subset_insert [of "h_helpers s" m HelperEnded] by (auto simp: stuck_def)
  ultimately show ?thesis using assms(3) shuts(5) by (simp add: stuck_def)
qed (use assms(3,4) in \<open>auto simp: stuck_def\<close>)

lemma stuck_run:
  assumes "hw_run code mvs s = Some s'" and "hw_reach code s" and "stuck i n s"
    and "\<forall>e. ListenFails e \<notin> set mvs"
  shows "stuck i n s'"
  using assms
proof (induction mvs arbitrary: s)
  case (Cons mv mvs)
  from Cons.prems(1) obtain t where t: "hw_step code mv s = Some t" "hw_run code mvs t = Some s'"
    by (auto split: option.splits)
  have "stuck i n t"
    using stuck_step [OF t(1) reach_ok [OF Cons.prems(2)] Cons.prems(3)] Cons.prems(4) by auto
  with Cons.IH [OF t(2) hw_reach.step [OF Cons.prems(2) t(1)]] Cons.prems(4) show ?case by simp
qed simp

text \<open>A helper that ends at its \<open>select\<close>, without a shutdown, leaves its \<open>Run\<close> behind.\<close>

lemma helper_quits:
  assumes "hw_reach code s" and "h_main s = Listening i n" and "h_helpers s ! n = Selecting r"
    and "hw_step code (Select n v) s = Some s'" and "h_helpers s' ! n = HelperEnded"
  shows "stuck i n s'"
proof -
  have ok: "main_ok s" by (rule reach_ok [OF assms(1)])
  then have n: "n < length (h_helpers s)" using assms(2) by (simp add: main_ok_def)
  have cap: "captured_ok s" using reach_captured [OF assms(1)] by simp
  have "r \<noteq> Arg None \<and> (r = Field \<or> r = Arg (Some i))"
    using reach_helpers [OF assms(1)] n assms(2,3) by (auto simp: helpers_ok_def)
  moreover have "\<exists>j. refers (h_helpers s ! n) j"
    using cap nth_mem [OF n] assms(3) by (fastforce simp: captured_ok_def)
  ultimately have r: "r = Arg (Some i)" using assms(3) by (auto simp: refers_def)
  from assms(4) ok show ?thesis
  proof (cases rule: step_elim)
    case (sel m w q h l)
    then have "h = HelperEnded" using assms(5) n by simp
    have "g = HelperEnded \<or> (\<exists>j. j \<noteq> i \<and> refers g j)" if "g \<in> set ((h_helpers s)[n := HelperEnded])" for g
    proof -
      from that obtain k where k: "k < length (h_helpers s)" "g = (h_helpers s)[n := HelperEnded] ! k"
        by (auto simp: in_set_conv_nth)
      show ?thesis
      proof (cases "k = n")
        case True
        with k show ?thesis by simp
      next
        case False
        with cap assms(2) k(1) have "\<not> refers (h_helpers s ! k) i" by (simp add: captured_ok_def)
        moreover from cap nth_mem [OF k(1)]
          have "h_helpers s ! k = HelperEnded \<or> (\<exists>j. refers (h_helpers s ! k) j)"
          by (auto simp: captured_ok_def)
        ultimately show ?thesis using k(2) False by auto
      qed
    qed
    moreover have "\<exists>srv. h_heap s i = Some srv \<and> \<not> hs_shut srv"
      using cap assms(2,3) r by (simp add: captured_ok_def)
    ultimately show ?thesis
      using sel assms(2) \<open>h = HelperEnded\<close> by (auto simp: stuck_def)
  qed (use assms in \<open>auto\<close>)
qed

end

subsection \<open>Helpers that shut down when the context is done\<close>

text \<open>What is left to do: a bound on the moves until \<open>Run\<close> returns.\<close>

fun helper_work :: "helper \<Rightarrow> nat" where
  "helper_work (Selecting r) = 2"
| "helper_work (ShuttingDown r) = 1"
| "helper_work HelperEnded = 0"

fun main_work :: "main \<Rightarrow> nat" where
  "main_work (Listening i n) = 2"
| "main_work (Awaiting n) = 1"
| "main_work _ = 0"

definition work :: "hw \<Rightarrow> nat" where
  "work s = sum_list (map helper_work (h_helpers s)) + main_work (h_main s)"

lemma helper_work_update:
  "n < length hs \<Longrightarrow> helper_work h < helper_work (hs ! n) \<Longrightarrow>
     sum_list (map helper_work (hs[n := h])) < sum_list (map helper_work hs)"
  using elem_le_sum_list [of n "map helper_work hs"]
  by (simp add: map_update sum_list_update)

lemma helper_work_bound: "sum_list (map helper_work hs) \<le> 2 * length hs"
proof (induction hs)
  case (Cons h hs)
  then show ?case by (cases h) auto
qed simp

lemma work_bound: "work s \<le> 2 * length (h_helpers s) + 2"
proof -
  have "main_work (h_main s) \<le> 2" by (cases "h_main s") auto
  with helper_work_bound [of "h_helpers s"] show ?thesis by (simp add: work_def)
qed

locale shutting = hello_world +
  assumes select_shuts: "c_select code v r s = Some (h, s') \<Longrightarrow> h = ShuttingDown r"
    and select_ctx: "h_ctx s \<Longrightarrow> c_select code SelCtx r s \<noteq> None"
begin

text \<open>A helper that has ended while its \<open>Run\<close> listens has shut its server down.\<close>

definition shut_ok :: "hw \<Rightarrow> bool" where
  "shut_ok s \<longleftrightarrow>
     (\<forall>i n. h_main s = Listening i n \<longrightarrow> h_helpers s ! n = HelperEnded \<longrightarrow>
        (\<exists>srv. h_heap s i = Some srv \<and> hs_shut srv))"

lemma shut_ok_step:
  assumes "hw_step code mv s = Some s'" and "main_ok s" and "helpers_ok s" and "shut_ok s"
  shows "shut_ok s'"
  using assms(1,2)
proof (cases rule: step_elim)
  case (sel m v r h l)
  have "h = ShuttingDown r" using select_shuts [OF sel(4)] .
  with sel assms(4) show ?thesis by (auto simp: shut_ok_def nth_list_update)
next
  case (shuts m e r j l)
  show ?thesis
    unfolding shut_ok_def
  proof (intro allI impI)
    fix i n
    assume a: "h_main s' = Listening i n" "h_helpers s' ! n = HelperEnded"
    then have m: "h_main s = Listening i n" using shuts by simp
    show "\<exists>srv. h_heap s' i = Some srv \<and> hs_shut srv"
    proof (cases "n = m")
      case True
      then have "r = Field \<or> r = Arg (Some i)" using assms(3) m shuts(2,3) by (auto simp: helpers_ok_def)
      moreover have "h_server s = Some i" using assms(2) m by (simp add: main_ok_def)
      ultimately have "j = i" using shuts(4) by (auto simp: deref_def)
      with assms(2) m shuts(5) show ?thesis by (auto simp: main_ok_def)
    next
      case False
      with a m shuts(5) assms(4) show ?thesis by (fastforce simp: shut_ok_def)
    qed
  qed
qed (use assms(4) in \<open>auto simp: shut_ok_def\<close>)

lemma reach_shut: "hw_reach code s \<Longrightarrow> shut_ok s"
proof (induction rule: hw_reach.induct)
  case start
  show ?case by (simp add: shut_ok_def hw_init_def)
next
  case (step s mv s')
  then show ?case by (blast intro: shut_ok_step reach_ok reach_helpers)
qed

text \<open>Every move that is made while \<open>Run\<close> runs gets it nearer to its end, and one can be made.\<close>

lemma run_step:
  assumes "hw_step code mv s = Some s'" and "main_ok s" and "helpers_ok s"
    and "in_run (h_main s)" and "h_ctx s"
  shows "h_main s' = Before Stop \<or> (in_run (h_main s') \<and> h_ctx s' \<and> work s' < work s)"
  using assms(1,2)
proof (cases rule: step_elim)
  case (sel n v r h l)
  have "h = ShuttingDown r" using select_shuts [OF sel(4)] .
  with sel assms(4,5) helper_work_update [OF sel(2), of h] show ?thesis by (auto simp: work_def)
next
  case (nil n e r)
  have "h_server s \<noteq> None" using assms(2,4) by (cases "h_main s") (auto simp: main_ok_def)
  moreover have "r \<noteq> Arg None" using assms(3) nil(2,3) by (auto simp: helpers_ok_def)
  ultimately show ?thesis using nil(4) by (auto simp: deref_def split: srvref.splits)
next
  case (shuts n e r i l)
  with assms(4,5) helper_work_update [OF shuts(2), of HelperEnded] show ?thesis by (auto simp: work_def)
qed (use assms(4,5) in \<open>auto simp: work_def\<close>)

lemma run_progress:
  assumes "hw_reach code s" and "in_run (h_main s)" and "h_ctx s"
  shows "\<exists>mv. hw_step code mv s \<noteq> None"
proof -
  have ok: "main_ok s" "shut_ok s" using assms(1) reach_ok reach_shut by auto
  obtain n where n: "h_main s = Awaiting n \<or> (\<exists>i. h_main s = Listening i n)"
    using assms(2) by (cases "h_main s") auto
  then have l: "n < length (h_helpers s)" "\<not> is_down (h_main s)" using ok(1) by (auto simp: main_ok_def)
  show ?thesis
  proof (cases "h_helpers s ! n")
    case (Selecting r)
    with l select_ctx [OF assms(3), of r] show ?thesis
      by (intro exI [of _ "Select n SelCtx"]) auto
  next
    case (ShuttingDown r)
    with l show ?thesis by (intro exI [of _ "Shuts n None"]) auto
  next
    case HelperEnded
    show ?thesis
    proof (cases "h_main s = Awaiting n")
      case True
      with HelperEnded l show ?thesis by (intro exI [of _ HelperDone]) auto
    next
      case False
      with n HelperEnded ok(2) show ?thesis
        by (intro exI [of _ ListenClosed]) (auto simp: shut_ok_def)
    qed
  qed
qed

lemma run_ends:
  assumes "hw_run code mvs s = Some s'" and "hw_reach code s" and "in_run (h_main s)" and "h_ctx s"
    and "work s < length mvs"
  shows "\<exists>ms ms' t. mvs = ms @ ms' \<and> hw_run code ms s = Some t \<and> h_main t = Before Stop"
  using assms
proof (induction mvs arbitrary: s)
  case (Cons mv mvs)
  from Cons.prems(1) obtain t where t: "hw_step code mv s = Some t" "hw_run code mvs t = Some s'"
    by (auto split: option.splits)
  from run_step [OF t(1) reach_ok [OF Cons.prems(2)] reach_helpers [OF Cons.prems(2)] Cons.prems(3,4)]
  show ?case
  proof
    assume "h_main t = Before Stop"
    with t(1) show ?thesis by (intro exI [of _ "[mv]"] exI [of _ mvs] exI [of _ t]) simp
  next
    assume a: "in_run (h_main t) \<and> h_ctx t \<and> work t < work s"
    with Cons.IH [OF t(2) hw_reach.step [OF Cons.prems(2) t(1)]] Cons.prems(5)
    obtain ms ms' u where "mvs = ms @ ms'" "hw_run code ms t = Some u" "h_main u = Before Stop" by auto
    with t(1) show ?thesis by (intro exI [of _ "mv # ms"] exI [of _ ms'] exI [of _ u]) simp
  qed
qed simp

end

subsection \<open>The examples keep the contracts\<close>

text \<open>What only adds lines to the log.\<close>

lemma linesI:
  assumes "t\<lparr>h_lines := []\<rparr> = s\<lparr>h_lines := []\<rparr>"
  shows "\<exists>l. t = s\<lparr>h_lines := l\<rparr>"
proof -
  have "t = t\<lparr>h_lines := []\<rparr>\<lparr>h_lines := h_lines t\<rparr>" by simp
  also have "\<dots> = s\<lparr>h_lines := h_lines t\<rparr>" by (simp add: assms)
  finally show ?thesis ..
qed

lemma linesI2: "t\<lparr>h_lines := []\<rparr> = s\<lparr>h_lines := []\<rparr> \<Longrightarrow> \<exists>l. (r, t) = (r, s\<lparr>h_lines := l\<rparr>)"
  using linesI by simp

lemma say_lines [simp]: "(say v m s)\<lparr>h_lines := l\<rparr> = s\<lparr>h_lines := l\<rparr>" "h_server (say v m s) = h_server s"
    "h_ctx (say v m s) = h_ctx s"
  by (simp_all add: say_def)

lemma log_shutdown_lines [simp]: "(log_shutdown e s)\<lparr>h_lines := l\<rparr> = s\<lparr>h_lines := l\<rparr>"
    "(log_failed_shutdown e s)\<lparr>h_lines := l\<rparr> = s\<lparr>h_lines := l\<rparr>"
  by (simp_all add: log_shutdown_def log_failed_shutdown_def split: option.split)

lemma new_server_lines: "(new_server p (say v m s))\<lparr>h_lines := l\<rparr> = (new_server p s)\<lparr>h_lines := l\<rparr>"
  by (simp add: new_server_def say_def)

lemma Stop_lines: "((say v m s)\<lparr>h_server := None\<rparr>)\<lparr>h_lines := l\<rparr> = s\<lparr>h_server := None, h_lines := l\<rparr>"
  by (simp add: say_def)

interpretation single: capturing single_service
proof (unfold_locales, goal_cases)
  case (1 s)
  then show ?case
    by (intro exI [of _ "''/''"]) (simp add: single_service_def single_Init_def Let_def linesI new_server_lines)
next
  case (7 v r s h s')
  then show ?case
    by (cases v) (auto simp: single_service_def split: if_splits intro: linesI)
qed (auto simp: single_service_def single_Idle_def single_Stop_def Stop_lines intro: linesI)

interpretation custom: shutting custom_service
proof (unfold_locales, goal_cases)
  case (1 s)
  then show ?case
    by (intro exI [of _ "''/''"]) (simp add: custom_service_def single_Init_def Let_def linesI new_server_lines)
next
  case (7 v r s h s')
  then show ?case by (cases v) (auto simp: custom_service_def split: if_splits intro: linesI)
next
  case (14 v r s h s')
  then show ?case by (cases v) (auto simp: custom_service_def split: if_splits)
qed (auto simp: custom_service_def single_Idle_def single_Stop_def Stop_lines intro: linesI)

interpretation multi: shutting multi_service
proof (unfold_locales, goal_cases)
  case (1 s)
  then show ?case
    by (intro exI [of _ "''/api''"]) (simp add: multi_service_def multi_Init_def linesI new_server_lines)
next
  case (7 v r s h s')
  then show ?case by (cases v) (auto simp: multi_service_def split: if_splits intro: linesI)
next
  case (14 v r s h s')
  then show ?case by (cases v) (auto simp: multi_service_def split: if_splits)
qed (auto simp: multi_service_def multi_Idle_def multi_Stop_def Stop_lines intro: linesI)

interpretation multi: capturing multi_service
  by unfold_locales (simp add: multi_service_def)

interpretation rpc: shutting multi_service_rpc
proof (unfold_locales, goal_cases)
  case (1 s)
  then show ?case
    by (intro exI [of _ "''/api''"]) (simp add: multi_service_rpc_def rpc_Init_def linesI new_server_lines)
next
  case (7 v r s h s')
  then show ?case by (cases v) (auto simp: multi_service_rpc_def split: if_splits intro: linesI)
next
  case (14 v r s h s')
  then show ?case by (cases v) (auto simp: multi_service_rpc_def split: if_splits)
qed (auto simp: multi_service_rpc_def rpc_Idle_def rpc_Stop_def Stop_lines intro: linesI)

subsection \<open>What holds of all four\<close>

text \<open>
  The guard that never fires. However the manager's goroutine, the helpers of all the runs,
  the network and the context interleave, \<open>Run\<close> never finds the server nil, and \<open>Init\<close>,
  \<open>Idle\<close> and \<open>Stop\<close> only ever return nil: the error ''server already initialized'' is never
  returned, because a server is only left by \<open>Stop\<close>.
\<close>

theorem hello_services_keep_server:
  assumes "code \<in> {single_service, custom_service, multi_service, multi_service_rpc}"
    and "hw_reach code s"
  shows "(\<forall>p. h_main s \<noteq> Main_panic p) \<and>
    (\<forall>k r. (k, r) \<in> set (h_results s) \<longrightarrow> k \<noteq> Run \<longrightarrow> r = None) \<and>
    (\<forall>i n. h_main s = Listening i n \<longrightarrow> h_server s = Some i)"
proof -
  have "hello_world code"
    using assms(1) single.hello_world_axioms custom.hello_world_axioms multi.hello_world_axioms
      rpc.hello_world_axioms by blast
  then have "main_ok s" using assms(2) by (rule hello_world.reach_ok)
  then show ?thesis by (auto simp: main_ok_def results_ok_def list_all_iff)
qed

subsection \<open>Which of them return when they are cancelled\<close>

lemma run_returns_base:
  assumes "code \<in> {custom_service, multi_service, multi_service_rpc}"
    and "hw_reach code s" and "in_run (h_main s)" and "h_ctx s"
  shows "(\<exists>mv. hw_step code mv s \<noteq> None) \<and>
    (hw_run code mvs s = Some s' \<and> 2 * length (h_helpers s) + 2 < length mvs \<longrightarrow>
       (\<exists>ms ms' t. mvs = ms @ ms' \<and> hw_run code ms s = Some t \<and> h_main t = Before Stop))"
proof -
  have sh: "shutting code"
    using assms(1) custom.shutting_axioms multi.shutting_axioms rpc.shutting_axioms by blast
  have p: "\<exists>mv. hw_step code mv s \<noteq> None" by (rule shutting.run_progress [OF sh assms(2-4)])
  have "\<exists>ms ms' t. mvs = ms @ ms' \<and> hw_run code ms s = Some t \<and> h_main t = Before Stop"
    if "hw_run code mvs s = Some s'" "2 * length (h_helpers s) + 2 < length mvs"
  proof -
    have "work s < length mvs" using that(2) work_bound [of s] by simp
    from shutting.run_ends [OF sh that(1) assms(2-4) this] show ?thesis .
  qed
  with p show ?thesis by blast
qed

text \<open>
  C19: Three of the services return. While \<open>Run\<close> runs and the context is done, some move is
  possible, whatever has happened before; and whatever moves are made, after at most two for
  each helper and two of its own \<open>Run\<close> has returned.
\<close>

theorem run_returns_when_cancelled:
  assumes "code \<in> {custom_service, multi_service, multi_service_rpc}"
    and "hw_reach code s" and "in_run (h_main s)" and "h_ctx s"
  shows "(\<exists>mv. hw_step code mv s \<noteq> None) \<and>
    (hw_run code mvs s = Some s' \<and> 2 * length (h_helpers s) + 2 < length mvs \<longrightarrow>
       (\<exists>ms ms' t. mvs = ms @ ms' \<and> hw_run code ms s = Some t \<and> h_main t = Before Stop))"
  using assms by (rule run_returns_base)

text \<open>The moves up to a \<open>Run\<close> that listens, and what they lead to.\<close>

abbreviation to_run :: "hw_move list" where
  "to_run \<equiv> [CallNext, CallNext, CallNext]"

lemmas code_simps = single_service_def custom_service_def multi_service_def multi_service_rpc_def
  single_Init_def single_Idle_def single_Stop_def multi_Init_def multi_Idle_def multi_Stop_def
  rpc_Init_def rpc_Idle_def rpc_Stop_def
lemmas hw_simps = hw_init_def finish_def run_starts_def new_server_def say_def leave_loop_def
  helper_shuts_def deref_def log_shutdown_def log_failed_shutdown_def Let_def

lemma multi_listens:
  "\<exists>s. hw_run multi_service (to_run @ [CancelCtx]) hw_init = Some s \<and>
     h_main s = Listening 0 0 \<and> h_ctx s \<and> h_helpers s = [Selecting (Arg (Some 0))]"
  by (simp add: code_simps hw_simps)

theorem run_returns_when_cancelled_witness:
  "\<exists>s mv. hw_reach multi_service s \<and> h_main s = Listening 0 0 \<and> hw_step multi_service mv s \<noteq> None"
proof -
  from multi_listens obtain s where s: "hw_run multi_service (to_run @ [CancelCtx]) hw_init = Some s"
    "h_main s = Listening 0 0" "h_ctx s" by blast
  have r: "hw_reach multi_service s" by (rule hw_run_reach [OF hw_reach.start s(1)])
  have i: "in_run (h_main s)" "multi_service \<in> {custom_service, multi_service, multi_service_rpc}"
    using s(2) by simp_all
  from run_returns_when_cancelled [OF i(2) r i(1) s(3)] r s(2) show ?thesis by blast
qed

lemma single_run_hangs:
  assumes "hw_reach single_service s" and "h_main s = Listening i n" and "h_helpers s ! n = Selecting r"
    and "h_ctx s" and "hw_run single_service (Select n SelCtx # mvs) s = Some s'"
    and "\<forall>e. ListenFails e \<notin> set mvs"
  shows "h_main s' = Listening i n \<and>
    lc_run rc_next Init (hw_choices s') = (map fst (h_results s'), Turn Run) \<and>
    snd (rc_Manage m nm fin (hw_choices s')) = Still_running"
proof -
  from assms(5) obtain t where t: "hw_step single_service (Select n SelCtx) s = Some t"
    "hw_run single_service mvs t = Some s'"
    by (cases "hw_step single_service (Select n SelCtx) s") simp_all
  have n: "n < length (h_helpers s)" using single.reach_ok [OF assms(1)] assms(2) by (simp add: main_ok_def)
  with t(1) assms(2-4) have "h_helpers t ! n = HelperEnded" by (auto simp: single_service_def)
  from single.helper_quits [OF assms(1-3) t(1) this] have st: "single.stuck i n t" .
  have rt: "hw_reach single_service t" by (rule hw_reach.step [OF assms(1) t(1)])
  have "single.stuck i n s'" by (rule single.stuck_run [OF t(2) rt st assms(6)])
  then have m: "h_main s' = Listening i n" by (simp add: single.stuck_def)
  have rs: "hw_reach single_service s'" by (rule hw_run_reach [OF rt t(2)])
  have "lc_run rc_next Init (hw_choices s') = (map fst (h_results s'), Turn Run)"
    using single.reach_lifecycle [OF rs, of Run] m by (simp add: single_service_def)
  moreover have "list_all returning (hw_choices s')" by (auto simp: hw_choices_def list_all_iff)
  ultimately show ?thesis using m rc_running_iff by blast
qed

text \<open>
  One does not. The helper of \<open>single_service\<close> returns when it sees the context done, and
  leaves the server running. From then on \<open>Run\<close> listens for ever, whatever moves are made,
  unless \<open>ListenAndServe\<close> fails by itself; and the library's manager, which waits for it, is
  still running.
\<close>

theorem single_run_hangs_when_cancelled:
  assumes "hw_reach single_service s" and "h_main s = Listening i n" and "h_helpers s ! n = Selecting r"
    and "h_ctx s" and "hw_run single_service (Select n SelCtx # mvs) s = Some s'"
    and "\<forall>e. ListenFails e \<notin> set mvs"
  shows "h_main s' = Listening i n \<and>
    lc_run rc_next Init (hw_choices s') = (map fst (h_results s'), Turn Run) \<and>
    snd (rc_Manage m nm fin (hw_choices s')) = Still_running"
  using assms by (rule single_run_hangs)

lemma single_listens:
  "\<exists>s. hw_reach single_service s \<and> h_main s = Listening 0 0 \<and>
     h_helpers s ! 0 = Selecting (Arg (Some 0)) \<and> h_ctx s \<and> h_results s = [(Init, None), (Idle, None)]"
proof -
  have "\<exists>s. hw_run single_service (to_run @ [CancelCtx]) hw_init = Some s \<and>
      h_main s = Listening 0 0 \<and> h_helpers s ! 0 = Selecting (Arg (Some 0)) \<and> h_ctx s \<and>
      h_results s = [(Init, None), (Idle, None)]"
    by (simp add: code_simps hw_simps)
  with hw_run_reach [OF hw_reach.start] show ?thesis by blast
qed

theorem single_run_hangs_when_cancelled_witness:
  "\<exists>s. hw_reach single_service s \<and> h_ctx s \<and> h_main s = Listening 0 0 \<and>
     calls (fst (rc_Manage (NewDefaultManager []) ''api'' (Returns None) (hw_choices s))) = [Init, Idle] \<and>
     snd (rc_Manage (NewDefaultManager []) ''api'' (Returns None) (hw_choices s)) = Still_running"
proof -
  from single_listens obtain s where r: "hw_reach single_service s" and s: "h_main s = Listening 0 0"
    "h_helpers s ! 0 = Selecting (Arg (Some 0))" "h_ctx s"
    and c: "h_results s = [(Init, None), (Idle, None)]" by blast
  have "0 < length (h_helpers s)" using single.reach_ok [OF r] s(1) by (simp add: main_ok_def)
  with s obtain t where t: "hw_run single_service (Select 0 SelCtx # []) s = Some t" "h_ctx t"
      "h_results t = h_results s"
    by (simp add: single_service_def)
  from single_run_hangs_when_cancelled [OF r s t(1), of "NewDefaultManager []" "''api''" "Returns None"]
  have "h_main t = Listening 0 0"
    "snd (rc_Manage (NewDefaultManager []) ''api'' (Returns None) (hw_choices t)) = Still_running" by auto
  moreover have "calls (fst (rc_Manage (NewDefaultManager []) ''api'' (Returns None) (hw_choices t))) = [Init, Idle]"
    using t(3) c by (simp add: hw_choices_def rc_Manage_def rc_iter_def manager_end_def log_unless_cancelled_def
        NewDefaultManager_def rc_timer_def)
  ultimately show ?thesis using hw_run_reach [OF r t(1)] t(2) by blast
qed

subsection \<open>A helper that outlives its run\<close>

text \<open>
  The helpers that have the server as an argument never bring the process down. Those that
  use the field do: \<open>ListenAndServe\<close> fails, because the port is taken, \<open>Run\<close> returns, \<open>Stop\<close>
  sets the field to nil, and the helper, still waiting, calls \<open>Shutdown\<close> on nil when the
  context is done, or its timer fires, in a goroutine where nothing recovers.
\<close>

theorem field_helpers_crash:
  "(code \<in> {single_service, multi_service} \<longrightarrow> hw_reach code s \<longrightarrow> h_main s \<noteq> Process_down p) \<and>
   (code \<in> {custom_service, multi_service_rpc} \<longrightarrow>
      (\<exists>s. hw_reach code s \<and> h_main s = Process_down nil_deref \<and>
         map fst (h_results s) = [Init, Idle, Run, Stop]))"
proof -
  let ?ms = "to_run @ [ListenFails CtxCanceled, CallNext, CancelCtx, Select 0 SelCtx, Shuts 0 None]"
  let ?P = "\<lambda>code. \<exists>s. hw_run code ?ms hw_init = Some s \<and> h_main s = Process_down nil_deref \<and>
      map fst (h_results s) = [Init, Idle, Run, Stop]"
  have "?P custom_service" "?P multi_service_rpc" by (simp_all add: code_simps hw_simps)
  then have "code \<in> {custom_service, multi_service_rpc} \<Longrightarrow> ?P code" by blast
  then have "code \<in> {custom_service, multi_service_rpc} \<Longrightarrow>
      \<exists>s. hw_reach code s \<and> h_main s = Process_down nil_deref \<and>
         map fst (h_results s) = [Init, Idle, Run, Stop]"
    using hw_run_reach [OF hw_reach.start] by meson
  moreover have "code \<in> {single_service, multi_service} \<Longrightarrow> hw_reach code s \<Longrightarrow>
      h_main s \<noteq> Process_down p"
    using single.never_down [of s p] multi.never_down [of s p] by auto
  ultimately show ?thesis by blast
qed

lemma custom_listens:
  assumes "h_main s = Before Init" and "h_server s = None" and "\<not> h_ctx s"
  shows "\<exists>s'. hw_run custom_service to_run s = Some s' \<and> \<not> h_ctx s' \<and>
     h_main s' = Listening (h_fresh s) (length (h_helpers s)) \<and> h_server s' = Some (h_fresh s) \<and>
     h_fresh s' = Suc (h_fresh s) \<and> h_helpers s' = h_helpers s @ [Selecting Field] \<and>
     map fst (h_results s') = map fst (h_results s) @ [Init, Idle] \<and>
     h_heap s' = (h_heap s)(h_fresh s \<mapsto> \<lparr>hs_Addr = '':8000'', hs_path = ''/'', hs_shut = False\<rparr>)"
  using assms by (simp add: code_simps hw_simps)

lemma custom_fails:
  assumes "h_main s = Listening i n"
  shows "\<exists>s'. hw_run custom_service [ListenFails e, CallNext] s = Some s' \<and> h_ctx s' = h_ctx s \<and>
     h_main s' = Before Init \<and> h_server s' = None \<and> h_fresh s' = h_fresh s \<and>
     h_helpers s' = h_helpers s \<and> h_heap s' = h_heap s \<and>
     map fst (h_results s') = map fst (h_results s) @ [Run, Stop]"
  using assms by (simp add: code_simps hw_simps)

lemma stale_helper_shuts:
  assumes "h_main s = Listening 1 1" and "h_server s = Some 1" and "\<not> h_ctx s"
    and "h_helpers s = [Selecting Field, Selecting Field]" and "map_option hs_shut (h_heap s 1) = Some False"
  shows "\<exists>s'. hw_run custom_service [Select 0 SelTimer, Shuts 0 None, ListenClosed] s = Some s' \<and>
     \<not> h_ctx s' \<and> h_main s' = Awaiting 1 \<and> h_helpers s' = [HelperEnded, Selecting Field] \<and>
     h_results s' = h_results s \<and> h_heap s' 0 = h_heap s 0 \<and> map_option hs_shut (h_heap s' 1) = Some True"
  using assms by (auto simp: code_simps hw_simps)

text \<open>
  And worse, with the custom manager's service: the helper of a failed \<open>Run\<close> shuts down the
  server of the next one. The context is not done, the second helper is still waiting, and
  the second \<open>Run\<close> has stopped serving and waits for it.
\<close>

theorem stale_helper_stops_next_run:
  "\<exists>s. hw_reach custom_service s \<and> \<not> h_ctx s \<and> h_main s = Awaiting 1 \<and>
     h_helpers s = [HelperEnded, Selecting Field] \<and>
     map fst (h_results s) = [Init, Idle, Run, Stop, Init, Idle] \<and>
     map_option hs_shut (h_heap s 0) = Some False \<and> map_option hs_shut (h_heap s 1) = Some True"
proof -
  have "h_main hw_init = Before Init" "h_server hw_init = None" "\<not> h_ctx hw_init"
    by (simp_all add: hw_init_def)
  from custom_listens [OF this] obtain a where a: "hw_run custom_service to_run hw_init = Some a"
    "\<not> h_ctx a" "h_main a = Listening 0 0" "h_fresh a = 1" "h_helpers a = [Selecting Field]"
    "map fst (h_results a) = [Init, Idle]" "map_option hs_shut (h_heap a 0) = Some False"
    by (auto simp: hw_init_def)
  from custom_fails [OF a(3), of CtxCanceled] a obtain s where
    s: "hw_run custom_service [ListenFails CtxCanceled, CallNext] a = Some s"
    "h_main s = Before Init" "h_server s = None" "\<not> h_ctx s" "h_fresh s = 1"
    "h_helpers s = [Selecting Field]" "map fst (h_results s) = [Init, Idle, Run, Stop]"
    "map_option hs_shut (h_heap s 0) = Some False" by auto
  from custom_listens [OF s(2-4)] s obtain t where t: "hw_run custom_service to_run s = Some t"
    and n: "h_main t = Listening 1 1" "h_server t = Some 1" "\<not> h_ctx t"
      "h_helpers t = [Selecting Field, Selecting Field]" "map_option hs_shut (h_heap t 1) = Some False"
    and k: "map fst (h_results t) = [Init, Idle, Run, Stop, Init, Idle]"
      "map_option hs_shut (h_heap t 0) = Some False" by auto
  from stale_helper_shuts [OF n] obtain u where
    u: "hw_run custom_service [Select 0 SelTimer, Shuts 0 None, ListenClosed] t = Some u"
    and v: "\<not> h_ctx u" "h_main u = Awaiting 1" "h_helpers u = [HelperEnded, Selecting Field]"
      "h_results u = h_results t" "h_heap u 0 = h_heap t 0" "map_option hs_shut (h_heap u 1) = Some True"
    by blast
  have "hw_reach custom_service u"
    by (intro hw_run_reach [OF _ u] hw_run_reach [OF _ t] hw_run_reach [OF _ s(1)]
        hw_run_reach [OF hw_reach.start a(1)])
  moreover have "map fst (h_results u) = [Init, Idle, Run, Stop, Init, Idle]"
    "map_option hs_shut (h_heap u 0) = Some False" using v(4,5) k by simp_all
  ultimately show ?thesis using v(1-3,6) by (intro exI [of _ u] conjI)
qed

end
