(* ===== verification/Rx_ExMains.thy ===== *)
theory Rx_ExMains
  imports Rx_Rpc Rx_ExServerProps
begin

section \<open>The programs of the examples (main.go, rpc\_client/main.go)\<close>

text \<open>
  What the \<open>main\<close> functions build and how they end: each makes its loggers, services and
  daemon, adds the services and starts the daemon. Handlers and runners are numbers, as in
  the models of the logger and the daemon.
\<close>

subsection \<open>The daemons\<close>

definition example_signals :: "string list" where
  "example_signals = [''SIGINT'', ''SIGINT'', ''SIGTERM'']"

definition single_service_setup ::
  "nat \<Rightarrow> nat \<Rightarrow> nat \<Rightarrow> nat \<Rightarrow> logs \<Rightarrow> (string + go_error option) \<times> daemon" where
  "single_service_setup h sh ih runner st =
     (let (logger, st1) = NewLogger LevelInfo h st;
          apiSvc = NewService ''helloworld-api'' runner [];
          (d, st2) = NewDaemon sh ih ''single-service''
            [WithSignals example_signals,
             WithPrestart \<lparr>conf_RestartOnError = True, conf_RestartDelay = 10 * Second\<rparr> [''timer-ready''],
             WithServiceLogger logger] st1
      in addService apiSvc d)"

definition custom_manager_setup ::
  "nat \<Rightarrow> nat \<Rightarrow> nat \<Rightarrow> nat \<Rightarrow> logs \<Rightarrow> (string + go_error option) \<times> daemon" where
  "custom_manager_setup h sh ih runner st =
     (let (logger, st1) = NewLogger LevelInfo h st;
          apiSvc = NewService ''helloworld-api'' runner [Manager (CustomManager 0)];
          (d, st2) = NewDaemon sh ih ''single-service'' [WithSignals example_signals] st1
      in addService apiSvc d)"

definition run_until_success_setup ::
  "nat \<Rightarrow> nat \<Rightarrow> nat \<Rightarrow> nat \<Rightarrow> logs \<Rightarrow> (string + go_error option) \<times> daemon" where
  "run_until_success_setup h sh ih runner st =
     (let (logger, st1) = NewLogger LevelInfo h st;
          transitionDelay = 1 * Second; startupDelay = 3 * Second;
          manager = NewRunUntilSuccessManager transitionDelay startupDelay;
          apiSvc = NewService ''startup-job'' runner [Manager (RunUntilSuccess manager)];
          (d, st2) = NewDaemon sh ih ''single-service'' [WithSignals example_signals] st1
      in addService apiSvc d)"

definition multi_services :: "nat \<Rightarrow> nat \<Rightarrow> Service list" where
  "multi_services apiServer pollClient =
     [\<lparr>svc_Name = ''HelloWorldAPI'', svc_Runner = apiServer, svc_Manager = NoManager\<rparr>,
      \<lparr>svc_Name = ''PollService'', svc_Runner = pollClient, svc_Manager = NoManager\<rparr>]"

definition multi_service_setup ::
  "nat \<Rightarrow> nat \<Rightarrow> nat \<Rightarrow> nat \<Rightarrow> nat \<Rightarrow> logs \<Rightarrow> (string + go_error option) \<times> daemon" where
  "multi_service_setup h sh ih apiServer pollClient st =
     (let (logger, st1) = NewLogger LevelInfo h st;
          (d, st2) = NewDaemon sh ih ''multi-service-daemon'' [] st1
      in AddServices (multi_services apiServer pollClient) d)"

definition multi_service_rpc_setup ::
  "nat \<Rightarrow> nat \<Rightarrow> nat \<Rightarrow> nat \<Rightarrow> nat \<Rightarrow> logs \<Rightarrow> (string + go_error option) \<times> daemon" where
  "multi_service_rpc_setup h sh ih apiServer pollClient st =
     (let (logger, st1) = NewLogger LevelInfo h st;
          (d, st2) = NewDaemon sh ih ''multi-service-daemon''
            [WithRPC \<lparr>Addr = ''localhost'', Port = 1337\<rparr>] st1
      in AddServices (multi_services apiServer pollClient) d)"

text \<open>
  The rest of \<open>main\<close> is the same everywhere: an error of adding or starting is logged and the
  program exits with 1; when \<open>Start\<close> returns nil it logs so and ends.
\<close>

datatype main_end = Exits int Level string | Main_blocks | Main_panics string

definition run_main :: "start_env \<Rightarrow> (string + go_error option) \<times> daemon \<Rightarrow> main_end" where
  "run_main env added =
     (case added of
        (Inl p, d) \<Rightarrow> Main_panics p
      | (Inr (Some e), d) \<Rightarrow> Exits 1 LevelError (error_msg e)
      | (Inr None, d) \<Rightarrow>
          (case fst (daemon_Start env d) of
             StartFails e \<Rightarrow> Exits 1 LevelError (error_msg e)
           | TopicFails e \<Rightarrow> Exits 1 LevelError (ic_error_msg e)
           | StartBlocks \<Rightarrow> Main_blocks
           | StartReturnsNil \<Rightarrow> Exits 0 LevelInfo ''successfully stopped daemon''))"

lemmas setup_simps = single_service_setup_def custom_manager_setup_def run_until_success_setup_def
  multi_service_setup_def multi_service_rpc_setup_def multi_services_def NewService_def
  NewDaemon_def NewLogger_def addService_def Let_def

text \<open>Adding its services succeeds in every example.\<close>

lemma setups_succeed:
  "fst (single_service_setup h sh ih r st) = Inr None"
  "fst (custom_manager_setup h sh ih r st) = Inr None"
  "fst (run_until_success_setup h sh ih r st) = Inr None"
  "fst (multi_service_setup h sh ih r q st) = Inr None"
  "fst (multi_service_rpc_setup h sh ih r q st) = Inr None"
  by (simp_all add: setup_simps)

text \<open>
  Two defaults. A service made by \<open>NewService\<close> and one written as a struct without a manager
  both run under \<open>RunContinuousManager\<close>, but with different delays: ten nanoseconds, and five
  seconds before \<open>Init\<close>, for the one, a hundred milliseconds everywhere for the other.
\<close>

theorem example_managers:
  "d_managers (snd (single_service_setup h sh ih r st)) ''helloworld-api'' =
     Some (Manager (RunContinuous \<lparr>DefaultDelay = 10, StartupDelay = 10, StateTimeouts = [StateInit \<mapsto> 5 * Second]\<rparr>)) \<and>
   d_managers (snd (multi_service_setup h sh ih r q st)) =
     (\<lambda>n. if n \<in> {''HelloWorldAPI'', ''PollService''}
        then Some (Manager (RunContinuous \<lparr>DefaultDelay = 100 * Millisecond,
               StartupDelay = 100 * Millisecond, StateTimeouts = Map.empty\<rparr>)) else None)"
  by (auto simp: setup_simps NewDefaultManager_def fun_eq_iff)

subsection \<open>How the programs end\<close>

lemma run_main_started:
  "fst added = Inr None \<Longrightarrow> run_main env added =
     (case fst (daemon_Start env (snd added)) of
        StartFails e \<Rightarrow> Exits 1 LevelError (error_msg e)
      | TopicFails e \<Rightarrow> Exits 1 LevelError (ic_error_msg e)
      | StartBlocks \<Rightarrow> Main_blocks
      | StartReturnsNil \<Rightarrow> Exits 0 LevelInfo ''successfully stopped daemon'')"
  by (cases added) (simp add: run_main_def)

lemma launched_one:
  "order env = [n] \<Longrightarrow> d_managers d n = Some m \<Longrightarrow> launched env d = [(n, m)]"
  by (simp add: launched_def List.map_filter_def)

lemma success_daemon:
  fixes h sh ih r st
  defines "d \<equiv> snd (run_until_success_setup h sh ih r st)"
  shows "d_services d = [''startup-job'' \<mapsto> r]" "\<not> d_started d" "\<not> rpcEnabled d"
    "d_ic d = intracom_New ''rxd-intracom''"
    "d_managers d ''startup-job'' =
       Some (Manager (RunUntilSuccess (NewRunUntilSuccessManager (1 * Second) (3 * Second))))"
    "d_prestart d = BuiltInPipeline \<lparr>RestartOnError = True, RestartDelay = 5 * Second, Stages = []\<rparr>"
  by (simp_all add: d_def setup_simps)

lemma states_topic_closes:
  assumes "d_ic d = intracom_New n" and "services_do env = id"
  shows "\<exists>e ic. intracom_Close os (Some (registry_after env d)) = (Some e, Some ic)"
proof -
  have "topics (registry_after env d) k = Some r \<Longrightarrow>
      \<exists>T t. heap (registry_after env d) r = Some (NamedType T, t)" for k r
    using assms by (auto simp: registry_after_def create_commit_def intracom_New_def split: if_splits)
  then show ?thesis
    using close_topics_typed_only [of "(registry_after env d)\<lparr>ic_closed := True\<rparr>" os]
    by (cases "ic_closed (registry_after env d)") (auto simp: intracom_Close_def)
qed

text \<open>
  The program \<open>run_until_success\<close> does what its comment says. Started and not cancelled, it
  blocks while its manager has had fewer than fifteen turns; then the job has failed three
  times and succeeded, \<open>Start\<close> returns nil once the topic has taken the service's updates,
  and the program ends with status 0.
\<close>

theorem run_until_success_exits:
  assumes "order env = [''startup-job'']" and "rounds env = []" and "services_do env = id"
    and "snapshots_taken env = length (watched env)"
    and "runs env ''startup-job'' = Choices (Returns x)
      (fst (serve ru_next job_method Init NewStartupJobService (replicate n (Some False))))"
  shows "run_main env (run_until_success_setup h sh ih r st) =
    (if 15 \<le> n then Exits 0 LevelInfo ''successfully stopped daemon'' else Main_blocks)"
proof -
  let ?d = "snd (run_until_success_setup h sh ih r st)"
  let ?m = "NewRunUntilSuccessManager (1 * Second) (3 * Second)"
  let ?cs = "fst (serve ru_next job_method Init NewStartupJobService (replicate n (Some False)))"
  note d = success_daemon [of h sh ih r st]
  have pos: "0 < ru_StartupDelay ?m" "0 < ru_DefaultDelay ?m"
    by (simp_all add: NewRunUntilSuccessManager_def)
  obtain cs ls s where
    sv: "serve ru_next job_method Init NewStartupJobService (replicate n (Some False)) = (cs, ls, s)"
    by (cases "serve ru_next job_method Init NewStartupJobService (replicate n (Some False))") auto
  from startup_job_base [OF pos sv, of "''startup-job''" x]
  have g: "snd (service_goroutine ''startup-job'' (Manager (RunUntilSuccess ?m)) (runs env ''startup-job''))
      \<longleftrightarrow> 15 \<le> n"
    by (cases "15 \<le> n") (auto simp: service_goroutine_def assms(5) sv)
  have start: "startable env ?d"
    using assms(2) by (simp add: startable_def d prestart_ends_def pipeline_Run_def intracom_New_def)
  obtain e ic where "intracom_Close (topic_orders env) (Some (registry_after env ?d)) = (Some e, Some ic)"
    using states_topic_closes [OF d(4) assms(3)] by blast
  then have "fst (daemon_Start env ?d) = (if 15 \<le> n then StartReturnsNil else StartBlocks)"
    using launched_one [OF assms(1) d(5)] g assms(4) d(3)
    by (simp add: Start_startable [OF start] Let_def)
  then show ?thesis by (simp add: run_main_started setups_succeed(3))
qed

theorem run_until_success_exits_witness:
  "run_main (demo_env [''startup-job''] (\<lambda>_. Choices (Returns None)
       (fst (serve ru_next job_method Init NewStartupJobService (replicate 15 (Some False))))) [])
     (run_until_success_setup 0 1 2 7 no_logs) =
   Exits 0 LevelInfo ''successfully stopped daemon''"
proof -
  let ?env = "demo_env [''startup-job''] (\<lambda>_. Choices (Returns None)
       (fst (serve ru_next job_method Init NewStartupJobService (replicate 15 (Some False))))) []"
  have e: "order ?env = [''startup-job'']" "rounds ?env = []" "services_do ?env = id"
    "snapshots_taken ?env = length (watched ?env)"
    "runs ?env ''startup-job'' = Choices (Returns None)
      (fst (serve ru_next job_method Init NewStartupJobService (replicate 15 (Some False))))"
    by (simp_all add: demo_env_def watched_def)
  from run_until_success_exits [OF e, of 0 1 2 7 no_logs] show ?thesis by simp
qed

lemma single_daemon:
  fixes h sh ih r st
  defines "d \<equiv> snd (single_service_setup h sh ih r st)"
  shows "d_services d = [''helloworld-api'' \<mapsto> r]" "\<not> d_started d"
    "\<exists>m. d_managers d ''helloworld-api'' = Some (Manager (RunContinuous m))"
    "d_ic d = intracom_New ''rxd-intracom''"
  by (simp_all add: d_def setup_simps)

text \<open>
  C21: The program \<open>single_service\<close> does not stop. Once the context is done while the server
  listens, and the helper takes that case of its \<open>select\<close>, the program blocks: for whatever
  else happens, unless the server fails by itself, the service's goroutine does not end and
  \<open>Start\<close> does not return. So neither the time-out of \<open>main\<close> nor a signal ends it.
\<close>

theorem single_service_never_exits:
  assumes "hw_reach single_service s" and "h_main s = Listening i n" and "h_helpers s ! n = Selecting q"
    and "h_ctx s" and "hw_run single_service (Select n SelCtx # mvs) s = Some s'"
    and "\<forall>e. ListenFails e \<notin> set mvs"
    and "order env = [''helloworld-api'']"
    and "runs env ''helloworld-api'' = Choices fin (hw_choices s')"
  shows "h_main s' = Listening i n \<and> run_main env (single_service_setup h sh ih r st) = Main_blocks"
proof -
  let ?d = "snd (single_service_setup h sh ih r st)"
  note d = single_daemon [of h sh ih r st]
  obtain m where m: "d_managers ?d ''helloworld-api'' = Some (Manager (RunContinuous m))" using d(3) by blast
  note hang = single_run_hangs [OF assms(1-6), of m "''helloworld-api''" fin]
  then have "\<not> snd (service_goroutine ''helloworld-api'' (Manager (RunContinuous m))
      (runs env ''helloworld-api''))"
    by (simp add: rc_goroutine(2) assms(8))
  then have "fst (daemon_Start env ?d) = StartBlocks"
    using launched_one [OF assms(7) m] d(1,2,4) Start_startable [of env ?d]
    by (cases "prestart_ends env ?d")
      (simp_all add: startable_def intracom_New_def daemon_Start_def startable_cancel Let_def)
  then show ?thesis using hang by (simp add: run_main_started setups_succeed(1))
qed

theorem single_service_never_exits_witness:
  "\<exists>s. hw_reach single_service s \<and> h_ctx s \<and> h_main s = Listening 0 0 \<and>
     run_main (demo_env [''helloworld-api''] (\<lambda>_. Choices (Returns None) (hw_choices s)) [])
       (single_service_setup 0 1 2 7 no_logs) = Main_blocks"
proof -
  from single_listens obtain s where s: "hw_reach single_service s" "h_main s = Listening 0 0"
    "h_helpers s ! 0 = Selecting (Arg (Some 0))" "h_ctx s" by blast
  have "0 < length (h_helpers s)" using single.reach_ok [OF s(1)] s(2) by (simp add: main_ok_def)
  with s obtain t where t: "hw_run single_service (Select 0 SelCtx # []) s = Some t" "h_ctx t"
    by (simp add: single_service_def)
  let ?env = "demo_env [''helloworld-api''] (\<lambda>_. Choices (Returns None) (hw_choices t)) []"
  have e: "\<forall>e. ListenFails e \<notin> set []" "order ?env = [''helloworld-api'']"
    "runs ?env ''helloworld-api'' = Choices (Returns None) (hw_choices t)"
    by (simp_all add: demo_env_def)
  from single_service_never_exits [OF s t(1) e, of 0 1 2 7 no_logs] t(2) hw_run_reach [OF s(1) t(1)]
  show ?thesis by blast
qed

end
