(* ===== verification/Rx_ExPolling.thy ===== *)
theory Rx_ExPolling
  imports Rx_StatesTopic Rx_ExStartup
begin

section \<open>The polling service of the examples (polling\_service.go)\<close>

text \<open>
  \<open>APIPollingService\<close> of the examples \<open>multi_service\<close> and \<open>multi_service_rpc\<close>: it idles
  until the API's service has entered \<open>Run\<close>, then polls the API until that service has left
  \<open>Run\<close>, or often enough. Its methods run over what their \<open>select\<close> meets: the context done,
  something to receive on the watch's channel, the timer with the reply to the request that
  is then made.
\<close>

record APIPollingService =
  client_Timeout :: duration
  apiBase :: string
  retryDuration :: duration
  maxPollCount :: int

definition multi_NewAPIPollingService :: APIPollingService where
  "multi_NewAPIPollingService =
     \<lparr>client_Timeout = 3 * Second, apiBase = ''http://localhost:8000'', retryDuration = 10 * Second, maxPollCount = 2\<rparr>"

definition rpc_NewAPIPollingService :: APIPollingService where
  "rpc_NewAPIPollingService =
     \<lparr>client_Timeout = 3 * Second, apiBase = ''http://localhost:8000'', retryDuration = 10 * Second, maxPollCount = 5\<rparr>"

text \<open>
  A request fails, or its body cannot be read, or is no JSON object, or is one: then with
  the status, the bytes, and the text that \<open>fmt\<close> gives of the object.
\<close>

datatype reply = GetFails go_error | ReadFails int go_error | NotJson int go_error
  | Answer int string string

datatype poll_event = PollDone go_error | StatesSignal | PollTimer reply

datatype peffect = Get string | ResetTimer duration | PLog Level string

datatype poll_end = Polling int | PollReturns "go_error option"

subsection \<open>multi\_service\<close>

text \<open>\<open>pollCount\<close> counts the attempts; \<open>PollDone\<close> carries what \<open>sctx.Err()\<close> is then.\<close>

fun multi_poll_loop :: "APIPollingService \<Rightarrow> int \<Rightarrow> poll_event list \<Rightarrow> peffect list \<times> poll_end" where
  "multi_poll_loop p n [] = ([], Polling n)"
| "multi_poll_loop p n (PollDone e # es) = ([], PollReturns (Some e))"
| "multi_poll_loop p n (StatesSignal # es) = ([], PollReturns None)"
| "multi_poll_loop p n (PollTimer rep # es) =
     (if n + 1 > maxPollCount p
      then ([PLog LevelInfo ''reached maximum poll count, stopping''], PollReturns (Some ErrLifecycleDone))
      else
       (let url = apiBase p @ ''/api''; (fs, r) = multi_poll_loop p (n + 1) es in
        case rep of
          GetFails e \<Rightarrow>
            (Get url # ResetTimer (retryDuration p) #
               PLog LevelError (''error making request to API: '' @ error_msg e) # fs, r)
        | ReadFails st e \<Rightarrow>
            ([Get url, PLog LevelError (''error reading response body: '' @ error_msg e)],
             PollReturns (Some e))
        | NotJson st e \<Rightarrow>
            ([Get url, PLog LevelError (''error unmarshalling response body: '' @ error_msg e)],
             PollReturns (Some e))
        | Answer st raw tx \<Rightarrow>
            (Get url # PLog LevelInfo (''received response from the API: '' @ tx) #
               ResetTimer (retryDuration p) # fs, r)))"

definition multi_poll_Run :: "APIPollingService \<Rightarrow> poll_event list \<Rightarrow> peffect list \<times> poll_end" where
  "multi_poll_Run p es =
     (let (fs, r) = multi_poll_loop p 0 es
      in (PLog LevelInfo ''entered run state'' # ResetTimer (1 * Second) #
            PLog LevelInfo ''starting to poll'' # fs, r))"

subsection \<open>multi\_service\_rpc\<close>

text \<open>Here \<open>pollCount\<close> counts the answers.\<close>

fun rpc_poll_loop :: "APIPollingService \<Rightarrow> int \<Rightarrow> poll_event list \<Rightarrow> peffect list \<times> poll_end" where
  "rpc_poll_loop p n [] = ([], Polling n)"
| "rpc_poll_loop p n (PollDone e # es) = ([], PollReturns None)"
| "rpc_poll_loop p n (StatesSignal # es) = ([], PollReturns None)"
| "rpc_poll_loop p n (PollTimer rep # es) =
     (if n > maxPollCount p
      then ([PLog LevelInfo ''reached maximum poll count, stopping''], PollReturns None)
      else
       (let url = apiBase p @ ''/api'';
            status = (\<lambda>st. PLog LevelInfo (''received response from the API: '' @ Itoa st)) in
        case rep of
          GetFails e \<Rightarrow>
            (let (fs, r) = rpc_poll_loop p n es in (Get url # ResetTimer (retryDuration p) # fs, r))
        | ReadFails st e \<Rightarrow> ([Get url, status st], PollReturns (Some e))
        | NotJson st e \<Rightarrow> ([Get url, status st], PollReturns (Some e))
        | Answer st raw tx \<Rightarrow>
            (let (fs, r) = rpc_poll_loop p (n + 1) es
             in (Get url # status st # PLog LevelDebug (''response body: '' @ raw) #
                   ResetTimer (10 * Second) # fs, r))))"

definition rpc_poll_Run :: "APIPollingService \<Rightarrow> poll_event list \<Rightarrow> peffect list \<times> poll_end" where
  "rpc_poll_Run p es =
     (let (fs, r) = rpc_poll_loop p 0 es
      in (PLog LevelDebug ''entered run state'' # ResetTimer (1 * Second) #
            PLog LevelInfo ''starting to poll'' # fs, r))"

subsection \<open>Waiting for the API\<close>

text \<open>
  The watches that \<open>Idle\<close> and \<open>Run\<close> begin. \<open>Idle\<close> returns nil on either case of its
  \<open>select\<close>; \<open>None\<close> is that it still waits.
\<close>

definition ServiceHelloWorldAPI :: string where "ServiceHelloWorldAPI = ''HelloWorldAPI''"

definition idle_watch :: "serviceContext \<Rightarrow> watch" where
  "idle_watch sc = WatchAllServices Entering StateRun [ServiceHelloWorldAPI] sc"

definition run_watch :: "serviceContext \<Rightarrow> watch" where
  "run_watch sc = WatchAllServices Exited StateRun [ServiceHelloWorldAPI] sc"

datatype idle_event = IdleDone | IdleStates

fun multi_poll_Idle :: "idle_event option \<Rightarrow> log_line list \<times> go_error option option" where
  "multi_poll_Idle None = ([(LevelInfo, ''entered idle state'')], None)"
| "multi_poll_Idle (Some IdleDone) = ([(LevelInfo, ''entered idle state'')], Some None)"
| "multi_poll_Idle (Some IdleStates) =
     ([(LevelInfo, ''entered idle state''), (LevelInfo, ''Hello World API has entered Run state'')],
      Some None)"

fun rpc_poll_Idle :: "idle_event option \<Rightarrow> log_line list \<times> go_error option option" where
  "rpc_poll_Idle None = ([(LevelDebug, ''entered idle state'')], None)"
| "rpc_poll_Idle (Some IdleDone) = ([(LevelDebug, ''entered idle state'')], Some None)"
| "rpc_poll_Idle (Some IdleStates) =
     ([(LevelDebug, ''entered idle state''), (LevelDebug, ''leaving the entered Idle state'')],
      Some None)"

definition multi_poll_Init :: "log_line list \<times> go_error option" where
  "multi_poll_Init = ([(LevelInfo, ''initializing'')], None)"

definition multi_poll_Stop :: "log_line list \<times> go_error option" where
  "multi_poll_Stop = ([(LevelInfo, ''stopping'')], None)"

definition rpc_poll_Init :: "log_line list \<times> go_error option" where
  "rpc_poll_Init = ([(LevelDebug, ''entered init state'')], None)"

definition rpc_poll_Stop :: "log_line list \<times> go_error option" where
  "rpc_poll_Stop = ([(LevelDebug, ''entered stop state'')], None)"

text \<open>
  What can be received from a watch's channel: what its goroutine has sent, and, without
  end, the zero value once it has ended and closed it.
\<close>

definition can_receive :: "wresult \<Rightarrow> bool" where
  "can_receive r \<longleftrightarrow> sent r \<noteq> [] \<or> ended r"

subsection \<open>How often the API is asked\<close>

fun requests :: "peffect list \<Rightarrow> nat" where
  "requests [] = 0"
| "requests (Get u # fs) = Suc (requests fs)"
| "requests (_ # fs) = requests fs"

lemma multi_requests:
  "requests (fst (multi_poll_loop p n es)) \<le> nat (maxPollCount p - n) \<and>
   (n \<le> maxPollCount p + 1 \<longrightarrow>
     (case snd (multi_poll_loop p n es) of
        Polling k \<Rightarrow> n \<le> k \<and> k \<le> max n (maxPollCount p) \<and> length es = nat (k - n) | _ \<Rightarrow> True))"
proof (induction p n es rule: multi_poll_loop.induct)
  case (4 p n rep es)
  show ?case
  proof (cases "n + 1 > maxPollCount p")
    case False
    obtain fs r where l: "multi_poll_loop p (n + 1) es = (fs, r)" by force
    with 4 False show ?thesis by (cases rep) (auto split: poll_end.splits)
  qed simp
qed simp_all

text \<open>
  The number of polls. In \<open>multi_service\<close> a call of \<open>Run\<close> makes at most \<open>maxPollCount\<close>
  requests, whatever the API answers, and returns when its timer has fired more often.
\<close>

theorem multi_polls_are_bounded:
  assumes "0 \<le> maxPollCount p"
  shows "requests (fst (multi_poll_Run p es)) \<le> nat (maxPollCount p) \<and>
    (nat (maxPollCount p) < length es \<longrightarrow> (\<exists>r. snd (multi_poll_Run p es) = PollReturns r))"
  using multi_requests [of p 0 es] assms
  by (cases "snd (multi_poll_loop p 0 es)") (auto simp: multi_poll_Run_def split: prod.split)

theorem multi_polls_are_bounded_witness:
  "requests (fst (multi_poll_Run multi_NewAPIPollingService
     (replicate 3 (PollTimer (GetFails CtxDeadlineExceeded))))) \<le> 2 \<and>
   (\<exists>r. snd (multi_poll_Run multi_NewAPIPollingService
     (replicate 3 (PollTimer (GetFails CtxDeadlineExceeded)))) = PollReturns r)"
proof -
  have m: "0 \<le> maxPollCount multi_NewAPIPollingService" by (simp add: multi_NewAPIPollingService_def)
  from multi_polls_are_bounded [OF m, of "replicate 3 (PollTimer (GetFails CtxDeadlineExceeded))"]
  show ?thesis by (simp add: multi_NewAPIPollingService_def)
qed

lemma multi_answered:
  "n \<le> maxPollCount p \<Longrightarrow>
     (case multi_poll_loop p n (map (\<lambda>(st, raw, tx). PollTimer (Answer st raw tx)) as) of (fs, r) \<Rightarrow>
        requests fs = min (length as) (nat (maxPollCount p - n)) \<and>
        (r = PollReturns (Some ErrLifecycleDone) \<longleftrightarrow> nat (maxPollCount p - n) < length as))"
proof (induction as arbitrary: n)
  case (Cons a as)
  obtain st raw tx where a: "a = (st, raw, tx)" by (cases a) auto
  show ?case
  proof (cases "n + 1 > maxPollCount p")
    case True
    with Cons.prems a show ?thesis by simp
  next
    case False
    with Cons.IH [of "n + 1"] a show ?thesis by (auto split: prod.splits)
  qed
qed simp

lemma rpc_answered:
  "n \<le> maxPollCount p + 1 \<Longrightarrow>
     (case rpc_poll_loop p n (map (\<lambda>(st, raw, tx). PollTimer (Answer st raw tx)) as) of (fs, r) \<Rightarrow>
        requests fs = min (length as) (nat (maxPollCount p + 1 - n)) \<and>
        (r = PollReturns None \<longleftrightarrow> nat (maxPollCount p + 1 - n) < length as))"
proof (induction as arbitrary: n)
  case (Cons a as)
  obtain st raw tx where a: "a = (st, raw, tx)" by (cases a) auto
  show ?case
  proof (cases "n > maxPollCount p")
    case True
    with Cons.prems a show ?thesis by simp
  next
    case False
    with Cons.IH [of "n + 1"] a show ?thesis by (auto split: prod.splits)
  qed
qed simp

lemma rpc_failing:
  "n \<le> maxPollCount p \<Longrightarrow>
     rpc_poll_loop p n (map (\<lambda>e. PollTimer (GetFails e)) errs) =
       (concat (map (\<lambda>e. [Get (apiBase p @ ''/api''), ResetTimer (retryDuration p)]) errs), Polling n)"
  by (induction errs) (simp_all add: Let_def)

text \<open>
  The other example is one poll out, and has no bound. When every request is answered,
  \<open>multi_service\<close> asks \<open>maxPollCount\<close> times and then says that the lifecycle is done, while
  \<open>multi_service_rpc\<close> asks once more and returns nil. When the API is down, it asks as often
  as its timer fires, without ever reaching the maximum.
\<close>

definition answers :: "(int \<times> string \<times> string) list \<Rightarrow> poll_event list" where
  "answers xs = map (\<lambda>(st, raw, tx). PollTimer (Answer st raw tx)) xs"

definition failures :: "go_error list \<Rightarrow> poll_event list" where
  "failures errs = map (\<lambda>e. PollTimer (GetFails e)) errs"

theorem rpc_polls_once_more_or_for_ever:
  assumes "maxPollCount p = int m"
  shows "requests (fst (multi_poll_Run p (answers xs))) = min (length xs) m \<and>
    (snd (multi_poll_Run p (answers xs)) = PollReturns (Some ErrLifecycleDone) \<longleftrightarrow> m < length xs) \<and>
    requests (fst (rpc_poll_Run p (answers xs))) = min (length xs) (m + 1) \<and>
    (snd (rpc_poll_Run p (answers xs)) = PollReturns None \<longleftrightarrow> m + 1 < length xs) \<and>
    requests (fst (rpc_poll_Run p (failures errs))) = length errs \<and>
    snd (rpc_poll_Run p (failures errs)) = Polling 0"
proof -
  have c: "requests (concat (map (\<lambda>e. [Get u, ResetTimer d]) errs)) = length errs" for u d
    by (induction errs) simp_all
  have n: "nat (maxPollCount p + 1) = m + 1" "nat (maxPollCount p) = m" using assms by simp_all
  show ?thesis
    using multi_answered [of 0 p xs] rpc_answered [of 0 p xs] rpc_failing [of 0 p errs] assms c n
    by (simp add: multi_poll_Run_def rpc_poll_Run_def answers_def failures_def split: prod.splits)
qed

theorem rpc_polls_once_more_or_for_ever_witness:
  "let es = answers (replicate 9 (200, ''{}'', ''map[]''))
   in requests (fst (multi_poll_Run multi_NewAPIPollingService es)) = 2 \<and>
      requests (fst (rpc_poll_Run multi_NewAPIPollingService es)) = 3"
proof -
  have m: "maxPollCount multi_NewAPIPollingService = int 2" by (simp add: multi_NewAPIPollingService_def)
  from rpc_polls_once_more_or_for_ever [OF m, of "replicate 9 (200, ''{}'', ''map[]'')" "[]"]
  show ?thesis by simp
qed

subsection \<open>What the polling service hears of the API's service\<close>

text \<open>
  The gate that \<open>Idle\<close> is. With its subscription in place and the snapshots going through,
  \<open>Idle\<close> can be told that the API runs exactly if one of the snapshots it was given has the
  API's service entering \<open>Run\<close>, whatever states the other services are in.
\<close>

theorem idle_waits_for_the_api:
  "can_receive (watch_goroutine (idle_watch sc) (Some c) (map (\<lambda>st. GotStates st True) sts)) \<longleftrightarrow>
     (\<exists>st \<in> set sts. st ServiceHelloWorldAPI = Some (mk_update StateRun TransitionEntering))"
proof -
  have "reached Entering StateRun st n \<longleftrightarrow> st n = Some (mk_update StateRun TransitionEntering)" for st n
    by (cases "st n"; cases "the (st n)") (auto simp: reached_def interesting_def)
  then have "List.map_filter (\<lambda>st. snd (all_turn Entering StateRun [ServiceHelloWorldAPI] st)) sts \<noteq> [] \<longleftrightarrow>
      (\<exists>st \<in> set sts. st ServiceHelloWorldAPI = Some (mk_update StateRun TransitionEntering))"
    by (auto simp: List.map_filter_def filter_empty_conv all_turn_eq)
  then show ?thesis
    by (simp add: can_receive_def watch_goroutine_def idle_watch_def WatchAllServices_def watch_loop_snapshots)
qed

text \<open>
  The gate that stands open. The service does not look whether the channel is closed. When
  the watch cannot subscribe, or the states topic closes, there is something to receive
  without any snapshot, and \<open>Idle\<close> reports that the API has entered \<open>Run\<close> and returns.
\<close>

theorem idle_takes_closed_for_running:
  "can_receive (watch_goroutine (idle_watch sc) None es) \<and>
   can_receive (watch_goroutine (idle_watch sc) (Some c) (map (\<lambda>st. GotStates st True) sts @ [SubscriptionClosed])) \<and>
   multi_poll_Idle (Some IdleStates) =
     ([(LevelInfo, ''entered idle state''), (LevelInfo, ''Hello World API has entered Run state'')], Some None)"
  by (simp add: can_receive_def watch_goroutine_def idle_watch_def WatchAllServices_def watch_loop_append Let_def)

text \<open>
  The exit that is missed. \<open>Run\<close> begins its watch for the API's service leaving \<open>Run\<close> when
  \<open>Idle\<close> has returned. If that service has left \<open>Run\<close> and gone on in the meantime, the
  topic gives the new watch the last snapshot only, and there is nothing to receive: the
  service polls, although the API's service has stopped, until it has polled often enough.
\<close>

theorem poll_run_misses_early_exit:
  fixes sts :: "ServiceStates list"
  assumes "sts \<noteq> []"
    and "last sts ServiceHelloWorldAPI \<noteq> Some (mk_update StateRun TransitionExited)"
  shows "\<exists>s. store (bc_run (late_run g sts) (bc_init False)) 0 = Some s \<and>
    fair_run (late_run g sts) (bc_init False) \<and> history (late_run g sts) (bc_init False) = sts \<and>
    \<not> sub_closed s \<and> buf (ch s) = [] \<and>
    \<not> can_receive (watch_goroutine (run_watch sc) (Some 0) (map (\<lambda>st. GotStates st True) (delivered (ch s))))"
proof -
  from late_run_facts(4) [OF assms(1), of g] obtain s where
    s: "store (bc_run (late_run g sts) (bc_init False)) 0 = Some s" "\<not> sub_closed s" "buf (ch s) = []"
      "delivered (ch s) = [last sts]" by blast
  have "\<not> reached Exited StateRun (last sts) ServiceHelloWorldAPI"
    using assms(2) by (cases "last sts ServiceHelloWorldAPI"; cases "the (last sts ServiceHelloWorldAPI)")
      (auto simp: reached_def interesting_def)
  then have "\<not> can_receive (watch_goroutine (run_watch sc) (Some 0) (map (\<lambda>st. GotStates st True) [last sts]))"
    by (simp add: can_receive_def watch_goroutine_def run_watch_def WatchAllServices_def all_turn_eq)
  with s late_run_facts(1,3) [OF assms(1), of g] show ?thesis by auto
qed

theorem poll_run_misses_early_exit_witness:
  "let sts = map (\<lambda>(k, t). [ServiceHelloWorldAPI \<mapsto> mk_update k t])
       [(StateRun, TransitionEntering), (StateRun, TransitionExited), (StateStop, TransitionEntering)]
   in \<exists>s. store (bc_run (late_run ''poll'' sts) (bc_init False)) 0 = Some s \<and>
     \<not> can_receive (watch_goroutine (run_watch (demo_sc ''poll'')) (Some 0)
       (map (\<lambda>st. GotStates st True) (delivered (ch s))))"
proof -
  let ?sts = "map (\<lambda>(k, t). [ServiceHelloWorldAPI \<mapsto> mk_update k t])
       [(StateRun, TransitionEntering), (StateRun, TransitionExited), (StateStop, TransitionEntering)]"
  have "?sts \<noteq> []" "last ?sts ServiceHelloWorldAPI \<noteq> Some (mk_update StateRun TransitionExited)"
    by simp_all
  from poll_run_misses_early_exit [OF this, of "''poll''" "demo_sc ''poll''"] show ?thesis
    unfolding Let_def by blast
qed

end
