(* ===== verification/Rx_ExMulti.thy ===== *)
theory Rx_ExMulti
  imports Rx_ExMains Rx_ExPolling
begin

section \<open>The program multi\_service as a whole\<close>

text \<open>
  The two services of \<open>examples/multi_service\<close>, their managers and the daemon together.
\<close>

subsection \<open>A program that ends\<close>

lemma multi_daemon:
  fixes h sh ih r q st
  defines "d \<equiv> snd (multi_service_setup h sh ih r q st)"
  shows "d_services d = [''HelloWorldAPI'' \<mapsto> r, ''PollService'' \<mapsto> q]" "\<not> d_started d" "\<not> rpcEnabled d"
    "d_ic d = intracom_New ''rxd-intracom''"
    "n \<in> {''HelloWorldAPI'', ''PollService''} \<Longrightarrow>
       d_managers d n = Some (Manager (RunContinuous (NewDefaultManager [])))"
    "d_prestart d = BuiltInPipeline \<lparr>RestartOnError = True, RestartDelay = 5 * Second, Stages = []\<rparr>"
  by (auto simp: d_def setup_simps)

text \<open>The polling service returns from \<open>Run\<close> when its context is done.\<close>

lemma poll_returns_when_done:
  "\<exists>r. snd (multi_poll_Run p (es @ PollDone e # es')) = PollReturns r"
proof -
  have "\<exists>r. snd (multi_poll_loop p n (es @ PollDone e # es')) = PollReturns r" for n
  proof (induction p n es rule: multi_poll_loop.induct)
    case (4 p n rep es)
    then show ?case by (cases rep) (auto simp: Let_def split: prod.split)
  qed auto
  from this [of 0] show ?thesis by (auto simp: multi_poll_Run_def split_def Let_def)
qed

lemma multi_program_exits:
  assumes "set (order env) = {''HelloWorldAPI'', ''PollService''}"
    and "rounds env = []" and "services_do env = id" and "snapshots_taken env = length (watched env)"
    and "\<And>n. n \<in> set (order env) \<Longrightarrow> \<exists>x cs. runs env n = Choices (Returns x) (cs @ [CtxDone])"
  shows "run_main env (multi_service_setup h sh ih r q st) = Exits 0 LevelInfo ''successfully stopped daemon''"
proof -
  let ?d = "snd (multi_service_setup h sh ih r q st)"
  let ?m = "Manager (RunContinuous (NewDefaultManager []))"
  note d = multi_daemon [where h = h and sh = sh and ih = ih and r = r and q = q and st = st]
  have g: "snd (service_goroutine n ?m (runs env n))" if n: "n \<in> set (order env)" for n
  proof -
    from assms(5) [OF n] obtain x cs where c: "runs env n = Choices (Returns x) (cs @ [CtxDone])" by blast
    have "\<not> list_all returning (cs @ [CtxDone])" by simp
    then show ?thesis unfolding c rc_goroutine(2) rc_running_iff .
  qed
  have l: "(n, m) \<in> set (launched env ?d) \<Longrightarrow> n \<in> set (order env) \<and> m = ?m" for n m
    using d(5) assms(1) by (auto simp: launched_def List.map_filter_def)
  have start: "startable env ?d"
    using assms(2) by (simp add: startable_def d prestart_ends_def pipeline_Run_def intracom_New_def)
  obtain e ic where "intracom_Close (topic_orders env) (Some (registry_after env ?d)) = (Some e, Some ic)"
    using states_topic_closes [OF d(4) assms(3)] by blast
  moreover have "list_all (\<lambda>(n, m). snd (service_goroutine n m (runs env n))) (launched env ?d)"
    using l g by (auto simp: list_all_iff)
  ultimately have "fst (daemon_Start env ?d) = StartReturnsNil"
    using assms(4) d(3) by (simp add: Start_startable [OF start] Let_def)
  then show ?thesis by (simp add: run_main_started setups_succeed(4))
qed

text \<open>
  What \<open>Start\<close> meets when both managers have taken the done context in a \<open>select\<close>: that of
  the HTTP service in the state \<open>t\<close>, that of the polling service after any choices.
\<close>

definition told_to_stop :: "start_env \<Rightarrow> hw \<Rightarrow> bool" where
  "told_to_stop env t \<longleftrightarrow>
     set (order env) = {''HelloWorldAPI'', ''PollService''} \<and> rounds env = [] \<and> services_do env = id \<and>
     snapshots_taken env = length (watched env) \<and>
     (\<exists>x. runs env ''HelloWorldAPI'' = Choices (Returns x) (hw_choices t @ [CtxDone])) \<and>
     (\<exists>y cs. runs env ''PollService'' = Choices (Returns y) (cs @ [CtxDone]))"



end
