(* ===== verification/Rx_ExRpcClient.thy ===== *)
theory Rx_ExRpcClient
  imports Rx_ExMains
begin

section \<open>The client program (multi\_service\_rpc/rpc\_client/main.go, pkg/rpc/client.go)\<close>

text \<open>
  The program that changes the log level of the daemon of \<open>multi_service_rpc\<close>. Dialling
  finds a server with the address and the path among those that run, or fails with some
  text; the client is then the handler that the path stands for.
\<close>

definition DialHTTPPath :: "string \<Rightarrow> rpc_server list \<Rightarrow> string \<Rightarrow> string \<Rightarrow> string + CommandHandler" where
  "DialHTTPPath err servers addr path =
     (case List.find (\<lambda>srv. srv_Addr srv = addr \<and> map_of (srv_routes srv) path \<noteq> None) servers of
        None \<Rightarrow> Inl err
      | Some srv \<Rightarrow> Inr (the (map_of (srv_routes srv) path)))"

definition NewClientWithPath ::
  "string \<Rightarrow> rpc_server list \<Rightarrow> string \<Rightarrow> string \<Rightarrow> string + CommandHandler" where
  "NewClientWithPath err servers addr path = DialHTTPPath err servers addr path"

definition NewClient :: "string \<Rightarrow> rpc_server list \<Rightarrow> string \<Rightarrow> string + CommandHandler" where
  "NewClient err servers addr = DialHTTPPath err servers addr ''/rpc''"

definition processCommand :: "string \<Rightarrow> Command" where
  "processCommand command = (if command = ''setlevel'' then Command 1 else Command 0)"

datatype client_end = Client_exits int string | Client_blocks

text \<open>
  \<open>ev\<close> is how the client's call ends, \<open>handled\<close> whether the daemon has served it. The
  level is tested as an \<open>int8\<close>.
\<close>

definition rpc_client_main ::
  "string \<Rightarrow> rpc_server list \<Rightarrow> client_event \<Rightarrow> bool \<Rightarrow> string list \<Rightarrow> logs \<Rightarrow> client_end \<times> logs" where
  "rpc_client_main err servers ev handled args st =
     (if length args < 2 then (Client_exits 1 ''usage: rpc_client setlevel <command>'', st)
      else
       (let cmd = processCommand (args ! 1) in
        if cmd = Command 0 then (Client_exits 1 (''unknown command: '' @ args ! 1), st)
        else
          (case NewClientWithPath err servers ''localhost:1337'' ''/rpc'' of
             Inl e \<Rightarrow> (Client_exits 1 e, st)
           | Inr h \<Rightarrow>
              if cmd = Command 1 then
               (if length args < 3 then (Client_exits 1 ''usage: rpc_client loglevel <level>'', st)
                else
                 (let level = LevelFromString (args ! 2) in
                  if sint (level_code level) < 0
                  then (Client_exits 1 (''unknown log level: '' @ args ! 2), st)
                  else
                   (let st' = (if handled
                               then case ChangeLogLevel h level st of Inr st' \<Rightarrow> st' | Inl p \<Rightarrow> st
                               else st) in
                    case client_ChangeLogLevel ev of
                      ClientWaits \<Rightarrow> (Client_blocks, st')
                    | ClientReturns (Some e) \<Rightarrow> (Client_exits 1 (error_msg e), st')
                    | ClientReturns None \<Rightarrow> (Client_exits 0 (''log level changed to: '' @ args ! 2), st'))))
              else (Client_exits 0 ''client has exited successfully.'', st))))"

subsection \<open>Client and daemon\<close>

lemma rpc_daemon:
  fixes h sh ih r q st
  defines "d \<equiv> snd (multi_service_rpc_setup h sh ih r q st)"
  shows "start_server None d =
      Some \<lparr>srv_Addr = ''localhost:1337'',
            srv_routes = [(''/rpc'', \<lparr>sLogger = Some (serviceLogger d), iLogger = Some (internalLogger d)\<rparr>)]\<rparr>"
proof -
  have "Itoa 1337 = ''1337''" by (code_simp)
  then show ?thesis
    by (simp add: d_def setup_simps start_server_def rpc_address_def)
qed

text \<open>A level read from a text is none of those that are negative as an \<open>int8\<close>.\<close>

lemma LevelFromString_nonneg: "0 \<le> sint (level_code (LevelFromString s))"
  by (simp add: LevelFromString_def Let_def)

lemma LevelFromString_other:
  "strings_ToUpper s \<notin> range Level_String \<Longrightarrow> LevelFromString s = LevelInfo"
proof -
  assume a: "strings_ToUpper s \<notin> range Level_String"
  have "Level_String l \<noteq> strings_ToUpper s" for l using a by (metis rangeI)
  from this [of LevelEmergency] this [of LevelAlert] this [of LevelCritical] this [of LevelError]
    this [of LevelWarning] this [of LevelNotice] this [of LevelInfo] this [of LevelDebug]
  show ?thesis by (simp add: LevelFromString_def Let_def Level_String_def)
qed

text \<open>
  The client finds the daemon of its example, and tells it anything. With the daemon
  running, \<open>setlevel\<close> and any text whatever, the client never says that the level is
  unknown: a text that is no level's name sets the level INFO, and is reported as the new
  level. And a call that has timed out unserved is reported as a change too. With an empty
  path the constructor does not fall back on \<open>/rpc\<close>.
\<close>

theorem rpc_client_reports_any_level:
  fixes h sh ih r q st0
  defines "d \<equiv> snd (multi_service_rpc_setup h sh ih r q st0)"
  assumes "start_server None d = Some srv"
  shows "rpc_client_main err [srv] (Answered None) True [prog, ''setlevel'', s] st =
      (Client_exits 0 (''log level changed to: '' @ s),
       logger_SetLevel (internalLogger d) (LevelFromString s)
         (logger_SetLevel (serviceLogger d) (LevelFromString s) st)) \<and>
    (strings_ToUpper s \<notin> range Level_String \<longrightarrow> LevelFromString s = LevelInfo) \<and>
    rpc_client_main err [srv] (CtxDoneFirst False) False [prog, ''setlevel'', s] st =
      (Client_exits 0 (''log level changed to: '' @ s), st) \<and>
    NewClientWithPath err [srv] ''localhost:1337'' [] = Inl err"
proof -
  have srv: "srv = \<lparr>srv_Addr = ''localhost:1337'',
      srv_routes = [(''/rpc'', \<lparr>sLogger = Some (serviceLogger d), iLogger = Some (internalLogger d)\<rparr>)]\<rparr>"
    using assms(2) rpc_daemon [of h sh ih r q st0] by (simp add: d_def)
  have n: "\<not> sint (level_code (LevelFromString s)) < 0" using LevelFromString_nonneg [of s] by simp
  show ?thesis
    using n LevelFromString_other [of s]
    by (simp add: rpc_client_main_def processCommand_def NewClientWithPath_def DialHTTPPath_def srv
        ChangeLogLevel_def SetLevel_opt_def Let_def)
qed

theorem rpc_client_reports_any_level_witness:
  "\<exists>srv. start_server None (snd (multi_service_rpc_setup 0 1 2 7 8 no_logs)) = Some srv \<and>
     fst (rpc_client_main ''refused'' [srv] (Answered None) True [''rpc_client'', ''setlevel'', ''loud''] no_logs) =
     Client_exits 0 ''log level changed to: loud''"
proof -
  obtain srv where s: "start_server None (snd (multi_service_rpc_setup 0 1 2 7 8 no_logs)) = Some srv"
    using rpc_daemon by blast
  from rpc_client_reports_any_level [OF s, of "''refused''" "''rpc_client''" "''loud''" no_logs] s
  show ?thesis by simp
qed

end
