(* ===== verification/Rx_ExPubSub.thy ===== *)
theory Rx_ExPubSub
  imports Rx_BroadcastOps Rx_RegistryLog
begin

section \<open>The publish and subscribe example (examples/pubsub/main.go)\<close>

text \<open>
  A goroutine publishes a hundred metrics on a topic and closes it; two others subscribe and
  log what they receive. A metric is its name here, and \<open>log.Any\<close> writes the struct as
  \<open>fmt\<close> does, in braces.
\<close>

definition metric_name :: "nat \<Rightarrow> string" where
  "metric_name i = ''metric-'' @ Itoa (int i)"

definition metrics :: "string list" where
  "metrics = map metric_name [0..<100]"

definition pubsub_conf :: SubscriberConfig where
  "pubsub_conf =
     \<lparr>ConsumerGroup = ''group1'', ErrIfExists = False, BufferSize = 10,
      conf_BufferPolicy = Some BufferPolicyDropOldest, conf_DropTimeout = 0\<rparr>"

text \<open>
  The publisher: at each \<open>select\<close> the context is done, or it proceeds (the half second is
  over, the topic takes the metric). It closes the topic, unless its context was done first.
\<close>

datatype pub_event = CtxEnds | Proceeds

datatype pub_end = Publishing | TopicClosed | TopicLeftOpen

fun publish_from :: "nat \<Rightarrow> pub_event list \<Rightarrow> string list \<times> pub_end" where
  "publish_from i [] = ([], if 100 \<le> i then TopicClosed else Publishing)"
| "publish_from i (e # es) =
     (if 100 \<le> i then ([], TopicClosed)
      else case e of
        CtxEnds \<Rightarrow> ([], TopicClosed)
      | Proceeds \<Rightarrow> (let (ms, r) = publish_from (Suc i) es in (metric_name i # ms, r)))"

fun publisher :: "pub_event list \<Rightarrow> string list \<times> pub_end" where
  "publisher [] = ([], Publishing)"
| "publisher (CtxEnds # es) = ([], TopicLeftOpen)"
| "publisher (Proceeds # es) = publish_from 0 es"

text \<open>
  A consumer: after a failed subscription it logs, and then ranges over a nil channel, which
  never ends; otherwise it logs what it receives until the channel is closed.
\<close>

datatype received = Got string | Got_nil | Got_closed

type_synonym entry = "Level \<times> string \<times> Field list"

fun consume_loop :: "string \<Rightarrow> received list \<Rightarrow> entry list \<times> bool" where
  "consume_loop what [] = ([], False)"
| "consume_loop what (Got m # rs) =
     (let (ls, r) = consume_loop what rs
      in ((LevelInfo, what, [log_Any (\<lambda>m. ''{'' @ m @ ''}'') ''message'' m]) # ls, r))"
| "consume_loop what (Got_nil # rs) =
     (let (ls, r) = consume_loop what rs in ((LevelError, ''message was nil'', []) # ls, r))"
| "consume_loop what (Got_closed # rs) = ([], True)"

definition consumer :: "string \<Rightarrow> string \<Rightarrow> Field list option \<Rightarrow> received list \<Rightarrow> entry list \<times> bool" where
  "consumer failed what err rs =
     (case err of
        Some fs \<Rightarrow> ([(LevelError, failed, fs)], False)
      | None \<Rightarrow> consume_loop what rs)"

definition consumer1 :: "Field list option \<Rightarrow> received list \<Rightarrow> entry list \<times> bool" where
  "consumer1 = consumer ''failed to create subscriber'' ''received message from subscriber''"

definition consumer2 :: "Field list option \<Rightarrow> received list \<Rightarrow> entry list \<times> bool" where
  "consumer2 = consumer ''failed to create subscriber2'' ''received message from subscriber2''"

text \<open>The program waits for all three.\<close>

definition pubsub_ends :: "pub_event list \<Rightarrow> entry list \<times> bool \<Rightarrow> entry list \<times> bool \<Rightarrow> bool" where
  "pubsub_ends es c1 c2 \<longleftrightarrow> snd (publisher es) \<noteq> Publishing \<and> snd c1 \<and> snd c2"

text \<open>
  The whole: it makes a registry and its topic, and then starts the three goroutines. A
  failure is logged, with status 1.
\<close>

definition pubsub_topic :: TopicConfig where
  "pubsub_topic =
     \<lparr>cfg_Name = ''pubsub-topic'', cfg_ErrIfExists = True, cfg_SubscriberAware = False\<rparr>"

datatype pubsub_end = Pubsub_exits int entry | Pubsub_waits

definition pubsub_main :: "pub_event list \<Rightarrow> entry list \<times> bool \<Rightarrow> entry list \<times> bool \<Rightarrow> pubsub_end" where
  "pubsub_main es c1 c2 =
     (case fst (CreateTopic (NamedType ''Measurable'') (Some (intracom_New ''pubsub'' :: string intracom))
             pubsub_topic) of
        Inl e \<Rightarrow>
          Pubsub_exits 1 (LevelError, ''failed to create topic'',
            [log_String ''topic'' (cfg_Name pubsub_topic), log_Error ''error'' (ic_error_msg e)])
      | Inr r \<Rightarrow>
          if pubsub_ends es c1 c2 then Pubsub_exits 0 (LevelInfo, ''exiting...'', []) else Pubsub_waits)"

subsection \<open>What is published\<close>

lemma publish_from_prefix:
  "i \<le> 100 \<Longrightarrow> \<exists>k. fst (publish_from i es) = take k (map metric_name [i..<100])"
proof (induction es arbitrary: i)
  case (Cons e es)
  show ?case
  proof (cases "i = 100 \<or> e = CtxEnds")
    case True
    then show ?thesis by (intro exI [of _ 0]) auto
  next
    case False
    with Cons.prems have i: "i < 100" "e = Proceeds" by (auto, cases e) auto
    with Cons.IH [of "Suc i"] obtain k where
      "fst (publish_from (Suc i) es) = take k (map metric_name [Suc i..<100])" by auto
    with i show ?thesis
      by (intro exI [of _ "Suc k"]) (simp add: upt_conv_Cons split_def)
  qed
qed (auto intro: exI [of _ 0])

lemma publisher_prefix: "\<exists>k. fst (publisher es) = take k metrics"
  using publish_from_prefix [of 0]
  by (induction es rule: publisher.induct) (auto simp: metrics_def intro: exI [of _ 0])

text \<open>A decimal text determines its number.\<close>

definition digit_value :: "char \<Rightarrow> nat" where
  "digit_value c = of_char c - 48"

lemma dec_value: "foldl (\<lambda>a c. 10 * a + digit_value c) 0 (dec n) = n"
proof (induction n rule: dec.induct)
  case (1 n)
  have d: "digit_value (char_of (48 + k)) = k" if "k < 10" for k
    using that by (simp add: digit_value_def)
  show ?case
    using 1 d [of n] d [of "n mod 10"] by (cases "n < 10") (simp_all add: dec.simps [of n])
qed

lemma dec_inject: "dec m = dec n \<Longrightarrow> m = n"
  using dec_value by metis

lemma metrics_distinct: "distinct metrics"
proof -
  have "inj_on metric_name {0..<100}"
    by (rule inj_onI) (auto simp: metric_name_def Itoa_def dest: dec_inject)
  then show ?thesis by (simp add: metrics_def distinct_map)
qed

text \<open>Two readers of one channel: which of them takes each message.\<close>

fun share :: "bool list \<Rightarrow> 'v list \<Rightarrow> 'v list \<times> 'v list" where
  "share (b # bs) (x # xs) =
     (let (us, vs) = share bs xs in if b then (x # us, vs) else (us, x # vs))"
| "share bs xs = ([], [])"

lemma subseq_appendR: "subseq xs (xs @ ys)"
  using subseq_append_iff by fastforce

lemma subseq_distinct: "subseq xs ys \<Longrightarrow> distinct ys \<Longrightarrow> distinct xs"
  by (induction rule: list_emb.induct) (auto dest: list_emb_set)

lemma share_subseq: "subseq (fst (share bs xs)) xs \<and> subseq (snd (share bs xs)) xs"
  by (induction bs xs rule: share.induct) (auto simp: Let_def split: prod.split)

lemma share_disjoint: "distinct xs \<Longrightarrow> set (fst (share bs xs)) \<inter> set (snd (share bs xs)) = {}"
proof (induction bs xs rule: share.induct)
  case (1 b bs x xs)
  moreover have "set (fst (share bs xs)) \<subseteq> set xs" "set (snd (share bs xs)) \<subseteq> set xs"
    using share_subseq [of bs xs] by (auto dest: list_emb_set)
  ultimately show ?case by (auto simp: Let_def split: prod.splits)
qed auto

subsection \<open>What the two consumers get\<close>

text \<open>
  The consumers share the messages. Both ask for the group \<open>group1\<close>, so once the first has
  subscribed, the second is given the same channel, without an error and without a change of
  the topic. Whatever happens then, the metrics that the one logs and those that the other
  logs are in the order of publication, and no metric is logged by both; although each
  subscription by itself would have been given all that was published.
\<close>

theorem pubsub_consumers_share:
  fixes es fs :: "string event list"
  assumes "fair_run (es @ fs) (bc_init False)"
    and "subscribers (bc_run es (bc_init False)) (ConsumerGroup pubsub_conf) = Some i"
    and "history (es @ fs) (bc_init False) = fst (publisher ps)"
    and "store (bc_run (es @ fs) (bc_init False)) i = Some s"
    and "share who (delivered (ch s)) = (xs, ys)"
  shows "bc_subscribe pubsub_conf (bc_run es (bc_init False)) =
      (SubscribeResponse i None, bc_run es (bc_init False)) \<and>
    subseq xs metrics \<and> subseq ys metrics \<and> set xs \<inter> set ys = {}"
proof -
  let ?b = "bc_run es (bc_init False)"
  have fair: "fair_run es (bc_init False)" using assms(1) by (simp add: fair_run_append)
  from subscribe_existing_group [OF fair refl assms(2)]
  have same: "bc_subscribe pubsub_conf ?b = (SubscribeResponse i None, ?b)"
    by (auto simp: pubsub_conf_def)
  obtain k where k: "fst (publisher ps) = take k metrics" using publisher_prefix by blast
  have "subseq (contents (ch s)) (history (es @ fs) (bc_init False))"
    using within_run [OF within_init assms(1)] assms(4) by (simp add: within_def)
  moreover have "subseq (delivered (ch s)) (contents (ch s))"
    unfolding contents_def by (rule subseq_appendR)
  moreover have "subseq (take k metrics) metrics"
    by (metis append_take_drop_id subseq_appendR)
  ultimately have d: "subseq (delivered (ch s)) metrics"
    unfolding assms(3) k by (meson subseq_order.trans)
  then have "distinct (delivered (ch s))" by (rule subseq_distinct) (rule metrics_distinct)
  from share_disjoint [OF this, of who] assms(5) have "set xs \<inter> set ys = {}" by simp
  moreover have "subseq xs metrics" "subseq ys metrics"
    using share_subseq [of who "delivered (ch s)"] d assms(5)
    by (auto intro: subseq_order.trans)
  ultimately show ?thesis using same by blast
qed

text \<open>
  A failed subscription keeps the program from ending, whatever the others do: the consumer
  goes on to range over the nil channel. And a publisher whose context is done before it
  starts does not close the topic.
\<close>

theorem pubsub_error_blocks:
  "pubsub_main ps (consumer1 (Some fs) rs) c2 = Pubsub_waits \<and>
   pubsub_main ps c1 (consumer2 (Some fs) rs) = Pubsub_waits \<and>
   publisher (CtxEnds # ps) = ([], TopicLeftOpen)"
  by (simp add: pubsub_main_def pubsub_ends_def consumer1_def consumer2_def consumer_def CreateTopic_def
      create_commit_def intracom_New_def pubsub_topic_def)

end
