(* ===== verification/Spec2Isabelle.thy ===== *)
theory Spec2Isabelle
  imports Rx_WatchLog Rx_LogHandlers Rx_RpcServer Rx_Snapshots Rx_Backpressure Rx_PublishRaces Rx_Shutdown
    Rx_RegistryLog Rx_RegistryRaces Rx_ExMulti Rx_ExRpcClient Rx_ExPubSub
begin

text \<open>
  A development about rxd, a framework for daemons that run services in Go. A daemon runs
  each service in a goroutine under a manager, which drives its lifecycle and announces the
  states it goes through; the daemon publishes the states of all services on a topic, and
  services watch them.

  \<^bold>\<open>The program's parts, and the theories that model them.\<close>

  \<^item> \<open>errors.go\<close>: \<open>Rx_Errors\<close>, the error values and which of them count as cancellations.
  \<^item> \<open>service_states.go\<close>, \<open>service_action.go\<close>, \<open>constants.go\<close>: \<open>Rx_States\<close>, states,
    transitions and actions at their width of 8 bits, updates, the copy of a state map, the
    consumer names of watches.
  \<^item> \<open>service_manager.go\<close>, \<open>service_manager_option.go\<close>: \<open>Rx_Managers\<close>, with
    \<open>RunContinuousManager.Manage\<close> as \<open>rc_Manage\<close> and \<open>RunUntilSuccessManager.Manage\<close> as
    \<open>ru_Manage\<close>, each giving the trace of calls, updates, log lines and timer settings for
    a list of choices. \<open>Rx_Lifecycle\<close> shows what they guarantee.
  \<^item> \<open>intracom/buffer_policy.go\<close>: \<open>Rx_Channel\<close> (Go channels) and \<open>Rx_BufferPolicy\<close>, one
    definition \<open>handle_\<dots>\<close> for each policy's \<open>Handle\<close>.
  \<^item> \<open>intracom/subscriber.go\<close>, \<open>subscriber_config.go\<close>: \<open>Rx_Subscriber\<close>.
  \<^item> \<open>intracom/broadcast_sync.go\<close>, \<open>request.go\<close>: \<open>Rx_Broadcast\<close>, the loop of
    \<open>SyncBroadcaster.Broadcast\<close> as a step on its local variables for each event.
    \<open>Rx_BroadcastProps\<close> has its invariant, \<open>Rx_Delivery\<close> what consumers receive,
    \<open>Rx_BroadcastOps\<close> what each operation does.
  \<^item> \<open>intracom/topic.go\<close>: \<open>Rx_Topic\<close> (calls one after the other), \<open>Rx_TopicRaces\<close>
    (\<open>Subscribe\<close>, \<open>Unsubscribe\<close> and \<open>Close\<close> interleaved statement by statement) and
    \<open>Rx_PublishRaces\<close> (publishers on \<open>PublishChannel\<close> together with them).
  \<^item> \<open>intracom/intracom.go\<close>, \<open>intracom/errors.go\<close>: \<open>Rx_Intracom\<close>, the registry over a heap
    of topics; \<open>Rx_IntracomProps\<close> its invariant, \<open>Rx_Registry\<close> its properties;
    \<open>Rx_RegistryLog\<close> what its operations log, \<open>intracom/logger.go\<close> included;
    \<open>Rx_RegistryRaces\<close> overlapping calls, from one use of its lock to the next.
  \<^item> \<open>log/log.go\<close>, \<open>log/logger.go\<close>: \<open>Rx_Log\<close>, and \<open>Rx_Loggers\<close> for what loggers share.
  \<^item> \<open>log/handler.go\<close>, \<open>log/option.go\<close>, \<open>log/journald\<close>, \<open>daemon_log.go\<close>:
    \<open>Rx_LogHandlers\<close>.
  \<^item> \<open>service_context.go\<close>, \<open>service_filter.go\<close>: \<open>Rx_Watch\<close>, with \<open>Rx_Watchers\<close> for what
    watches signal, \<open>Rx_WatchSharing\<close> for subscriptions that watches share, \<open>Rx_WatchLog\<close>
    for what contexts hand on (\<open>Deadline\<close>, \<open>Done\<close>, \<open>Err\<close>, \<open>Value\<close>) and what watches log,
    and \<open>Rx_Snapshots\<close> for the maps that callers are handed, as references.
  \<^item> \<open>daemon_prestart.go\<close>: \<open>Rx_Prestart\<close>.
  \<^item> \<open>daemon.go\<close>, \<open>daemon_options.go\<close>, \<open>service.go\<close>, \<open>service_option.go\<close>: \<open>Rx_Daemon\<close> and
    \<open>Rx_DaemonProps\<close>, with \<open>Start\<close> as a function of what its goroutines meet; and
    \<open>Rx_StartSystem\<close>, those goroutines with their log entries, interleaved step by step, with
    \<open>Rx_StartProps\<close>, \<open>Rx_StartArrivals\<close> and \<open>Rx_StartEnds\<close> for what holds of every schedule,
    and \<open>Rx_Shutdown\<close>, which puts function and schedules together. \<open>Rx_Backpressure\<close> has the
    chain of bounded update channel, states watcher and topic, in which each waits for the next.
  \<^item> \<open>daemon_rpc.go\<close>, \<open>pkg/rpc\<close>: \<open>Rx_Rpc\<close> (the command, the routes, the client's call) and
    \<open>Rx_RpcServer\<close> (\<open>Start\<close> and \<open>Stop\<close> of a server, \<open>Close\<close> of a client).
  \<^item> \<open>examples\<close>, the programs that show how the library is used: \<open>Rx_ExManager\<close>
    (\<open>single_service_custom_manager/manager.go\<close>), \<open>Rx_ExStartup\<close> (the job of
    \<open>run_until_success\<close>), \<open>Rx_ExServer\<close> and \<open>Rx_ExServerProps\<close> (the four services
    \<open>HelloWorldAPIService\<close>), \<open>Rx_ExPolling\<close> (the two \<open>polling_service.go\<close>), \<open>Rx_ExMains\<close>
    (the five \<open>main.go\<close> that start a daemon), \<open>Rx_ExMulti\<close> (all of \<open>multi_service\<close>),
    \<open>Rx_ExRpcClient\<close> (\<open>rpc_client/main.go\<close>) and \<open>Rx_ExPubSub\<close> (\<open>pubsub/main.go\<close>).
  \<^item> \<open>Rx_StatesTopic\<close> and this theory put the states watcher, the topic and the watches
    together. \<open>Rx_Prelude\<close> has the shared types and the theorem collections.

  \<^bold>\<open>How state and effects correspond.\<close> A struct is a record with the fields of the source.
  Go maps are partial functions; the order in which \<open>range\<close> visits one is an argument, and
  the properties hold for every order. Where the source shares an object (maps, loggers,
  topics, subscribers), it is a reference into a store. An error is a value of a sum or
  option type, and so are a panic and a call that does not return. A goroutine is a function
  from the list of what happens to it (which case its \<open>select\<close> takes, what the user's code
  returns, which messages come) to the list of what it does; overlapping callers are a step
  relation. Enumerations, ports and byte counts are words.

  \<^bold>\<open>What the groups of lemmas show.\<close> The managers refine an automaton of the lifecycle
  (the locale \<open>manager_iteration\<close>, interpreted for both), so \<open>Stop\<close> is the last call, every
  update is announced, and the manager returns exactly when cancelled or successful. Every
  policy keeps a contract (\<open>buffer_policy\<close>): nothing is invented or overtaken, and the loss
  is bounded. The broadcaster keeps an invariant, from which follow the order of delivery,
  completeness for \<open>DropNone\<close> and up-to-dateness for \<open>DropOldest\<close>. The registry relies on
  a topic only by \<open>topic_api\<close>; when its calls overlap, their answers are still true of it, but a
  topic that does not close stops them all. A service's goroutine keeps the contract \<open>exit_announcer\<close>
  towards the states watcher, whose snapshots implement a specification on values; so a
  cancelled daemon shuts down and everybody who watches learns of it. An invariant of the
  wait group shows that no update meets a closed channel, and that the arrivals which the
  function for \<open>Start\<close> takes are those of the schedules, so that every schedule of a cancelled
  daemon shuts it down. That this does not wait for subscribers is shown for watches, and
  refuted for a subscriber that does not receive (\<open>bp_step\<close>); that published maps stay what
  they are is shown for watches that make maps of their own, and refuted for the others
  (\<open>sn_step\<close>). The services of the
  examples are systems of a manager, the goroutines that each \<open>Run\<close> starts, and the network;
  invariants of all their interleavings (\<open>hello_world\<close>, \<open>capturing\<close>, \<open>shutting\<close>) show which
  of them stop when they are told to. Where the code does not keep what it promises, a theorem describes the run that breaks it.

  \<^bold>\<open>Loops and bounds.\<close> No definition has fuel: a loop that may run for ever runs over the
  list of its inputs and, at the end of the list, is in a state of waiting
  (\<open>Still_running\<close>, \<open>PWaiting\<close>, \<open>StillPolling\<close>, \<open>None\<close>). That it does return is shown for
  the inputs that make it.

  \<^bold>\<open>Not modelled.\<close> The texts of the packages \<open>fmt\<close> and \<open>strconv\<close> for floats and values
  of any type, which are parameters; broadcasters and pipelines of the user; listening,
  dialling and encoding in \<open>net/http\<close> and \<open>net/rpc\<close>; a panic of the broadcaster or the
  states watcher, which ends the program, beyond the fact that it happens; the read-write
  locks of the loggers and handlers, whose critical sections are single steps here; the
  interface declarations; and in the examples, what HTTP handlers write, how JSON is decoded,
  and the seconds between events, of which only the order is modelled.
\<close>

section \<open>From the services to the watchers\<close>



end
